(* ===== verification/Prelude.thy ===== *)
theory Prelude
  imports "HOL-Library.Word" "HOL-Library.Monad_Syntax"
begin

text \<open>
  What every component of the library shares: the machine types of the Go code, the error
  values its functions return, blocks of addresses, and the word lemmas the component proofs
  rest on.

  Conventions of the whole library:
    \<^item> \<open>uintptr\<close>, \<open>uint64\<close>, \<open>uint32\<close>, \<open>uint8\<close> are words of that width; a
      pointer is a \<open>uintptr\<close> and \<open>nil\<close> is \<open>0\<close>;
    \<^item> a Go function returning \<open>(T, error)\<close> returns \<open>goerr + T\<close>, \<open>Inl\<close> the error;
    \<^item> a function that can panic (a nil dereference, a read of unmapped memory) or that
      may loop for ever returns an \<open>option\<close>, and \<open>None\<close> is the panic or the divergence.
\<close>

type_synonym uintptr = "64 word"
type_synonym uint64 = "64 word"
type_synonym uint32 = "32 word"
type_synonym uint16 = "16 word"
type_synonym uint8 = "8 word"

text \<open>The error values of the package, one constructor for each \<open>errors.New\<close> it returns.\<close>

datatype goerr =
    EmptyError              \<comment> \<open>trees.go: not found\<close>
  | LackOfMemoryErr         \<comment> \<open>linear\_alloc.go\<close>
  | NilError                \<comment> \<open>xmm.go: params is illegal\<close>
  | ErrErrno nat            \<comment> \<open>an errno of the operating system\<close>
  | ErrSizeOver             \<comment> \<open>raw\_memory.go: size is over\<close>
  | ErrSizeOverPool         \<comment> \<open>raw\_memory.go: size is over[xRawMemoryPool]\<close>
  | ErrAllocatorSize        \<comment> \<open>metadata\_alloc.go: the element is larger than a raw memory\<close>
  | ErrCapZero              \<comment> \<open>metadata\_alloc.go: cap == 0\<close>
  | ErrOutOfMemory          \<comment> \<open>linear\_alloc.go: runtime: out of memory\<close>
  | ErrCannotMap            \<comment> \<open>linear\_alloc.go: cannot map pages in arena address space\<close>
  | ErrTooManyRetries       \<comment> \<open>linear\_alloc.go: failed to allocate aligned heap memory\<close>
  | ErrInTreap              \<comment> \<open>trees.go: inserting span already in treap\<close>
  | ErrTreapSize            \<comment> \<open>trees.go: span and treap (node) sizes do not match\<close>
  | ErrBrokenTreap          \<comment> \<open>trees.go: treap insert finds a broken treap, rotateLeft, rotateRight\<close>
  | ErrNotChild             \<comment> \<open>trees.go: node is not its parent's child\<close>
  | ErrNilKey               \<comment> \<open>trees.go: treap node with nil spanKey found\<close>
  | ErrOrder                \<comment> \<open>trees.go: checkTreapNode\<close>
  | ErrL2                   \<comment> \<open>heap.go: err: l2 is err\<close>
  | ErrL2Nil                \<comment> \<open>heap.go: err: l2 is nil\<close>
  | ErrNodeNil              \<comment> \<open>heap.go: node val is nil\<close>
  | ErrNodeSmall            \<comment> \<open>heap.go: node val is small\<close>
  | ErrSpanNil              \<comment> \<open>class\_span.go: span is nil\<close>
  | ErrUnaligned            \<comment> \<open>bit\_map.go: markBitsForSpan: unaligned start\<close>
  | ErrNotAsync             \<comment> \<open>span\_pool.go: not ExpendAsync\<close>
  | ErrOpUnsupported        \<comment> \<open>span\_pool.go: op is not support\<close>
  | ErrIdex                 \<comment> \<open>span\_pool.go: idex, has is err\<close>
  | ErrorKeyIsNil           \<comment> \<open>entry.go: the literal nil not allowed as keys\<close>

subsection \<open>Blocks of addresses\<close>

text \<open>The \<open>n\<close> addresses from \<open>a\<close> on. A block never wraps around the address space.\<close>

definition blk :: "uintptr \<Rightarrow> uintptr \<Rightarrow> uintptr set" where
  "blk a n = {x. unat a \<le> unat x \<and> unat x < unat a + unat n}"

fun disjoint_blocks :: "(uintptr \<times> uintptr) list \<Rightarrow> bool" where
  "disjoint_blocks [] = True"
| "disjoint_blocks (b # bs) =
     ((\<forall>c \<in> set bs. blk (fst b) (snd b) \<inter> blk (fst c) (snd c) = {}) \<and> disjoint_blocks bs)"

lemma mem_blk [simp]: "x \<in> blk a n \<longleftrightarrow> unat a \<le> unat x \<and> unat x < unat a + unat n"
  by (simp add: blk_def)

lemma blk_zero [simp]: "blk a 0 = {}"
  by (auto simp: blk_def)

lemma blk_disjointI:
  "unat a + unat n \<le> unat b \<or> unat b + unat m \<le> unat a \<Longrightarrow> blk a n \<inter> blk b m = {}"
  by auto

lemma blk_subset:
  "unat b \<le> unat a \<Longrightarrow> unat a + unat n \<le> unat b + unat m \<Longrightarrow> blk a n \<subseteq> blk b m"
  by auto

lemma blk_start: "0 < n \<Longrightarrow> a \<in> blk a n"
  by (simp add: word_less_nat_alt)

subsection \<open>Word arithmetic without wrap-around\<close>

named_theorems unat_noof \<open>unat of an operation that does not wrap, under a bound\<close>

lemma unat_add_noof [unat_noof]:
  "unat (x :: uintptr) + unat y < 2 ^ 64 \<Longrightarrow> unat (x + y) = unat x + unat y"
  by (simp add: unat_word_ariths)

lemma unat_sub_noof [unat_noof]:
  "unat (y :: uintptr) \<le> unat x \<Longrightarrow> unat (x - y) = unat x - unat y"
  by (simp add: unat_sub word_le_nat_alt)

lemma unat_mult_noof [unat_noof]:
  "unat (x :: uintptr) * unat y < 2 ^ 64 \<Longrightarrow> unat (x * y) = unat x * unat y"
  by (simp add: unat_word_ariths)

lemma unat_lt64 [simp]: "unat (x :: uintptr) < 18446744073709551616"
  using unsigned_less [of x] by simp

lemma unat_ucast_16_64: "unat (ucast (x :: uint16) :: uintptr) = unat x"
proof -
  have "unat x < 2 ^ LENGTH(16)" by (rule unsigned_less)
  then have "unat x < 2 ^ 64" by simp
  then show ?thesis by (simp add: unsigned_ucast_eq take_bit_eq_mod)
qed

lemma unat_ucast_8_64: "unat (ucast (x :: uint8) :: uintptr) = unat x"
proof -
  have "unat x < 2 ^ LENGTH(8)" by (rule unsigned_less)
  then have "unat x < 2 ^ 64" by simp
  then show ?thesis by (simp add: unsigned_ucast_eq take_bit_eq_mod)
qed

lemma unat_drop_bit64: "unat (drop_bit n (x :: uintptr)) = unat x div 2 ^ n"
  using unat_lt64 [of x]
  by (simp only: unsigned_drop_bit_eq) (simp add: drop_bit_eq_div take_bit_eq_mod)

text \<open>Division by a multiplication and a shift, when the rounding error stays small.\<close>

lemma mult_shift_div:
  assumes "u * d = 2 ^ k + e" and "n * e < 2 ^ k" and "0 < d"
  shows "n * u div 2 ^ k = n div (d :: nat)"
proof -
  let ?q = "n div d" and ?r = "n mod d"
  have r: "?r \<le> d - 1" using assms(3) by (simp add: Suc_leI less_Suc_eq_le[symmetric])
  have "d * (?q * e + ?r * u) = d * ?q * e + ?r * (u * d)"
    by (simp add: algebra_simps)
  also have "\<dots> = d * ?q * e + ?r * (2 ^ k + e)" by (simp only: assms(1))
  also have "\<dots> = n * e + ?r * 2 ^ k"
  proof -
    have "n * e = (d * ?q + ?r) * e" by simp
    then show ?thesis by (simp only: distrib_left distrib_right)
  qed
  also have "\<dots> < 2 ^ k + (d - 1) * 2 ^ k"
    using assms(2) r by (meson add_less_le_mono mult_le_mono1)
  also have "\<dots> = d * 2 ^ k" using assms(3) by (cases d) auto
  finally have lt: "?q * e + ?r * u < 2 ^ k" by simp
  have "n * u = (?q * d + ?r) * u" by simp
  also have "\<dots> = ?q * (u * d) + ?r * u" by (simp only: algebra_simps)
  also have "\<dots> = ?q * 2 ^ k + (?q * e + ?r * u)" unfolding assms(1) by (simp only: algebra_simps)
  finally show ?thesis using lt by simp
qed

lemmas unat_simps = unat_div unat_mod word_less_nat_alt word_le_nat_alt

subsection \<open>Option and sum\<close>

lemma bind_Some_iff [simp]: "(m \<bind> f = Some y) = (\<exists>x. m = Some x \<and> f x = Some y)"
  by (cases m) auto

end
