(* ===== verification/PtrTree.thy ===== *)
theory PtrTree
  imports Prelude "HOL-Library.Tree"
begin

text \<open>
  Binary trees whose nodes live in a store and point to their children and to their parent, as
  the treap of free chunks has them. A node is a record that extends \<open>link\<close>; the shape of a
  tree is a \<open>uintptr tree\<close> of node addresses, and \<open>tree_at\<close> says that a store holds that shape.
  A path from a node up to the root is a list of steps, so that an operation that changes
  a tree in one place is described by the subtree before and after and the path above it.
\<close>

record link =
  lnk_left :: uintptr
  lnk_right :: uintptr
  lnk_parent :: uintptr

type_synonym 'a node_store = "uintptr \<Rightarrow> 'a link_scheme option"

text \<open>Change one node in place; \<open>None\<close> is the dereference of nil or of a dead address.\<close>

definition upd :: "uintptr \<Rightarrow> ('n \<Rightarrow> 'n) \<Rightarrow> (uintptr \<Rightarrow> 'n option) \<Rightarrow> (uintptr \<Rightarrow> 'n option) option" where
  "upd a f N = map_option (\<lambda>n. N(a \<mapsto> f n)) (N a)"

definition set_parent :: "uintptr \<Rightarrow> uintptr \<Rightarrow> 'a node_store \<Rightarrow> 'a node_store option" where
  "set_parent a q N = (if a \<noteq> 0 then upd a (lnk_parent_update (\<lambda>_. q)) N else Some N)"

subsection \<open>Shapes\<close>

fun tree_at :: "'a node_store \<Rightarrow> uintptr \<Rightarrow> uintptr \<Rightarrow> uintptr tree \<Rightarrow> bool" where
  "tree_at N q a \<langle>\<rangle> = (a = 0)"
| "tree_at N q a \<langle>l, x, r\<rangle> =
     (a = x \<and> x \<noteq> 0 \<and>
      (case N x of
         None \<Rightarrow> False
       | Some n \<Rightarrow> lnk_parent n = q \<and> tree_at N x (lnk_left n) l \<and> tree_at N x (lnk_right n) r))"

fun root_of :: "uintptr tree \<Rightarrow> uintptr" where
  "root_of \<langle>\<rangle> = 0"
| "root_of \<langle>l, x, r\<rangle> = x"

text \<open>A step of a path: the parent, whether the path goes on in its left child, and the other child.\<close>

datatype step = InLeft uintptr "uintptr tree" | InRight "uintptr tree" uintptr

fun plug :: "uintptr tree \<Rightarrow> step list \<Rightarrow> uintptr tree" where
  "plug t [] = t"
| "plug t (InLeft x r # c) = plug \<langle>t, x, r\<rangle> c"
| "plug t (InRight l x # c) = plug \<langle>l, x, t\<rangle> c"

fun above :: "step list \<Rightarrow> uintptr" where
  "above [] = 0"
| "above (InLeft x r # c) = x"
| "above (InRight l x # c) = x"

text \<open>\<open>path_at N rt a c\<close>: the path \<open>c\<close> leads from the subtree at \<open>a\<close> to the root \<open>rt\<close>.\<close>

fun path_at :: "'a node_store \<Rightarrow> uintptr \<Rightarrow> uintptr \<Rightarrow> step list \<Rightarrow> bool" where
  "path_at N rt a [] = (rt = a)"
| "path_at N rt a (InLeft x r # c) =
     (x \<noteq> 0 \<and>
      (case N x of
         None \<Rightarrow> False
       | Some n \<Rightarrow> lnk_left n = a \<and> lnk_parent n = above c \<and> tree_at N x (lnk_right n) r \<and> path_at N rt x c))"
| "path_at N rt a (InRight l x # c) =
     (x \<noteq> 0 \<and>
      (case N x of
         None \<Rightarrow> False
       | Some n \<Rightarrow> lnk_right n = a \<and> lnk_parent n = above c \<and> tree_at N x (lnk_left n) l \<and> path_at N rt x c))"

fun step_nodes :: "step \<Rightarrow> uintptr set" where
  "step_nodes (InLeft x r) = insert x (set_tree r)"
| "step_nodes (InRight l x) = insert x (set_tree l)"

definition path_nodes :: "step list \<Rightarrow> uintptr set" where
  "path_nodes c = (\<Union>s \<in> set c. step_nodes s)"

text \<open>The nodes to the left and to the right of the hole, in order.\<close>

fun lefts :: "step list \<Rightarrow> uintptr list" where
  "lefts [] = []"
| "lefts (InLeft x r # c) = lefts c"
| "lefts (InRight l x # c) = lefts c @ inorder l @ [x]"

fun rights :: "step list \<Rightarrow> uintptr list" where
  "rights [] = []"
| "rights (InLeft x r # c) = x # inorder r @ rights c"
| "rights (InRight l x # c) = rights c"

lemma path_nodes_simps [simp]:
  "path_nodes [] = {}"
  "path_nodes (InLeft x r # c) = insert x (set_tree r \<union> path_nodes c)"
  "path_nodes (InRight l x # c) = insert x (set_tree l \<union> path_nodes c)"
  by (auto simp: path_nodes_def)

lemma inorder_plug: "inorder (plug t c) = lefts c @ inorder t @ rights c"
  by (induction t c rule: plug.induct) auto

lemma set_plug: "set_tree (plug t c) = set_tree t \<union> path_nodes c"
  by (induction t c rule: plug.induct) auto

lemma set_lefts_rights: "set (lefts c) \<union> set (rights c) = path_nodes c"
  by (induction c rule: lefts.induct) auto

lemma tree_at_root: "tree_at N q a t \<Longrightarrow> a = root_of t"
  by (cases t) auto

lemma tree_at_nonzero: "tree_at N q a t \<Longrightarrow> 0 \<notin> set_tree t"
  by (induction t arbitrary: q a) (auto split: option.splits)

lemma tree_at_dom: "tree_at N q a t \<Longrightarrow> set_tree t \<subseteq> dom N"
  by (induction t arbitrary: q a) (auto split: option.splits, blast+)

lemma tree_at_cong: "(\<And>x. x \<in> set_tree t \<Longrightarrow> N' x = N x) \<Longrightarrow> tree_at N' q a t = tree_at N q a t"
  by (induction t arbitrary: q a) (auto split: option.splits)

lemma path_at_cong: "(\<And>x. x \<in> path_nodes c \<Longrightarrow> N' x = N x) \<Longrightarrow> path_at N' rt a c = path_at N rt a c"
proof (induction N rt a c rule: path_at.induct)
  case (2 N rt a x r c)
  have "N' x = N x" using 2(2) by simp
  moreover have "tree_at N' x b r = tree_at N x b r" for b by (rule tree_at_cong) (use 2(2) in simp)
  ultimately show ?case using 2 by (auto split: option.splits)
next
  case (3 N rt a l x c)
  have "N' x = N x" using 3(2) by simp
  moreover have "tree_at N' x b l = tree_at N x b l" for b by (rule tree_at_cong) (use 3(2) in simp)
  ultimately show ?case using 3 by (auto split: option.splits)
qed simp

lemma path_at_nonzero: "path_at N rt a c \<Longrightarrow> 0 \<notin> path_nodes c"
  by (induction N rt a c rule: path_at.induct) (auto split: option.splits dest: tree_at_nonzero)

lemma above_in: "c \<noteq> [] \<Longrightarrow> above c \<in> path_nodes c"
  by (cases c rule: above.cases) auto

text \<open>A tree is a subtree with the path above it.\<close>

lemma tree_at_plug:
  "tree_at N 0 rt (plug t c) \<longleftrightarrow> path_at N rt (root_of t) c \<and> tree_at N (above c) (root_of t) t"
proof (induction t c rule: plug.induct)
  case (1 t)
  then show ?case using tree_at_root [of N 0 rt t] by auto
qed (auto split: option.splits dest: tree_at_root)

lemma tree_split:
  assumes "x \<in> set_tree t"
  obtains c l r where "t = plug \<langle>l, x, r\<rangle> c"
proof -
  have "\<exists>c' l r. plug t c = plug \<langle>l, x, r\<rangle> c'" for c
    using assms
  proof (induction t arbitrary: c)
    case (Node l y r)
    consider "x = y" | "x \<in> set_tree l" | "x \<in> set_tree r" using Node.prems by auto
    then show ?case
    proof cases
      case 2
      from Node.IH(1) [OF this, of "InLeft y r # c"] show ?thesis by simp
    next
      case 3
      from Node.IH(2) [OF this, of "InRight l y # c"] show ?thesis by simp
    qed blast
  qed simp
  from this [of "[]"] that show ?thesis by auto
qed

text \<open>Operations on links keep what the records add to \<open>link\<close>.\<close>

definition same_data :: "'a node_store \<Rightarrow> 'a node_store \<Rightarrow> bool" where
  "same_data N N' \<longleftrightarrow> (\<forall>x. map_option link.more (N' x) = map_option link.more (N x))"

lemma same_data_refl [simp]: "same_data N N"
  by (simp add: same_data_def)

lemma same_data_trans: "same_data N N' \<Longrightarrow> same_data N' N'' \<Longrightarrow> same_data N N''"
  by (simp add: same_data_def)

lemma same_data_upd: "same_data N N' \<Longrightarrow> N' a = Some n \<Longrightarrow> link.more n' = link.more n \<Longrightarrow> same_data N (N'(a \<mapsto> n'))"
  unfolding same_data_def by (metis fun_upd_apply option.simps(9))

lemma same_data_dom: "same_data N N' \<Longrightarrow> dom N' = dom N"
  unfolding same_data_def dom_def by (metis map_option_is_None)

text \<open>Hanging a subtree under another parent.\<close>

lemma set_parent_ok:
  assumes "tree_at N q a t" and "distinct (inorder t)"
  shows "\<exists>N'. set_parent a q' N = Some N' \<and> tree_at N' q' a t \<and> (\<forall>x. x \<notin> set_tree t \<longrightarrow> N' x = N x) \<and> same_data N N'"
proof (cases t)
  case Leaf
  then show ?thesis using assms by (simp add: set_parent_def)
next
  case (Node l x r)
  then obtain n where n: "N x = Some n" "a = x" "x \<noteq> 0" "tree_at N x (lnk_left n) l" "tree_at N x (lnk_right n) r"
    using assms(1) by (auto split: option.splits)
  let ?N = "N(x \<mapsto> n\<lparr>lnk_parent := q'\<rparr>)"
  have "tree_at ?N x b s = tree_at N x b s" if "x \<notin> set_tree s" for b s
    using that by (intro tree_at_cong) auto
  moreover have "x \<notin> set_tree l" "x \<notin> set_tree r" using assms(2) Node by auto
  ultimately have "tree_at ?N q' a t" using n Node by simp
  moreover have "same_data N ?N" using n(1) by (intro same_data_upd) auto
  ultimately show ?thesis using n Node by (auto simp: set_parent_def upd_def)
qed

text \<open>Steps that change nothing.\<close>

lemma upd_Some: "N a = Some n \<Longrightarrow> upd a f N = Some (N(a \<mapsto> f n))"
  by (simp add: upd_def)

lemma upd_same: "N a = Some n \<Longrightarrow> f n = n \<Longrightarrow> upd a f N = Some N"
  by (simp add: upd_def fun_upd_idem)

lemma set_parent_same: "tree_at N q a t \<Longrightarrow> set_parent a q N = Some N"
  by (cases t) (auto simp: set_parent_def intro!: upd_same split: option.splits)

lemma same_data_parent: "same_data N N' \<Longrightarrow> N' a = Some n \<Longrightarrow> same_data N (N'(a \<mapsto> n\<lparr>lnk_parent := q\<rparr>))"
  by (rule same_data_upd) auto

text \<open>
  A tree in the store: \<open>linked_tree\<close> is the shape of the whole tree, without repetition. \<open>same_outside\<close> says that
  an operation on the links changes no node outside a set.
\<close>

definition linked_tree :: "uintptr \<times> 'a node_store \<Rightarrow> uintptr tree \<Rightarrow> bool" where
  "linked_tree rN t \<longleftrightarrow> tree_at (snd rN) 0 (fst rN) t \<and> distinct (inorder t)"

definition same_outside :: "uintptr set \<Rightarrow> 'a node_store \<Rightarrow> 'a node_store \<Rightarrow> bool" where
  "same_outside A N N' \<longleftrightarrow> (\<forall>z. z \<notin> A \<longrightarrow> N' z = N z) \<and> same_data N N'"

lemma same_outside_trans: "same_outside A N N' \<Longrightarrow> same_outside A N' N'' \<Longrightarrow> same_outside A N N''"
  unfolding same_outside_def using same_data_trans by metis

text \<open>Cutting a leaf off, or putting one in: the child pointer of the step above the hole.\<close>

lemma path_replace:
  assumes "path_at N rt a c" and "distinct (lefts c @ rights c)" and "c \<noteq> []"
  shows "\<exists>n. N (above c) = Some n \<and>
    (\<forall>x r d. c = InLeft x r # d \<longrightarrow> lnk_left n = a \<and> path_at (N(above c \<mapsto> n\<lparr>lnk_left := b\<rparr>)) rt b c) \<and>
    (\<forall>l x d. c = InRight l x # d \<longrightarrow> lnk_right n = a \<and> lnk_left n = root_of l \<and> path_at (N(above c \<mapsto> n\<lparr>lnk_right := b\<rparr>)) rt b c)"
proof (cases c rule: above.cases)
  case (2 x r d)
  then obtain n where n: "N x = Some n" "x \<noteq> 0" "lnk_left n = a" "lnk_parent n = above d"
    "tree_at N x (lnk_right n) r" "path_at N rt x d" using assms(1) by (auto split: option.splits)
  have "x \<notin> path_nodes d" "x \<notin> set_tree r" using assms(2) 2 set_lefts_rights [of d] by auto
  then have "path_at (N(x \<mapsto> n\<lparr>lnk_left := b\<rparr>)) rt x d = path_at N rt x d"
    "tree_at (N(x \<mapsto> n\<lparr>lnk_left := b\<rparr>)) x e r = tree_at N x e r" for e
    by (intro path_at_cong tree_at_cong; auto)+
  then show ?thesis using n 2 by simp
next
  case (3 l x d)
  then obtain n where n: "N x = Some n" "x \<noteq> 0" "lnk_right n = a" "lnk_parent n = above d"
    "tree_at N x (lnk_left n) l" "path_at N rt x d" using assms(1) by (auto split: option.splits)
  have "x \<notin> path_nodes d" "x \<notin> set_tree l" using assms(2) 3 set_lefts_rights [of d] by auto
  then have "path_at (N(x \<mapsto> n\<lparr>lnk_right := b\<rparr>)) rt x d = path_at N rt x d"
    "tree_at (N(x \<mapsto> n\<lparr>lnk_right := b\<rparr>)) x e l = tree_at N x e l" for e
    by (intro path_at_cong tree_at_cong; auto)+
  then show ?thesis using n 3 tree_at_root [OF n(5)] by simp
qed (use assms(3) in simp)

end
