(* ===== verification/Machine.thy ===== *)
theory Machine
  imports Prelude
begin

text \<open>
  The process the allocator runs in: its byte memory and the system calls it makes.

  The operating system is not part of the repository: the record \<open>os\<close> holds what its calls
  answer, a function of the number of system calls made so far, and every definition that makes
  a call takes it as an argument. What the code relies on is stated as the hypothesis
  \<open>mmap_fresh\<close>: an anonymous mapping is a page-aligned region that overlaps no mapping
  another call returned. Memory is a partial map from addresses to bytes; an address outside
  every mapping is \<open>None\<close>, and reading or writing it is the fault that ends the program.
\<close>

unbundle bit_operations_syntax

record os =
  os_mmap :: "nat \<Rightarrow> int \<Rightarrow> nat + uintptr"
  os_reserve :: "nat \<Rightarrow> uintptr \<Rightarrow> uintptr \<Rightarrow> uintptr \<times> nat"
  os_map_fixed :: "nat \<Rightarrow> uintptr \<Rightarrow> uintptr \<Rightarrow> uintptr \<times> nat"
  os_munmap :: "nat \<Rightarrow> uintptr \<Rightarrow> uintptr \<Rightarrow> nat"
  os_windows :: bool
  os_solaris :: bool

record machine =
  mem :: "uintptr \<Rightarrow> uint8 option"
  calls :: nat

text \<open>A fresh anonymous mapping reads as zero.\<close>

definition map_zero :: "(uintptr \<Rightarrow> uint8 option) \<Rightarrow> uintptr \<Rightarrow> uintptr \<Rightarrow> uintptr \<Rightarrow> uint8 option" where
  "map_zero m a n = (\<lambda>x. if x - a < n then Some 0 else m x)"

definition unmap :: "(uintptr \<Rightarrow> uint8 option) \<Rightarrow> uintptr \<Rightarrow> uintptr \<Rightarrow> uintptr \<Rightarrow> uint8 option" where
  "unmap m a n = (\<lambda>x. if x - a < n then None else m x)"

text \<open>Little-endian loads and stores of 32 bits.\<close>

definition load32 :: "(uintptr \<Rightarrow> uint8 option) \<Rightarrow> uintptr \<Rightarrow> uint32 option" where
  "load32 m a = do {
     b0 \<leftarrow> m a;
     b1 \<leftarrow> m (a + 1);
     b2 \<leftarrow> m (a + 2);
     b3 \<leftarrow> m (a + 3);
     Some (ucast b0 OR push_bit 8 (ucast b1) OR push_bit 16 (ucast b2) OR push_bit 24 (ucast b3))
   }"

definition store32 :: "(uintptr \<Rightarrow> uint8 option) \<Rightarrow> uintptr \<Rightarrow> uint32 \<Rightarrow> (uintptr \<Rightarrow> uint8 option) option" where
  "store32 m a v = do {
     _ \<leftarrow> load32 m a;
     Some (m(a \<mapsto> ucast v, a + 1 \<mapsto> ucast (drop_bit 8 v),
             a + 2 \<mapsto> ucast (drop_bit 16 v), a + 3 \<mapsto> ucast (drop_bit 24 v)))
   }"

text \<open>The contract of an anonymous \<open>mmap\<close>.\<close>

definition mmap_fresh :: "os \<Rightarrow> bool" where
  "mmap_fresh os \<longleftrightarrow>
     (\<forall>i n a. os_mmap os i n = Inr a \<longrightarrow>
        0 < n \<and> a \<noteq> 0 \<and> 4096 dvd unat a \<and> unat a + nat n \<le> 2 ^ 47) \<and>
     (\<forall>i j n k a b. i \<noteq> j \<and> os_mmap os i n = Inr a \<and> os_mmap os j k = Inr b \<longrightarrow>
        blk a (of_int n) \<inter> blk b (of_int k) = {})"

text \<open>A concrete operating system: ten mappings, the \<open>i\<close>-th at \<open>(i + 1) * 2 ^ 30\<close>.\<close>

definition demo_os :: os where
  "demo_os = \<lparr>
     os_mmap = (\<lambda>i n. if i < 10 \<and> 0 < n \<and> n \<le> 2 ^ 30 then Inr (word_of_nat ((i + 1) * 2 ^ 30)) else Inl 12),
     os_reserve = (\<lambda>i a n. (if a = 0 then 2 ^ 40 else a, 0)),
     os_map_fixed = (\<lambda>i a n. (a, 0)),
     os_munmap = (\<lambda>i a n. 0),
     os_windows = False,
     os_solaris = False\<rparr>"

subsection \<open>Lemmas\<close>

lemma diff_less_iff_blk:
  assumes "unat a + unat n \<le> 2 ^ 64"
  shows "x - a < (n :: uintptr) \<longleftrightarrow> x \<in> blk a n"
proof (cases "unat a \<le> unat x")
  case True
  then show ?thesis by (simp add: word_less_nat_alt unat_sub_noof) arith
next
  case False
  then have "unat (x - a) = 2 ^ 64 + unat x - unat a" by (simp add: unat_sub_if')
  then show ?thesis using False assms by (simp add: word_less_nat_alt)
qed

lemma map_zero_blk:
  "unat a + unat n \<le> 2 ^ 64 \<Longrightarrow> map_zero m a n x = (if x \<in> blk a n then Some 0 else m x)"
  by (simp add: map_zero_def diff_less_iff_blk del: mem_blk)

lemma map_zero_dom: "dom m \<subseteq> dom (map_zero m a n)"
  by (auto simp: map_zero_def)

lemma mmap_freshD:
  assumes "mmap_fresh os" and "os_mmap os i n = Inr a"
  shows "0 < n" "a \<noteq> 0" "4096 dvd unat a" "unat a + nat n \<le> 2 ^ 47"
  using assms unfolding mmap_fresh_def by blast+

lemma mmap_fresh_disjoint:
  assumes "mmap_fresh os" and "os_mmap os i n = Inr a" and "os_mmap os j k = Inr b" and "i \<noteq> j"
  shows "blk a (of_int n) \<inter> blk b (of_int k) = {}"
  using assms unfolding mmap_fresh_def by blast

lemma demo_os_addr: "i < 10 \<Longrightarrow> unat (word_of_nat ((i + 1) * 2 ^ 30) :: uintptr) = (i + 1) * 2 ^ 30"
  by (simp add: unat_of_nat del: of_nat_mult of_nat_add of_nat_Suc)

lemma demo_os_mmap:
  "os_mmap demo_os i n = Inr a \<longleftrightarrow> i < 10 \<and> 0 < n \<and> n \<le> 2 ^ 30 \<and> a = word_of_nat ((i + 1) * 2 ^ 30)"
  by (auto simp: demo_os_def)

lemma demo_os_fresh: "mmap_fresh demo_os"
  unfolding mmap_fresh_def
proof (intro conjI allI impI)
  fix i n a assume "os_mmap demo_os i n = Inr a"
  then have *: "i < 10" "0 < n" "n \<le> 2 ^ 30" "unat a = (i + 1) * 2 ^ 30"
    unfolding demo_os_mmap using demo_os_addr [of i] by blast+
  show "0 < n" by (rule *)
  show "a \<noteq> 0" using *(4) by auto
  show "4096 dvd unat a" unfolding *(4) by simp
  have "(i + 1) * 2 ^ 30 \<le> 10 * (2 ^ 30 :: nat)" using *(1) by (intro mult_le_mono1) simp
  moreover have "nat n \<le> 2 ^ 30" using *(3) by simp
  ultimately show "unat a + nat n \<le> 2 ^ 47" unfolding *(4) by simp
next
  fix i j n k a b
  assume "i \<noteq> j \<and> os_mmap demo_os i n = Inr a \<and> os_mmap demo_os j k = Inr b"
  then have *: "i \<noteq> j" "0 < n" "n \<le> 2 ^ 30" "unat a = (i + 1) * 2 ^ 30"
    "0 < k" "k \<le> 2 ^ 30" "unat b = (j + 1) * 2 ^ 30"
    unfolding demo_os_mmap using demo_os_addr [of i] demo_os_addr [of j] by blast+
  have len: "unat (of_int m :: uintptr) \<le> 2 ^ 30" if "0 < m" "m \<le> 2 ^ 30" for m
  proof -
    have "(of_int m :: uintptr) = of_nat (nat m)" using that(1) by simp
    then have "unat (of_int m :: uintptr) = nat m mod 2 ^ 64" by (simp only: unat_of_nat) simp
    also have "\<dots> \<le> nat m" by simp
    finally show ?thesis using that(2) by simp
  qed
  have "i + 1 \<le> j \<or> j + 1 \<le> i" using *(1) by arith
  then have "unat a + 2 ^ 30 \<le> unat b \<or> unat b + 2 ^ 30 \<le> unat a" unfolding *(4,7) by auto
  then show "blk a (of_int n) \<inter> blk b (of_int k) = {}"
    using len [OF *(2,3)] len [OF *(5,6)] by (intro blk_disjointI) linarith
qed

end
