(* ===== verification/Common.thy ===== *)
theory Common
  imports Prelude
begin

text \<open>
  The arithmetic of common.go: rounding addresses up to an alignment, counting trailing zeroes
  with a de Bruijn sequence, and the table of bit counts of a byte.
\<close>

unbundle bit_operations_syntax

subsection \<open>Definitions\<close>

definition Align :: "uintptr \<Rightarrow> uintptr \<Rightarrow> uintptr" where
  "Align x a =
     (if a < 1 then x
      else let y = x + a - 1 in y - y mod a)"

definition round_up :: "uintptr \<Rightarrow> uintptr \<Rightarrow> uintptr" where
  "round_up n a = (n + a - 1) AND NOT (a - 1)"

definition deBruijn64 :: uint64 where
  "deBruijn64 = 0x0218a392cd3d5dbf"

definition deBruijnIdx64 :: "uint8 list" where
  "deBruijnIdx64 =
    [0, 1, 2, 7, 3, 13, 8, 19,
     4, 25, 14, 28, 9, 34, 20, 40,
     5, 17, 26, 38, 15, 46, 29, 48,
     10, 31, 35, 54, 21, 50, 41, 57,
     63, 6, 12, 18, 24, 27, 33, 39,
     16, 37, 45, 47, 30, 53, 49, 56,
     62, 11, 23, 32, 36, 44, 52, 55,
     61, 22, 43, 51, 60, 42, 59, 58]"

definition Ctz64 :: "uint64 \<Rightarrow> int" where
  "Ctz64 x0 =
     (let x = x0 AND - x0;
          y = drop_bit 58 (x * deBruijn64);
          i = uint (deBruijnIdx64 ! unat y);
          z = uint (drop_bit 57 (x - 1) AND 64)
      in i + z)"

definition oneBitCount :: "uint8 list" where
  "oneBitCount =
    [0, 1, 1, 2, 1, 2, 2, 3,
     1, 2, 2, 3, 2, 3, 3, 4,
     1, 2, 2, 3, 2, 3, 3, 4,
     2, 3, 3, 4, 3, 4, 4, 5,
     1, 2, 2, 3, 2, 3, 3, 4,
     2, 3, 3, 4, 3, 4, 4, 5,
     2, 3, 3, 4, 3, 4, 4, 5,
     3, 4, 4, 5, 4, 5, 5, 6,
     1, 2, 2, 3, 2, 3, 3, 4,
     2, 3, 3, 4, 3, 4, 4, 5,
     2, 3, 3, 4, 3, 4, 4, 5,
     3, 4, 4, 5, 4, 5, 5, 6,
     2, 3, 3, 4, 3, 4, 4, 5,
     3, 4, 4, 5, 4, 5, 5, 6,
     3, 4, 4, 5, 4, 5, 5, 6,
     4, 5, 5, 6, 5, 6, 6, 7,
     1, 2, 2, 3, 2, 3, 3, 4,
     2, 3, 3, 4, 3, 4, 4, 5,
     2, 3, 3, 4, 3, 4, 4, 5,
     3, 4, 4, 5, 4, 5, 5, 6,
     2, 3, 3, 4, 3, 4, 4, 5,
     3, 4, 4, 5, 4, 5, 5, 6,
     3, 4, 4, 5, 4, 5, 5, 6,
     4, 5, 5, 6, 5, 6, 6, 7,
     2, 3, 3, 4, 3, 4, 4, 5,
     3, 4, 4, 5, 4, 5, 5, 6,
     3, 4, 4, 5, 4, 5, 5, 6,
     4, 5, 5, 6, 5, 6, 6, 7,
     3, 4, 4, 5, 4, 5, 5, 6,
     4, 5, 5, 6, 5, 6, 6, 7,
     4, 5, 5, 6, 5, 6, 6, 7,
     5, 6, 6, 7, 6, 7, 7, 8]"

subsection \<open>Rounding\<close>

lemma Align_unat:
  assumes "0 < a" and "unat x + unat a \<le> 2 ^ 64"
  shows "unat (Align x a) = (unat x + unat a - 1) div unat a * unat a"
proof -
  have a: "0 < unat a" using assms(1) by (simp add: word_less_nat_alt)
  then have na: "\<not> a < 1" by (simp add: word_less_nat_alt)
  have y: "unat (x + a - 1) = unat x + unat a - 1"
  proof (cases "unat x + unat a = 2 ^ 64")
    case True
    then have "x + a = 0" by (simp add: unat_eq_zero [symmetric] unat_word_ariths)
    then show ?thesis using True by (simp add: unsigned_minus_1_eq_mask mask_eq_exp_minus_1)
  next
    case False
    then have "unat (x + a) = unat x + unat a" using assms(2) by (simp add: unat_add_noof)
    then show ?thesis using a by (simp add: unat_sub_noof)
  qed
  have "unat ((x + a - 1) - (x + a - 1) mod a) = unat (x + a - 1) - unat (x + a - 1) mod unat a"
    by (simp add: unat_sub_noof unat_mod)
  then show ?thesis using na by (simp add: Align_def Let_def y minus_mod_eq_div_mult)
qed
lemma and_not_mask64: "x AND NOT (2 ^ k - 1) = x - x mod (2 ^ k :: uint64)"
proof -
  have "x AND NOT (mask k) = push_bit k (drop_bit k x)"
    by (rule bit_word_eqI) (auto simp: bit_and_iff bit_not_iff bit_mask_iff bit_push_bit_iff bit_drop_bit_eq)
  then show ?thesis
    by (simp add: mask_eq_exp_minus_1 push_bit_eq_mult drop_bit_eq_div minus_mod_eq_div_mult)
qed

lemma unat_exp64:
  assumes "k < 64"
  shows "unat (2 ^ k :: uintptr) = 2 ^ k"
proof -
  have "(2::nat) ^ k < 2 ^ 64" by (simp only: power_strict_increasing_iff assms)
  then have "unat (of_nat (2 ^ k) :: uintptr) = 2 ^ k" by (simp add: unat_of_nat del: of_nat_power)
  then show ?thesis by simp
qed

lemma exp_ge_one: "k < 64 \<Longrightarrow> \<not> (2 ^ k :: uint64) < 1"
  by (simp add: word_less_nat_alt unat_exp64)

lemma round_up_Align: "k < 64 \<Longrightarrow> round_up n (2 ^ k) = Align n (2 ^ k)"
  by (simp add: round_up_def Align_def Let_def and_not_mask64 exp_ge_one)

lemma round_up_unat:
  assumes "k < 64" and "unat n + 2 ^ k \<le> 2 ^ 64"
  shows "unat (round_up n (2 ^ k)) = (unat n + 2 ^ k - 1) div 2 ^ k * 2 ^ k"
  using Align_unat [of "2 ^ k" n] assms by (simp add: round_up_Align word_less_nat_alt unat_exp64)

lemma ceil_mult_ge: "0 < a \<Longrightarrow> x \<le> (x + a - 1) div a * (a :: nat)"
  using mod_less_divisor [of a "x + a - 1"] div_mult_mod_eq [of "x + a - 1" a] by linarith

lemma ceil_mult_lt: "0 < a \<Longrightarrow> (x + a - 1) div a * a < x + (a :: nat)"
  using div_times_less_eq_dividend [of "x + a - 1" a] by linarith

lemma ceil_mult_least:
  assumes "0 < a" and "a dvd y" and "x \<le> y"
  shows "(x + a - 1) div a * a \<le> (y :: nat)"
proof -
  obtain q where q: "y = q * a" using assms(2) by (metis dvdE mult.commute)
  then have "x + a - 1 < (q + 1) * a" using assms by simp
  then have "(x + a - 1) div a < q + 1" by (rule less_mult_imp_div_less)
  then show ?thesis by (simp add: q)
qed

subsection \<open>Trailing zeroes\<close>

lemma deBruijn_index_bound: "unat (drop_bit 58 (x :: uint64)) < 64"
proof -
  have "unat x div 2 ^ 58 < 64" using unat_lt64 [of x] by (simp add: less_mult_imp_div_less)
  then show ?thesis by (simp add: drop_bit_eq_div unat_div)
qed

lemma push_bit_minus_word: "push_bit k (- y) = - push_bit k (y :: uint64)"
  by (simp add: push_bit_eq_mult)

lemma odd_isolate: "odd (y::uint64) \<Longrightarrow> y AND - y = 1"
proof (rule bit_word_eqI)
  fix n assume o: "odd y" and "n < LENGTH(64)"
  have "bit (- y) n = bit (NOT (y - 1)) n" by (simp add: minus_eq_not_minus_1)
  moreover have "2 * (y div 2) + 1 = y"
    using o by (metis mult.commute odd_iff_mod_2_eq_one word_mod_div_equality)
  then have "y - 1 = 2 * (y div 2)" by (metis add_diff_cancel_right')
  ultimately have neg: "bit (- y) n = bit (NOT (2 * (y div 2))) n" by simp
  have dbl: "bit (2 * (y div 2)) n = (0 < n \<and> bit y n)"
    using \<open>n < LENGTH(64)\<close> by (cases n; simp add: bit_double_iff flip: bit_Suc)
  show "bit (y AND - y) n \<longleftrightarrow> bit (1::uint64) n"
    unfolding bit_and_iff neg bit_not_iff dbl bit_1_iff
    using o \<open>n < LENGTH(64)\<close> by (cases "n = 0") (simp_all add: bit_0)
qed

lemma word_odd_part:
  assumes "(x::uint64) \<noteq> 0"
  obtains k y where "k < 64" "x = push_bit k y" "odd y"
proof -
  obtain n where n: "bit x n" using assms unfolding bit_eq_iff by auto
  define k where "k = (LEAST n. bit x n)"
  have bk: "bit x k" unfolding k_def using n by (rule LeastI)
  have low: "\<not> bit x m" if "m < k" for m using that not_less_Least unfolding k_def by blast
  have k: "k < 64" using bit_imp_le_length [OF bk] by simp
  have "x = push_bit k (drop_bit k x)"
  proof (rule bit_word_eqI)
    fix m assume m: "m < LENGTH(64)"
    show "bit x m = bit (push_bit k (drop_bit k x)) m"
    proof (cases "k \<le> m")
      case True
      then show ?thesis using m by (simp add: bit_push_bit_iff bit_drop_bit_eq)
    next
      case False
      then show ?thesis using low [of m] by (simp add: bit_push_bit_iff)
    qed
  qed
  moreover have "odd (drop_bit k x)" using bk by (simp add: bit_drop_bit_eq flip: bit_0)
  ultimately show ?thesis using k that by blast
qed

text \<open>The table agrees with the de Bruijn sequence on every power of two.\<close>

lemma deBruijn_table:
  "list_all (\<lambda>k. uint (deBruijnIdx64 ! unat (drop_bit 58 (2 ^ k * deBruijn64))) = int k
     \<and> drop_bit 57 ((2::uint64) ^ k - 1) AND 64 = 0) [0..<64]"
  by (simp add: deBruijnIdx64_def deBruijn64_def upt_rec)

lemma isolate_lowest: "odd y \<Longrightarrow> push_bit k y AND - push_bit k y = (2 ^ k :: uint64)"
  by (simp add: odd_isolate push_bit_of_1 flip: push_bit_minus_word push_bit_and)

lemma Ctz64_push_bit:
  assumes "k < 64" and "odd y"
  shows "Ctz64 (push_bit k y) = int k"
proof -
  have "k \<in> set [0..<64]" using assms(1) by simp
  then show ?thesis using deBruijn_table
    by (simp add: Ctz64_def Let_def isolate_lowest assms(2) list_all_iff del: set_upt)
qed

lemma Ctz64_zero [simp]: "Ctz64 0 = 64"
  by (simp add: Ctz64_def deBruijnIdx64_def mask_eq_exp_minus_1)

lemma Ctz64_nonzero:
  assumes "x \<noteq> 0"
  shows "0 \<le> Ctz64 x" and "Ctz64 x < 64" and "bit x (nat (Ctz64 x))"
    and "j < nat (Ctz64 x) \<Longrightarrow> \<not> bit x j"
proof -
  obtain k y where "k < 64" "x = push_bit k y" "odd y" using assms by (rule word_odd_part)
  then show "0 \<le> Ctz64 x" and "Ctz64 x < 64" and "bit x (nat (Ctz64 x))"
    and "j < nat (Ctz64 x) \<Longrightarrow> \<not> bit x j"
    by (simp_all add: Ctz64_push_bit bit_push_bit_iff flip: bit_0)
qed

lemma Ctz64_eq_64_iff: "Ctz64 x = 64 \<longleftrightarrow> x = 0"
  using Ctz64_nonzero(2) [of x] by (cases "x = 0") auto

subsection \<open>Bit counts\<close>

text \<open>The number of ones among the low \<open>n\<close> bits, computed by halving.\<close>

fun bitsum :: "nat \<Rightarrow> nat \<Rightarrow> nat" where
  "bitsum 0 b = 0"
| "bitsum (Suc n) b = b mod 2 + bitsum n (b div 2)"

lemma bitsum_numeral: "bitsum (numeral n) b = b mod 2 + bitsum (pred_numeral n) (b div 2)"
  by (simp add: numeral_eq_Suc)

lemma bitsum_card: "bitsum n b = card {i. i < n \<and> bit b i}"
proof (induction n arbitrary: b)
  case (Suc n)
  have "{i. i < Suc n \<and> bit b i} = {i. i = 0 \<and> bit b 0} \<union> Suc ` {i. i < n \<and> bit (b div 2) i}"
    (is "_ = ?z \<union> ?s") by (auto simp: less_Suc_eq_0_disj bit_Suc image_iff bit_0)
  moreover have "card (?z \<union> ?s) = card ?z + card ?s" by (rule card_Un_disjoint) auto
  moreover have "card ?z = b mod 2" by (cases "odd b") (simp_all add: bit_0 odd_iff_mod_2_eq_one)
  moreover have "card ?s = bitsum n (b div 2)" by (simp add: Suc.IH card_image)
  ultimately show ?case by simp
qed simp

lemma oneBitCount_bitsum: "map (bitsum 8) [0..<256] = map unat oneBitCount"
  by (simp add: upt_rec oneBitCount_def bitsum_numeral)

lemma length_oneBitCount: "length oneBitCount = 256"
  by (simp add: oneBitCount_def)

lemma oneBitCount_correct: "unat (oneBitCount ! unat b) = card {i. i < 8 \<and> bit (b :: uint8) i}"
proof -
  have lt: "unat b < 256" using unsigned_less [of b] by simp
  have "unat (oneBitCount ! unat b) = map unat oneBitCount ! unat b"
    using lt by (simp add: length_oneBitCount)
  also have "\<dots> = bitsum 8 (unat b)"
    using lt by (simp flip: oneBitCount_bitsum)
  also have "\<dots> = card {i. i < 8 \<and> bit b i}"
    by (simp add: bitsum_card bit_unsigned_iff)
  finally show ?thesis .
qed

subsection \<open>Properties\<close>

text \<open>
  C39: Ctz64 counts trailing zeroes: 64 for zero, otherwise the index of the lowest set bit.
\<close>
theorem Ctz64_correct:
  "if x = 0 then Ctz64 x = 64
   else 0 \<le> Ctz64 x \<and> Ctz64 x < 64 \<and> bit x (nat (Ctz64 x)) \<and> {j. j < nat (Ctz64 x) \<and> bit x j} = {}"
  using Ctz64_nonzero [of x] by (cases "x = 0") auto

text \<open>Align returns the smallest multiple of its second argument that is not below the first, when the addition does not wrap around the address space.\<close>

lemma Align_least:
  assumes "0 < a" and "unat x + unat a \<le> 2 ^ 64"
  shows "unat x \<le> unat (Align x a) \<and> unat a dvd unat (Align x a)
    \<and> (\<forall>z. unat x \<le> z \<and> unat a dvd z \<longrightarrow> unat (Align x a) \<le> z)"
proof -
  have "0 < unat a" using assms(1) by (simp add: word_less_nat_alt)
  then show ?thesis
    using Align_unat [OF assms] by (simp add: ceil_mult_ge ceil_mult_least del: One_nat_def)
qed

end
