(* ===== verification/SizeClass.thy ===== *)
theory SizeClass
  imports Common
begin

text \<open>
  metadata.go: the constants of the memory layout and the tables of the 67 size classes, and the
  three pieces of arithmetic that read the tables: the class of a request
  (\<open>xSpanPool.Alloc\<close>), the number of pages of a span of a class
  (\<open>xClassSpan.allocSpan\<close>), and the index of an object in its span by a multiplication
  instead of a division (\<open>xSpan.objIndex\<close>).
\<close>

unbundle bit_operations_syntax

subsection \<open>Constants\<close>

text \<open>The layout constants of metadata.go. The leading underscores of the source are dropped.\<close>

abbreviation PageShift :: nat where "PageShift \<equiv> 12"

abbreviation PageSize :: uintptr where "PageSize \<equiv> 4096"

abbreviation logHeapRawMemoryBytes :: nat where "logHeapRawMemoryBytes \<equiv> 28"

abbreviation heapRawMemoryBytes :: uintptr where "heapRawMemoryBytes \<equiv> 0x10000000"

abbreviation pagesPerRawMemory :: uintptr where "pagesPerRawMemory \<equiv> 65536"

abbreviation RawMemoryBaseOffset :: uintptr where "RawMemoryBaseOffset \<equiv> 0x800000000000"

abbreviation MaxSmallSize :: uintptr where "MaxSmallSize \<equiv> 32768"

abbreviation smallSizeDiv :: uintptr where "smallSizeDiv \<equiv> 8"

abbreviation smallSizeMax :: uintptr where "smallSizeMax \<equiv> 1024"

abbreviation largeSizeDiv :: uintptr where "largeSizeDiv \<equiv> 128"

abbreviation NumSizeClasses :: nat where "NumSizeClasses \<equiv> 67"

subsection \<open>Tables\<close>

definition class_to_size :: "uint16 list" where
  "class_to_size =
    [0, 8, 16, 32, 48, 64, 80, 96, 112, 128, 144, 160, 176, 192, 208, 224, 240, 256, 288, 320,
     352, 384, 416, 448, 480, 512, 576, 640, 704, 768, 896, 1024, 1152, 1280, 1408, 1536, 1792,
     2048, 2304, 2688, 3072, 3200, 3456, 4096, 4864, 5376, 6144, 6528, 6784, 6912, 8192, 9472,
     9728, 10240, 10880, 12288, 13568, 14336, 16384, 18432, 19072, 20480, 21760, 24576, 27264,
     28672, 32768]"

definition class_to_allocnpages :: "uint8 list" where
  "class_to_allocnpages =
    [0, 1, 1, 1, 1, 1, 1, 1, 1, 1, 1, 1, 1, 1, 1, 1, 1, 1, 1, 1, 1, 1, 1, 1, 1, 1, 1, 1, 1, 1,
     1, 1, 1, 1, 2, 1, 2, 1, 2, 1, 3, 2, 3, 1, 3, 2, 3, 4, 5, 6, 1, 7, 6, 5, 4, 3, 5, 7, 2, 9,
     7, 5, 8, 3, 10, 7, 4]"

record divMagic =
  shift :: uint8
  shift2 :: uint8
  mul :: uint16
  baseMask :: uint16

definition divMagicOf :: "uint8 \<Rightarrow> uint8 \<Rightarrow> uint16 \<Rightarrow> uint16 \<Rightarrow> divMagic" where
  "divMagicOf s s2 m b = \<lparr>shift = s, shift2 = s2, mul = m, baseMask = b\<rparr>"

definition class_to_divmagic :: "divMagic list" where
  "class_to_divmagic =
    [divMagicOf 0 0 0 0, divMagicOf 3 0 1 65528, divMagicOf 4 0 1 65520, divMagicOf 5 0 1 65504,
     divMagicOf 4 9 171 0, divMagicOf 6 0 1 65472, divMagicOf 4 10 205 0, divMagicOf 5 9 171 0,
     divMagicOf 4 11 293 0, divMagicOf 7 0 1 65408, divMagicOf 4 9 57 0, divMagicOf 5 10 205 0,
     divMagicOf 4 12 373 0, divMagicOf 6 7 43 0, divMagicOf 4 13 631 0, divMagicOf 5 11 293 0,
     divMagicOf 4 13 547 0, divMagicOf 8 0 1 65280, divMagicOf 5 9 57 0, divMagicOf 6 9 103 0,
     divMagicOf 5 12 373 0, divMagicOf 7 7 43 0, divMagicOf 5 10 79 0, divMagicOf 6 10 147 0,
     divMagicOf 5 11 137 0, divMagicOf 9 0 1 65024, divMagicOf 6 9 57 0, divMagicOf 7 6 13 0,
     divMagicOf 6 11 187 0, divMagicOf 8 5 11 0, divMagicOf 7 8 37 0, divMagicOf 10 0 1 64512,
     divMagicOf 7 9 57 0, divMagicOf 8 6 13 0, divMagicOf 7 11 187 0, divMagicOf 9 5 11 0,
     divMagicOf 8 8 37 0, divMagicOf 11 0 1 63488, divMagicOf 8 9 57 0, divMagicOf 7 10 49 0,
     divMagicOf 10 5 11 0, divMagicOf 7 10 41 0, divMagicOf 7 9 19 0, divMagicOf 12 0 1 61440,
     divMagicOf 8 9 27 0, divMagicOf 8 10 49 0, divMagicOf 11 5 11 0, divMagicOf 7 13 161 0,
     divMagicOf 7 13 155 0, divMagicOf 8 9 19 0, divMagicOf 13 0 1 57344, divMagicOf 8 12 111 0,
     divMagicOf 9 9 27 0, divMagicOf 11 6 13 0, divMagicOf 7 14 193 0, divMagicOf 12 3 3 0,
     divMagicOf 8 13 155 0, divMagicOf 11 8 37 0, divMagicOf 14 0 1 49152, divMagicOf 11 8 29 0,
     divMagicOf 7 13 55 0, divMagicOf 12 5 7 0, divMagicOf 8 14 193 0, divMagicOf 13 3 3 0,
     divMagicOf 7 14 77 0, divMagicOf 12 7 19 0, divMagicOf 15 0 1 32768]"

definition size_to_class8 :: "uint8 list" where
  "size_to_class8 =
    [0, 1, 2, 3, 3, 4, 4, 5, 5, 6, 6, 7, 7, 8, 8, 9, 9, 10, 10, 11, 11, 12, 12, 13, 13, 14, 14,
     15, 15, 16, 16, 17, 17, 18, 18, 18, 18, 19, 19, 19, 19, 20, 20, 20, 20, 21, 21, 21, 21, 22,
     22, 22, 22, 23, 23, 23, 23, 24, 24, 24, 24, 25, 25, 25, 25, 26, 26, 26, 26, 26, 26, 26, 26,
     27, 27, 27, 27, 27, 27, 27, 27, 28, 28, 28, 28, 28, 28, 28, 28, 29, 29, 29, 29, 29, 29, 29,
     29, 30, 30, 30, 30, 30, 30, 30, 30, 30, 30, 30, 30, 30, 30, 30, 30, 31, 31, 31, 31, 31, 31,
     31, 31, 31, 31, 31, 31, 31, 31, 31, 31]"

definition size_to_class128 :: "uint8 list" where
  "size_to_class128 =
    [31, 32, 33, 34, 35, 36, 36, 37, 37, 38, 38, 39, 39, 39, 40, 40, 40, 41, 42, 42, 43, 43, 43,
     43, 43, 44, 44, 44, 44, 44, 44, 45, 45, 45, 45, 46, 46, 46, 46, 46, 46, 47, 47, 47, 48, 48,
     49, 50, 50, 50, 50, 50, 50, 50, 50, 50, 50, 51, 51, 51, 51, 51, 51, 51, 51, 51, 51, 52, 52,
     53, 53, 53, 53, 54, 54, 54, 54, 54, 55, 55, 55, 55, 55, 55, 55, 55, 55, 55, 55, 56, 56, 56,
     56, 56, 56, 56, 56, 56, 56, 57, 57, 57, 57, 57, 57, 58, 58, 58, 58, 58, 58, 58, 58, 58, 58,
     58, 58, 58, 58, 58, 58, 59, 59, 59, 59, 59, 59, 59, 59, 59, 59, 59, 59, 59, 59, 59, 59, 60,
     60, 60, 60, 60, 61, 61, 61, 61, 61, 61, 61, 61, 61, 61, 61, 62, 62, 62, 62, 62, 62, 62, 62,
     62, 62, 63, 63, 63, 63, 63, 63, 63, 63, 63, 63, 63, 63, 63, 63, 63, 63, 63, 63, 63, 63, 63,
     63, 64, 64, 64, 64, 64, 64, 64, 64, 64, 64, 64, 64, 64, 64, 64, 64, 64, 64, 64, 64, 64, 65,
     65, 65, 65, 65, 65, 65, 65, 65, 65, 65, 66, 66, 66, 66, 66, 66, 66, 66, 66, 66, 66, 66, 66,
     66, 66, 66, 66, 66, 66, 66, 66, 66, 66, 66, 66, 66, 66, 66, 66, 66, 66, 66]"

subsection \<open>Arithmetic on the tables\<close>

text \<open>The class of a small request, as \<open>xSpanPool.Alloc\<close> computes it.\<close>

definition size_class :: "uintptr \<Rightarrow> uint8" where
  "size_class sz =
     (if sz \<le> smallSizeMax - 8
      then size_to_class8 ! unat ((sz + smallSizeDiv - 1) div smallSizeDiv)
      else size_to_class128 ! unat ((sz - smallSizeMax + largeSizeDiv - 1) div largeSizeDiv))"

text \<open>
  The number of pages of a span of class \<open>index\<close>, as \<open>xClassSpan.allocSpan\<close> computes
  it, truncated to 8 bits.
\<close>

definition class_pages :: "nat \<Rightarrow> uint8" where
  "class_pages index =
     (let pageNum = class_to_allocnpages ! index;
          sz = class_to_size ! index
      in ucast (Align (Align (ucast sz) PageSize div PageSize) (ucast pageNum)))"

text \<open>\<open>xSpan.objIndex\<close> past its test for a zero offset, on the magic numbers of a class.\<close>

definition div_magic :: "divMagic \<Rightarrow> uintptr \<Rightarrow> uintptr" where
  "div_magic m byteOffset =
     (if baseMask m \<noteq> 0
      then drop_bit (unat (shift m)) byteOffset
      else drop_bit (unat (shift2 m)) (drop_bit (unat (shift m)) byteOffset * ucast (mul m)))"

subsection \<open>Checks of the tables\<close>

abbreviation class_size :: "nat \<Rightarrow> nat" where
  "class_size c \<equiv> unat (class_to_size ! c)"

text \<open>
  A table that maps the \<open>i\<close>-th step of width \<open>d\<close> to a class: the class holds every
  size of the step, and the class before it holds none.
\<close>

fun table_ok :: "nat \<Rightarrow> nat \<Rightarrow> nat list \<Rightarrow> bool" where
  "table_ok d b [] = True"
| "table_ok d b (c # cs) =
     (c < 67 \<and> b \<le> map unat class_to_size ! c \<and>
      (0 < c \<longrightarrow> map unat class_to_size ! (c - 1) + d \<le> b) \<and> (c = 0 \<longrightarrow> b = 0) \<and> table_ok d (b + d) cs)"

text \<open>
  The magic numbers of a class: its size is \<open>d * 2 ^ s\<close>, and the multiplication divides
  exactly by \<open>d\<close> for every offset inside a span.
\<close>

definition magic_ok :: "nat \<Rightarrow> nat \<Rightarrow> divMagic \<Rightarrow> bool" where
  "magic_ok sz pages m \<longleftrightarrow>
    (let s = unat (shift m); s2 = unat (shift2 m); d = sz div 2 ^ s; u = unat (mul m) in
     sz = d * 2 ^ s \<and>
     (if baseMask m \<noteq> 0 then d = 1
      else 2 ^ s2 \<le> u * d \<and> (pages * 4096 div 2 ^ s) * (u * d - 2 ^ s2) < 2 ^ s2
        \<and> (pages * 4096 div 2 ^ s) * u < 2 ^ 64))"

subsection \<open>The class of a request\<close>

lemma class_to_size_nat:
  "map unat class_to_size = [0, 8, 16, 32, 48, 64, 80, 96, 112, 128, 144, 160, 176, 192, 208, 224, 240, 256, 288,
     320, 352, 384, 416, 448, 480, 512, 576, 640, 704, 768, 896, 1024, 1152, 1280, 1408, 1536,
     1792, 2048, 2304, 2688, 3072, 3200, 3456, 4096, 4864, 5376, 6144, 6528, 6784, 6912, 8192,
     9472, 9728, 10240, 10880, 12288, 13568, 14336, 16384, 18432, 19072, 20480, 21760, 24576,
     27264, 28672, 32768]"
  by (simp add: class_to_size_def)

lemma length_tables [simp]:
  "length class_to_size = 67" "length class_to_allocnpages = 67" "length class_to_divmagic = 67"
  "length size_to_class8 = 129" "length size_to_class128 = 249"
  by (simp_all add: class_to_size_def class_to_allocnpages_def class_to_divmagic_def
      size_to_class8_def size_to_class128_def)

lemma class_size_nat: "c < 67 \<Longrightarrow> map unat class_to_size ! c = class_size c"
  by simp

lemma size_to_class8_ok: "table_ok 8 0 (map unat size_to_class8)"
  by (simp add: size_to_class8_def class_to_size_nat)

lemma size_to_class128_ok: "table_ok 128 1024 (map unat size_to_class128)"
  by (simp add: size_to_class128_def class_to_size_nat)

lemma table_ok_nth:
  assumes "table_ok d b cs" and "i < length cs" and "cs ! i = c"
  shows "c < 67 \<and> b + i * d \<le> class_size c \<and> (0 < c \<longrightarrow> class_size (c - 1) + d \<le> b + i * d)
    \<and> (c = 0 \<longrightarrow> b + i * d = 0)"
  using assms
proof (induction cs arbitrary: b i)
  case (Cons x cs)
  show ?case
  proof (cases i)
    case 0
    then show ?thesis using Cons.prems by auto
  next
    case (Suc j)
    then show ?thesis using Cons.IH [of "b + d" j] Cons.prems by (auto simp: algebra_simps)
  qed
qed simp

lemma size_class_bounds:
  assumes "0 < n" and "n \<le> 32768" and n: "unat s = n"
  defines "c \<equiv> unat (size_class s)"
  shows "0 < c \<and> c < 67 \<and> class_size (c - 1) < n \<and> n \<le> class_size c"
proof (cases "n \<le> 1016")
  case True
  define i where "i = (n + 7) div 8"
  have i: "i < 129" "n \<le> i * 8" "i * 8 < n + 8" using True by (auto simp: i_def)
  have "unat ((s + 8 - 1) div 8) = i"
    using True n by (simp add: unat_div unat_add_noof i_def flip: add_diff_eq)
  then have "size_class s = size_to_class8 ! i"
    using True n by (simp add: size_class_def word_le_nat_alt)
  then have "map unat size_to_class8 ! i = c" using i(1) by (simp add: c_def)
  from table_ok_nth [OF size_to_class8_ok _ this] i assms(1) show ?thesis by auto
next
  case False
  define i where "i = (n - 897) div 128"
  have i: "i < 249" "n \<le> 1024 + i * 128" "i * 128 + 896 < n" using False assms(2) by (auto simp: i_def)
  have "s - 1024 + 128 - 1 = s - 897" by simp
  moreover have "unat (s - 897) = n - 897" using False n by (simp add: unat_sub_noof)
  ultimately have "unat ((s - 1024 + 128 - 1) div 128) = i"
    by (simp only: unat_div) (simp add: i_def)
  then have "size_class s = size_to_class128 ! i"
    using False n by (simp add: size_class_def word_le_nat_alt)
  then have "map unat size_to_class128 ! i = c" using i(1) by (simp add: c_def)
  from table_ok_nth [OF size_to_class128_ok _ this] i show ?thesis by auto
qed

lemma class_size_strict: "i < j \<Longrightarrow> j < 67 \<Longrightarrow> class_size i < class_size j"
proof -
  have "sorted_wrt (<) (map unat class_to_size)" by (simp add: class_to_size_nat)
  then show "i < j \<Longrightarrow> j < 67 \<Longrightarrow> class_size i < class_size j"
    by (auto dest: sorted_wrt_nth_less [where i = i and j = j])
qed

lemma class_size_mono: "i \<le> j \<Longrightarrow> j < 67 \<Longrightarrow> class_size i \<le> class_size j"
  using class_size_strict [of i j] by (cases "i = j") auto

lemma class_size_le_max: "c < 67 \<Longrightarrow> class_size c \<le> 32768"
  using class_size_strict [of c 66] by (cases "c = 66") (auto simp: class_to_size_def)

lemma size_class_of_class:
  assumes "0 < c" and "c < 67"
  shows "unat (size_class (ucast (class_to_size ! c))) = c"
proof -
  note u = unat_ucast_16_64 [of "class_to_size ! c"]
  have "0 < class_size c" using class_size_strict [of 0 c] assms by simp
  then have b: "0 < c'" "c' < 67" "class_size (c' - 1) < class_size c" "class_size c \<le> class_size c'"
    if "c' = unat (size_class (ucast (class_to_size ! c)))" for c'
    using size_class_bounds [OF _ class_size_le_max u] assms that by auto
  let ?c = "unat (size_class (ucast (class_to_size ! c)))"
  have "\<not> ?c < c" using b(4) [OF refl] class_size_strict [of ?c c] assms by auto
  moreover have "\<not> c < ?c"
  proof
    assume "c < ?c"
    then have "c \<le> ?c - 1" and "?c - 1 < 67" using b(2) [OF refl] by simp_all
    then have "class_size c \<le> class_size (?c - 1)" by (rule class_size_mono)
    then show False using b(3) [OF refl] by simp
  qed
  ultimately show ?thesis by simp
qed

subsection \<open>Spans of a class\<close>

lemma class_pages_nat:
  "map (\<lambda>c. unat (class_pages c)) [0..<67] =
    [0, 1, 1, 1, 1, 1, 1, 1, 1, 1, 1, 1, 1, 1, 1, 1, 1, 1, 1, 1, 1, 1, 1, 1, 1, 1, 1, 1, 1, 1, 1,
     1, 1, 1, 2, 1, 2, 1, 2, 1, 3, 2, 3, 1, 3, 2, 3, 4, 5, 6, 2, 7, 6, 5, 4, 3, 5, 7, 4, 9, 7, 5,
     8, 6, 10, 7, 8]"
  by (simp add: upt_rec class_pages_def class_to_size_def class_to_allocnpages_def Align_def)

lemma class_to_divmagic_ok:
  "list_all2 (\<lambda>(sz, pages) m. magic_ok sz pages m)
    (tl (zip (map unat class_to_size) (map (\<lambda>c. unat (class_pages c)) [0..<67]))) (tl class_to_divmagic)"
  by (simp only: class_pages_nat class_to_size_nat)
     (simp add: class_to_divmagic_def magic_ok_def divMagicOf_def)

lemma magic_ok_nth:
  assumes "0 < c" and "c < 67"
  shows "magic_ok (class_size c) (unat (class_pages c)) (class_to_divmagic ! c)"
proof -
  have "c - 1 < length (tl class_to_divmagic)" using assms by simp
  from list_all2_nthD2 [OF class_to_divmagic_ok this] show ?thesis
    using assms by (simp add: nth_tl)
qed

lemma div_magic_correct:
  assumes "0 < c" and "c < 67" and off: "unat off < unat (class_pages c) * 4096"
  shows "unat (div_magic (class_to_divmagic ! c) off) = unat off div class_size c"
proof -
  define m where "m = class_to_divmagic ! c"
  define s where "s = unat (shift m)"
  define s2 where "s2 = unat (shift2 m)"
  define u where "u = unat (mul m)"
  define d where "d = class_size c div 2 ^ s"
  define n where "n = unat off div 2 ^ s"
  define N where "N = unat (class_pages c) * 4096 div 2 ^ s"
  have ok: "class_size c = d * 2 ^ s"
    "baseMask m \<noteq> 0 \<Longrightarrow> d = 1"
    "baseMask m = 0 \<Longrightarrow> 2 ^ s2 \<le> u * d \<and> N * (u * d - 2 ^ s2) < 2 ^ s2 \<and> N * u < 2 ^ 64"
    using magic_ok_nth [OF assms(1,2)]
    by (auto simp: magic_ok_def Let_def m_def s_def s2_def u_def d_def N_def split: if_splits)
  have d: "0 < d" using ok(1) class_size_strict [of 0 c] assms(1,2) by (cases d) auto
  have nN: "n \<le> N" unfolding n_def N_def using off by (intro div_le_mono) simp
  have q: "unat off div class_size c = n div d"
    by (simp add: n_def ok(1) div_mult2_eq mult.commute [of d])
  show ?thesis
  proof (cases "baseMask m = 0")
    case True
    then have b: "2 ^ s2 \<le> u * d" "N * (u * d - 2 ^ s2) < 2 ^ s2" "N * u < 2 ^ 64" using ok(3) by auto
    have "n * u < 2 ^ 64" using mult_le_mono1 [OF nN, of u] b(3) by linarith
    then have "unat (drop_bit s off * ucast (mul m)) = n * u"
      by (simp add: unat_mult_noof unat_drop_bit64 unat_ucast_16_64 n_def u_def)
    moreover have "n * (u * d - 2 ^ s2) < 2 ^ s2"
      using mult_le_mono1 [OF nN] b(2) by (rule le_less_trans)
    then have "n * u div 2 ^ s2 = n div d"
      using b(1) d by (intro mult_shift_div [where e = "u * d - 2 ^ s2"]) auto
    ultimately show ?thesis using True
      by (simp add: div_magic_def m_def [symmetric] s_def [symmetric] s2_def [symmetric] unat_drop_bit64 q)
  next
    case False
    then show ?thesis using ok(2)
      by (simp add: div_magic_def m_def [symmetric] s_def [symmetric] unat_drop_bit64 q n_def)
  qed
qed

lemma Align_page:
  "unat x \<le> 2 ^ 60 \<Longrightarrow> unat (Align x PageSize) = (unat x + 4095) div 4096 * 4096"
  using Align_unat [of PageSize x] by (simp add: word_less_nat_alt)

lemma class_size_le_span:
  assumes "0 < c" and "c < 67"
  shows "0 < class_size c \<and> class_size c \<le> unat (class_pages c) * 4096"
proof -
  have "list_all2 (\<lambda>n p. 0 < n \<and> n \<le> p * 4096) (tl (map unat class_to_size))
      (tl (map (\<lambda>c. unat (class_pages c)) [0..<67]))"
    by (simp only: class_pages_nat class_to_size_nat) simp
  from list_all2_nthD [OF this, of "c - 1"] show ?thesis using assms by (simp add: nth_tl)
qed

lemma class_pages_le: "c < 67 \<Longrightarrow> unat (class_pages c) \<le> 10"
proof -
  assume c: "c < 67"
  have "\<forall>p \<in> set (map (\<lambda>c. unat (class_pages c)) [0..<67]). p \<le> 10"
    by (simp only: class_pages_nat) simp
  then show ?thesis using c by simp
qed

subsection \<open>Properties\<close>

text \<open>
  C30: A request of at most MaxSmallSize bytes gets a size class that holds it, and the class
  before it does not: the tables of metadata.go, indexed by rounded-up wrapping arithmetic,
  pick the best fit.
\<close>
theorem size_class_best_fit:
  assumes "0 < sz" and "sz \<le> MaxSmallSize"
  shows "0 < unat (size_class sz) \<and> unat (size_class sz) < NumSizeClasses
    \<and> unat (class_to_size ! (unat (size_class sz) - 1)) < unat sz
    \<and> unat sz \<le> unat (class_to_size ! unat (size_class sz))"
  using size_class_bounds [OF _ _ refl, of sz] assms by (simp add: word_less_nat_alt word_le_nat_alt)

theorem size_class_best_fit_witness:
  "unat (class_to_size ! (unat (size_class 1020) - 1)) < 1020
    \<and> 1020 \<le> unat (class_to_size ! unat (size_class 1020))"
  using size_class_best_fit [of 1020] by simp

text \<open>For every address inside the objects of a span of a size class the multiply-and-shift of objIndex gives the index of the object it lies in.\<close>

lemma div_magic_object:
  assumes "0 < c" and "c < NumSizeClasses"
    and "(i + 1) * unat (class_to_size ! c) \<le> unat (class_pages c) * 4096"
    and "r < unat (class_to_size ! c)"
    and "unat off = i * unat (class_to_size ! c) + r"
  shows "unat (div_magic (class_to_divmagic ! c) off) = i"
proof -
  have "unat off < unat (class_pages c) * 4096" using assms(3-5) by simp
  from div_magic_correct [OF assms(1,2) this] show ?thesis using assms(4,5) by simp
qed

end
