(* ===== verification/Blocks.thy ===== *)
theory Blocks
  imports Prelude
begin

text \<open>
  The interface of every layer that hands out memory: a step takes a valid request and a state
  and returns a block or an error. A layer promises that a block it returns was not in use and is in
  use afterwards; what a client wants, that all blocks of a run are disjoint, follows once for
  all layers.
\<close>

text \<open>
  Serve a list of requests up to the first error: the blocks handed out, and the state they
  were handed out in last. \<open>None\<close> is a panic.
\<close>

fun alloc_run ::
  "('r \<Rightarrow> 's \<Rightarrow> ((goerr + uintptr \<times> uintptr) \<times> 's) option) \<Rightarrow> 'r list \<Rightarrow> 's
    \<Rightarrow> ((uintptr \<times> uintptr) list \<times> 's) option" where
  "alloc_run step [] s = Some ([], s)"
| "alloc_run step (r # rs) s =
     (case step r s of
        None \<Rightarrow> None
      | Some (Inl e, s') \<Rightarrow> Some ([], s)
      | Some (Inr b, s') \<Rightarrow>
          (case alloc_run step rs s' of
             None \<Rightarrow> None
           | Some (bs, s'') \<Rightarrow> Some (b # bs, s'')))"

locale fresh_blocks =
  fixes valid :: "'r \<Rightarrow> bool"
    and step :: "'r \<Rightarrow> 's \<Rightarrow> ((goerr + uintptr \<times> uintptr) \<times> 's) option"
    and inv :: "'s \<Rightarrow> bool"
    and used :: "'s \<Rightarrow> uintptr set"
  assumes step_safe: "valid r \<Longrightarrow> inv s \<Longrightarrow> step r s \<noteq> None"
    and step_inv: "valid r \<Longrightarrow> inv s \<Longrightarrow> step r s = Some (Inr b, s') \<Longrightarrow> inv s'"
    and step_fresh: "valid r \<Longrightarrow> inv s \<Longrightarrow> step r s = Some (Inr b, s') \<Longrightarrow> blk (fst b) (snd b) \<inter> used s = {}"
    and step_used: "valid r \<Longrightarrow> inv s \<Longrightarrow> step r s = Some (Inr b, s') \<Longrightarrow>
      used s \<union> blk (fst b) (snd b) \<subseteq> used s'"
begin

lemma run_safe: "list_all valid rs \<Longrightarrow> inv s \<Longrightarrow> alloc_run step rs s \<noteq> None"
proof (induction rs arbitrary: s)
  case (Cons r rs)
  then have r: "valid r" by simp
  show ?case
  proof (cases "step r s")
    case None
    then show ?thesis using step_safe [OF r Cons.prems(2)] by simp
  next
    case (Some p)
    then show ?thesis
      using Cons step_inv [OF r Cons.prems(2)] by (cases p) (fastforce split: sum.splits option.splits)
  qed
qed simp

text \<open>A run either stops at its first request, or takes a first step and goes on.\<close>

lemma run_Cons:
  assumes "alloc_run step (r # rs) s = Some (bs, s')"
  obtains (stop) "bs = []" "s' = s"
  | (go) b s1 bs' where "step r s = Some (Inr b, s1)" "alloc_run step rs s1 = Some (bs', s')" "bs = b # bs'"
  using assms by (auto split: option.splits sum.splits prod.splits)

lemma run_used:
  "list_all valid rs \<Longrightarrow> inv s \<Longrightarrow> alloc_run step rs s = Some (bs, s') \<Longrightarrow>
    inv s' \<and> used s \<subseteq> used s' \<and> (\<forall>b \<in> set bs. blk (fst b) (snd b) \<subseteq> used s')"
proof (induction rs arbitrary: s bs)
  case (Cons r rs)
  then have r: "valid r" by simp
  from Cons.prems(3) show ?case
  proof (cases rule: run_Cons)
    case (go b s1 bs')
    then show ?thesis
      using Cons.IH [OF _ step_inv [OF r Cons.prems(2) go(1)] go(2)] Cons.prems(1) step_used [OF r Cons.prems(2) go(1)]
      by auto
  qed (use Cons.prems(2) in simp)
qed auto

lemma run_fresh:
  "list_all valid rs \<Longrightarrow> inv s \<Longrightarrow> alloc_run step rs s = Some (bs, s') \<Longrightarrow>
    disjoint_blocks bs \<and> (\<forall>b \<in> set bs. blk (fst b) (snd b) \<inter> used s = {})"
proof (induction rs arbitrary: s bs)
  case (Cons r rs)
  then have r: "valid r" by simp
  from Cons.prems(3) show ?case
  proof (cases rule: run_Cons)
    case (go b s1 bs')
    have "disjoint_blocks bs' \<and> (\<forall>b \<in> set bs'. blk (fst b) (snd b) \<inter> used s1 = {})"
      using Cons.IH [OF _ step_inv [OF r Cons.prems(2) go(1)] go(2)] Cons.prems(1) by simp
    then show ?thesis
      using step_used [OF r Cons.prems(2) go(1)] step_fresh [OF r Cons.prems(2) go(1)] go(3) by fastforce
  qed simp
qed simp

end

end
