(* ===== verification/RawMemory.thy ===== *)
theory RawMemory
  imports Machine SizeClass Blocks
begin

text \<open>
  raw\_memory.go: regions obtained with \<open>mmap\<close>, and the pool that carves the allocator's own
  metadata out of them (\<open>xRawMemoryPool\<close>). The pool's list of regions, linked by
  \<open>next\<close> and only ever extended at its head, is a list; \<open>pool_index\<close> is the offset of the
  next free byte in the head region. The mutex is not modelled: \<open>alloc\<close> holds it for its whole
  body.
\<close>

subsection \<open>Definitions\<close>

abbreviation metadataRawMemoryBytes :: uintptr where "metadataRawMemoryBytes \<equiv> 0x10000000"

record xRawMemory =
  xrm_addr :: uintptr
  xrm_down :: bool
  xrm_len :: int

record mem_block =
  blk_addr :: uintptr
  blk_len :: uintptr
  blk_end :: uintptr

record raw_pool = machine +
  pool_frees :: "mem_block list"
  pool_xrm :: "xRawMemory list"
  pool_index :: uintptr

definition newXRawMemory ::
  "os \<Rightarrow> int \<Rightarrow> 'a machine_scheme \<Rightarrow> (goerr + xRawMemory) \<times> 'a machine_scheme" where
  "newXRawMemory os byteNum s =
     (case os_mmap os (calls s) byteNum of
        Inl e \<Rightarrow> (Inl (ErrErrno e), s\<lparr>calls := calls s + 1\<rparr>)
      | Inr ptr \<Rightarrow>
          (Inr \<lparr>xrm_addr = ptr, xrm_down = False, xrm_len = byteNum\<rparr>,
           s\<lparr>mem := map_zero (mem s) ptr (of_int byteNum), calls := calls s + 1\<rparr>))"

definition xrm_Close :: "os \<Rightarrow> xRawMemory \<Rightarrow> 'a machine_scheme \<Rightarrow> (goerr + unit) \<times> 'a machine_scheme" where
  "xrm_Close os xrm s =
     (let e = os_munmap os (calls s) (xrm_addr xrm) (of_int (xrm_len xrm))
      in if e \<noteq> 0 then (Inl (ErrErrno e), s\<lparr>calls := calls s + 1\<rparr>)
         else (Inr (), s\<lparr>mem := unmap (mem s) (xrm_addr xrm) (of_int (xrm_len xrm)), calls := calls s + 1\<rparr>))"

definition alignOf :: "uintptr \<Rightarrow> 'a raw_pool_scheme \<Rightarrow> (goerr + uintptr) \<times> 'a raw_pool_scheme" where
  "alignOf sz s =
     (if sz > metadataRawMemoryBytes then (Inl ErrSizeOverPool, s)
      else
        let offset = pool_index s mod metadataRawMemoryBytes;
            offset = (if PageSize - offset mod PageSize < sz then Align offset PageSize else offset);
            s1 = s\<lparr>pool_index := offset + sz\<rparr>
        in if pool_index s1 > metadataRawMemoryBytes
           then (Inr 0, s1\<lparr>pool_index := sz\<rparr>)
           else (Inr offset, s1))"

text \<open>
  \<open>alloc\<close>: a zero offset asks for a new region. The last line dereferences \<open>xrmp.xrm\<close>,
  which is nil when no region was ever mapped.
\<close>

definition pool_alloc ::
  "os \<Rightarrow> uintptr \<Rightarrow> 'a raw_pool_scheme \<Rightarrow> ((goerr + uintptr) \<times> 'a raw_pool_scheme) option" where
  "pool_alloc os byteSize s =
     (case alignOf byteSize s of
        (Inl err, s1) \<Rightarrow> Some (Inl err, s1)
      | (Inr offset, s1) \<Rightarrow>
          (case (if offset = 0
                 then (case newXRawMemory os (uint metadataRawMemoryBytes) s1 of
                         (Inl err, s2) \<Rightarrow> (Inl err, s2)
                       | (Inr xrm, s2) \<Rightarrow> (Inr (), s2\<lparr>pool_xrm := xrm # pool_xrm s2\<rparr>))
                 else (Inr (), s1)) of
             (Inl err, s3) \<Rightarrow> Some (Inl err, s3)
           | (Inr _, s3) \<Rightarrow>
               (case pool_xrm s3 of
                  [] \<Rightarrow> None
                | xrm # _ \<Rightarrow> Some (Inr (xrm_addr xrm + offset), s3))))"

definition pool_release :: "mem_block \<Rightarrow> 'a raw_pool_scheme \<Rightarrow> 'a raw_pool_scheme" where
  "pool_release b s = s\<lparr>pool_frees := pool_frees s @ [b]\<rparr>"

definition pool_grow :: "os \<Rightarrow> 'a raw_pool_scheme \<Rightarrow> (goerr + unit) \<times> 'a raw_pool_scheme" where
  "pool_grow os s =
     (case newXRawMemory os (uint metadataRawMemoryBytes) s of
        (Inl err, s1) \<Rightarrow> (Inl err, s1)
      | (Inr xrm, s1) \<Rightarrow> (Inr (), s1\<lparr>pool_xrm := xrm # pool_xrm s1\<rparr>))"

text \<open>One round of the compare-and-swap loop of \<open>freeOffset\<close>, whose swap nobody disturbs.\<close>

definition freeOffset_pool :: "uintptr \<Rightarrow> 'a raw_pool_scheme \<Rightarrow> (goerr + uintptr) \<times> 'a raw_pool_scheme" where
  "freeOffset_pool sz s =
     (if sz > metadataRawMemoryBytes then (Inl ErrSizeOver, s)
      else
        let oldVal = pool_index s;
            offset = oldVal mod metadataRawMemoryBytes;
            offset = (if PageSize - offset mod PageSize < sz then Align offset PageSize else offset);
            index = offset + sz;
            (index, offset) = (if index > metadataRawMemoryBytes then (sz, 0) else (index, offset))
        in (Inr offset, s\<lparr>pool_index := index\<rparr>))"

definition pool_init :: raw_pool where
  "pool_init = \<lparr>mem = Map.empty, calls = 0, pool_frees = [], pool_xrm = [], pool_index = 0\<rparr>"

text \<open>The pool as a layer that hands out blocks: the request is the size.\<close>

definition pool_step ::
  "os \<Rightarrow> uintptr \<Rightarrow> 'a raw_pool_scheme \<Rightarrow> ((goerr + uintptr \<times> uintptr) \<times> 'a raw_pool_scheme) option" where
  "pool_step os sz s =
     (case pool_alloc os sz s of
        None \<Rightarrow> None
      | Some (Inl e, s') \<Rightarrow> Some (Inl e, s')
      | Some (Inr p, s') \<Rightarrow> Some (Inr (p, sz), s'))"

subsection \<open>The invariant of the pool\<close>

text \<open>
  The region an entry of the list stands for, and the addresses in use: every old region, and
  the head region up to \<open>pool_index\<close>.
\<close>

definition region :: "xRawMemory \<Rightarrow> uintptr set" where
  "region x = blk (xrm_addr x) metadataRawMemoryBytes"

definition pool_used :: "'a raw_pool_scheme \<Rightarrow> uintptr set" where
  "pool_used s =
     (case pool_xrm s of
        [] \<Rightarrow> {}
      | x # xs \<Rightarrow> blk (xrm_addr x) (pool_index s) \<union> (\<Union>y \<in> set xs. region y))"

definition xrm_ok :: "xRawMemory \<Rightarrow> bool" where
  "xrm_ok x \<longleftrightarrow> xrm_addr x \<noteq> 0 \<and> 4096 dvd unat (xrm_addr x) \<and> unat (xrm_addr x) + 2 ^ 28 \<le> 2 ^ 47"

definition pool_inv :: "os \<Rightarrow> 'a raw_pool_scheme \<Rightarrow> bool" where
  "pool_inv os s \<longleftrightarrow>
     mmap_fresh os \<and>
     pool_index s \<le> metadataRawMemoryBytes \<and>
     (pool_xrm s = [] \<longrightarrow> pool_index s mod metadataRawMemoryBytes = 0) \<and>
     (\<forall>x \<in> set (pool_xrm s). xrm_ok x \<and> region x \<subseteq> dom (mem s) \<and>
        (\<exists>i < calls s. os_mmap os i (uint metadataRawMemoryBytes) = Inr (xrm_addr x))) \<and>
     (\<forall>i j. i < length (pool_xrm s) \<and> j < length (pool_xrm s) \<and> i \<noteq> j \<longrightarrow>
        region (pool_xrm s ! i) \<inter> region (pool_xrm s ! j) = {})"

subsection \<open>Offsets\<close>

lemma alignOf_cases:
  assumes sz: "sz \<le> metadataRawMemoryBytes" and ix: "pool_index s \<le> metadataRawMemoryBytes"
  obtains off where "alignOf sz s = (Inr off, s\<lparr>pool_index := off + sz\<rparr>)"
    "unat off + unat sz \<le> 2 ^ 28"
    "off \<noteq> 0 \<Longrightarrow> pool_index s mod metadataRawMemoryBytes \<noteq> 0 \<and> unat (pool_index s) \<le> unat off"
    "unat sz \<le> 4096 \<Longrightarrow> unat off mod 4096 + unat sz \<le> 4096"
proof -
  define o0 where "o0 = pool_index s mod metadataRawMemoryBytes"
  define o1 where "o1 = (if PageSize - o0 mod PageSize < sz then Align o0 PageSize else o0)"
  define off where "off = (if o1 + sz > metadataRawMemoryBytes then 0 else o1)"
  have uix: "unat (pool_index s) \<le> 2 ^ 28" and usz: "unat sz \<le> 2 ^ 28"
    using ix sz by (simp_all add: word_le_nat_alt)
  have uo0: "unat o0 = unat (pool_index s) mod 2 ^ 28" by (simp add: o0_def unat_mod)
  then have o0lt: "unat o0 < 2 ^ 28" by simp
  have ual: "unat (Align o0 PageSize) = (unat o0 + 4095) div 4096 * 4096"
    using o0lt by (intro Align_page) simp
  have room: "unat (PageSize - o0 mod PageSize) = 4096 - unat o0 mod 4096"
    by (simp add: unat_sub_noof unat_mod)
  have uo1: "unat o1 = (if 4096 - unat o0 mod 4096 < unat sz then (unat o0 + 4095) div 4096 * 4096 else unat o0)"
    by (simp add: o1_def word_less_nat_alt room ual)
  have o1le: "unat o0 \<le> unat o1" "unat o1 \<le> 2 ^ 28"
    using o0lt by (auto simp: uo1)
  have add: "unat (o1 + sz) = unat o1 + unat sz"
    using o1le usz by (intro unat_add_noof) simp
  have "alignOf sz s = (Inr off, s\<lparr>pool_index := off + sz\<rparr>)"
    using sz by (auto simp: alignOf_def Let_def off_def o1_def o0_def not_less)
  moreover have "unat off + unat sz \<le> 2 ^ 28"
    using add usz by (auto simp: off_def word_less_nat_alt)
  moreover have "pool_index s mod metadataRawMemoryBytes \<noteq> 0 \<and> unat (pool_index s) \<le> unat off"
    if "off \<noteq> 0"
  proof -
    have oo: "off = o1" using that by (auto simp: off_def split: if_splits)
    have "unat o1 \<noteq> 0" using that oo by (simp add: unat_eq_zero)
    then have "unat o0 \<noteq> 0" using uo1 by (auto split: if_splits)
    then have "o0 \<noteq> 0" by auto
    then show ?thesis using oo o1le(1) uo0 uix \<open>unat o0 \<noteq> 0\<close> by (cases "unat (pool_index s) = 2 ^ 28") (auto simp: o0_def)
  qed
  moreover have "unat off mod 4096 + unat sz \<le> 4096" if "unat sz \<le> 4096"
    using that by (auto simp: off_def uo1)
  ultimately show ?thesis by (rule that)
qed

lemma pool_alloc_cases:
  assumes inv: "pool_inv os s" and sz: "sz \<le> metadataRawMemoryBytes"
  obtains
    (fail) e s' where "pool_alloc os sz s = Some (Inl (ErrErrno e), s')"
      "os_mmap os (calls s) (2 ^ 28) = Inl e"
  | (fresh) p where "os_mmap os (calls s) (2 ^ 28) = Inr p"
      "pool_alloc os sz s = Some (Inr p, s\<lparr>pool_index := sz, calls := calls s + 1,
         mem := map_zero (mem s) p metadataRawMemoryBytes,
         pool_xrm := \<lparr>xrm_addr = p, xrm_down = False, xrm_len = 2 ^ 28\<rparr> # pool_xrm s\<rparr>)"
  | (bump) x xs off where "pool_xrm s = x # xs"
      "pool_alloc os sz s = Some (Inr (xrm_addr x + off), s\<lparr>pool_index := off + sz\<rparr>)"
      "unat (pool_index s) \<le> unat off" "unat off + unat sz \<le> 2 ^ 28"
      "unat sz \<le> 4096 \<Longrightarrow> unat off mod 4096 + unat sz \<le> 4096"
proof -
  have "pool_index s \<le> metadataRawMemoryBytes" using inv by (simp add: pool_inv_def)
  from alignOf_cases [OF sz this] obtain off where a: "alignOf sz s = (Inr off, s\<lparr>pool_index := off + sz\<rparr>)"
    "unat off + unat sz \<le> 2 ^ 28"
    "off \<noteq> 0 \<Longrightarrow> pool_index s mod metadataRawMemoryBytes \<noteq> 0 \<and> unat (pool_index s) \<le> unat off"
    "unat sz \<le> 4096 \<Longrightarrow> unat off mod 4096 + unat sz \<le> 4096" by metis
  show ?thesis
  proof (cases "off = 0")
    case True
    show ?thesis
    proof (cases "os_mmap os (calls s) (2 ^ 28)")
      case (Inl e)
      then show ?thesis using True a(1) by (intro fail) (auto simp: pool_alloc_def newXRawMemory_def)
    next
      case (Inr p)
      then show ?thesis using True a(1) by (intro fresh [OF Inr]) (simp add: pool_alloc_def newXRawMemory_def)
    qed
  next
    case False
    then obtain x xs where "pool_xrm s = x # xs"
      using a(3) inv by (cases "pool_xrm s") (auto simp: pool_inv_def)
    then show ?thesis using False a by (intro bump [of x xs off]) (auto simp: pool_alloc_def)
  qed
qed

lemma region_unat: "xrm_ok x \<Longrightarrow> y \<in> region x \<longleftrightarrow> unat (xrm_addr x) \<le> unat y \<and> unat y < unat (xrm_addr x) + 2 ^ 28"
  by (simp add: region_def)

lemma pool_used_regions: "pool_inv os s \<Longrightarrow> pool_used s \<subseteq> (\<Union>x \<in> set (pool_xrm s). region x)"
  by (cases "pool_xrm s") (auto simp: pool_used_def pool_inv_def region_def word_le_nat_alt)

lemma pool_alloc_oversize: "\<not> sz \<le> metadataRawMemoryBytes \<Longrightarrow> pool_alloc os sz s = Some (Inl ErrSizeOverPool, s)"
  by (simp add: pool_alloc_def alignOf_def not_le)

text \<open>A region a later call of mmap returns overlaps no region of the pool.\<close>

lemma pool_new_region:
  assumes inv: "pool_inv os s" and p: "os_mmap os (calls s) (2 ^ 28) = Inr p"
    and x: "x \<in> set (pool_xrm s)"
  shows "blk p metadataRawMemoryBytes \<inter> region x = {}"
proof -
  obtain i where "i < calls s" "os_mmap os i (2 ^ 28) = Inr (xrm_addr x)"
    using inv x by (auto simp: pool_inv_def)
  then have "blk p (of_int (2 ^ 28)) \<inter> blk (xrm_addr x) (of_int (2 ^ 28)) = {}"
    using inv p by (intro mmap_fresh_disjoint [of os "calls s" _ _ i]) (auto simp: pool_inv_def)
  then show ?thesis by (simp add: region_def)
qed

lemma pool_inv_regions_disjoint:
  "pool_inv os s \<Longrightarrow> pool_xrm s = x # xs \<Longrightarrow> y \<in> set xs \<Longrightarrow> region x \<inter> region y = {}"
proof -
  assume inv: "pool_inv os s" and e: "pool_xrm s = x # xs" and "y \<in> set xs"
  then obtain j where "j < length xs" "y = xs ! j" by (auto simp: in_set_conv_nth)
  moreover have "0 < length (pool_xrm s) \<and> Suc j < length (pool_xrm s) \<and> 0 \<noteq> Suc j \<longrightarrow>
      region (pool_xrm s ! 0) \<inter> region (pool_xrm s ! Suc j) = {}" for j
    using inv unfolding pool_inv_def by blast
  ultimately show ?thesis by (simp add: e)
qed

lemma pool_inv_fresh:
  assumes inv: "pool_inv os s" and p: "os_mmap os (calls s) (2 ^ 28) = Inr p"
    and sz: "sz \<le> metadataRawMemoryBytes"
  defines "s' \<equiv> s\<lparr>pool_index := sz, calls := calls s + 1,
         mem := map_zero (mem s) p metadataRawMemoryBytes,
         pool_xrm := \<lparr>xrm_addr = p, xrm_down = False, xrm_len = 2 ^ 28\<rparr> # pool_xrm s\<rparr>"
  shows "pool_inv os s'"
proof -
  let ?x = "\<lparr>xrm_addr = p, xrm_down = False, xrm_len = 2 ^ 28\<rparr>"
  have fr: "mmap_fresh os" using inv by (simp add: pool_inv_def)
  have np: "p \<noteq> 0" "4096 dvd unat p" "unat p + 2 ^ 28 \<le> 2 ^ 47" using mmap_freshD [OF fr p] by simp_all
  have xok: "xrm_ok ?x" using np by (simp add: xrm_ok_def)
  have dom: "region ?x \<subseteq> dom (mem s')" using np(3)
    by (auto simp: region_def s'_def map_zero_blk simp del: mem_blk)
  have old: "xrm_ok x \<and> region x \<subseteq> dom (mem s') \<and>
      (\<exists>i < calls s'. os_mmap os i (uint metadataRawMemoryBytes) = Inr (xrm_addr x))"
    if "x \<in> set (pool_xrm s)" for x
    using inv that map_zero_dom [of "mem s" p metadataRawMemoryBytes]
    by (fastforce simp: pool_inv_def s'_def less_Suc_eq)
  have new: "xrm_ok ?x \<and> region ?x \<subseteq> dom (mem s') \<and>
      (\<exists>i < calls s'. os_mmap os i (uint metadataRawMemoryBytes) = Inr (xrm_addr ?x))"
    using xok dom p by (auto simp: s'_def)
  have "region (pool_xrm s' ! i) \<inter> region (pool_xrm s' ! j) = {}"
    if "i < length (pool_xrm s')" "j < length (pool_xrm s')" "i \<noteq> j" for i j
  proof -
    have d: "region ?x \<inter> region (pool_xrm s ! k) = {}" if "k < length (pool_xrm s)" for k
      using pool_new_region [OF inv p nth_mem [OF that]] by (simp add: region_def)
    have e: "region (pool_xrm s ! k) \<inter> region (pool_xrm s ! l) = {}"
      if "k < length (pool_xrm s)" "l < length (pool_xrm s)" "k \<noteq> l" for k l
      using inv that unfolding pool_inv_def by blast
    show ?thesis using that d e by (cases i; cases j) (simp_all add: s'_def Int_commute)
  qed
  moreover have "pool_xrm s' = ?x # pool_xrm s" "pool_index s' = sz" by (simp_all add: s'_def)
  ultimately show ?thesis using old new fr sz unfolding pool_inv_def by simp
qed

lemma pool_inv_bump:
  assumes inv: "pool_inv os s" and "pool_xrm s = x # xs" and "unat off + unat sz \<le> 2 ^ 28"
  shows "pool_inv os (s\<lparr>pool_index := off + sz\<rparr>)"
  using assms by (auto simp: pool_inv_def word_le_nat_alt unat_add_noof)

lemma pool_alloc_sound:
  assumes inv: "pool_inv os s" and st: "pool_alloc os sz s = Some (Inr p, s')"
  shows "pool_inv os s'" and "blk p sz \<inter> pool_used s = {}" and "pool_used s \<union> blk p sz \<subseteq> pool_used s'"
    and "blk p sz \<subseteq> dom (mem s')" and "p \<noteq> 0" and "unat p + unat sz \<le> 2 ^ 47"
    and "unat sz \<le> 4096 \<Longrightarrow> unat p mod 4096 + unat sz \<le> 4096"
    and "dom (mem s) \<subseteq> dom (mem s')"
proof -
  have sz: "sz \<le> metadataRawMemoryBytes" using st by (rule contrapos_pp) (simp add: pool_alloc_oversize)
  have fr: "mmap_fresh os" using inv by (simp add: pool_inv_def)
  have "pool_inv os s' \<and> blk p sz \<inter> pool_used s = {} \<and> pool_used s \<union> blk p sz \<subseteq> pool_used s'
     \<and> blk p sz \<subseteq> dom (mem s') \<and> p \<noteq> 0 \<and> unat p + unat sz \<le> 2 ^ 47
     \<and> (unat sz \<le> 4096 \<longrightarrow> unat p mod 4096 + unat sz \<le> 4096) \<and> dom (mem s) \<subseteq> dom (mem s')"
    using inv sz
  proof (cases rule: pool_alloc_cases)
    case (fail e t)
    then show ?thesis using st by simp
  next
    case (fresh q)
    note np = mmap_freshD [OF fr fresh(1)]
    have pq: "p = q" "s' = s\<lparr>pool_index := sz, calls := calls s + 1,
         mem := map_zero (mem s) p metadataRawMemoryBytes,
         pool_xrm := \<lparr>xrm_addr = p, xrm_down = False, xrm_len = 2 ^ 28\<rparr> # pool_xrm s\<rparr>"
      using st fresh(2) by auto
    have sub: "blk p sz \<subseteq> blk p metadataRawMemoryBytes" using sz by (intro blk_subset) (simp_all add: word_le_nat_alt)
    have "blk p sz \<inter> pool_used s = {}"
      using pool_used_regions [OF inv] pool_new_region [OF inv fresh(1)] sub pq(1) by fastforce
    moreover have "pool_used s \<union> blk p sz \<subseteq> pool_used s'"
      using pool_used_regions [OF inv] unfolding pq(2) by (auto simp: pool_used_def)
    moreover have "blk p sz \<subseteq> dom (mem s')"
      using sub np(4) pq(1) unfolding pq(2) by (auto simp: map_zero_blk simp del: mem_blk)
    moreover have "pool_inv os s'" using pool_inv_fresh [OF inv fresh(1) sz] pq by simp
    ultimately show ?thesis
      using np pq(1) sz map_zero_dom [of "mem s" p] unfolding pq(2) by (auto simp: word_le_nat_alt)
  next
    case (bump x xs off)
    have ps: "p = xrm_addr x + off" "s' = s\<lparr>pool_index := off + sz\<rparr>" using st bump(2) by auto
    have ok: "xrm_ok x" "region x \<subseteq> dom (mem s)" using inv bump(1) by (auto simp: pool_inv_def)
    have up: "unat p = unat (xrm_addr x) + unat off"
      using ok(1) bump(4) by (simp add: ps(1) xrm_ok_def unat_add_noof)
    have uo: "unat (off + sz) = unat off + unat sz" using bump(4) by (simp add: unat_add_noof)
    have sub: "blk p sz \<subseteq> region x" using bump(4) by (auto simp: region_def up)
    have "blk p sz \<inter> pool_used s = {}"
      using pool_inv_regions_disjoint [OF inv bump(1)] sub bump(3)
      by (fastforce simp: pool_used_def bump(1) up)
    moreover have "pool_used s \<union> blk p sz \<subseteq> pool_used s'"
      using bump(3) by (auto simp: pool_used_def bump(1) ps(2) up uo)
    moreover have "unat p mod 4096 = unat off mod 4096"
      using ok(1) by (auto simp: xrm_ok_def up elim!: dvdE)
    ultimately show ?thesis
      using pool_inv_bump [OF inv bump(1,4)] sub ok up bump(4,5) ps(2) by (auto simp: xrm_ok_def unat_eq_0)
  qed
  then show "pool_inv os s'" and "blk p sz \<inter> pool_used s = {}" and "pool_used s \<union> blk p sz \<subseteq> pool_used s'"
    and "blk p sz \<subseteq> dom (mem s')" and "p \<noteq> 0" and "unat p + unat sz \<le> 2 ^ 47"
    and "unat sz \<le> 4096 \<Longrightarrow> unat p mod 4096 + unat sz \<le> 4096"
    and "dom (mem s) \<subseteq> dom (mem s')" by blast+
qed

lemma pool_alloc_safe:
  assumes "pool_inv os s"
  shows "pool_alloc os sz s \<noteq> None"
proof (cases "sz \<le> metadataRawMemoryBytes")
  case True
  from assms this show ?thesis by (cases rule: pool_alloc_cases) simp_all
qed (simp add: pool_alloc_oversize)

lemma pool_step_Inr: "pool_step os sz s = Some (Inr b, s') \<longleftrightarrow>
    pool_alloc os sz s = Some (Inr (fst b), s') \<and> snd b = sz"
  by (cases b) (auto simp: pool_step_def split: option.splits sum.splits prod.splits)

interpretation pool: fresh_blocks "\<lambda>_. True" "pool_step os" "pool_inv os" pool_used for os
proof
  fix os s r
  show "pool_inv os s \<Longrightarrow> pool_step os r s \<noteq> None"
    using pool_alloc_safe [of os s r] by (auto simp: pool_step_def split: option.splits sum.splits prod.splits)
next
  fix os s r b s'
  assume inv: "pool_inv os s" and "pool_step os r s = Some (Inr b, s')"
  then have st: "pool_alloc os r s = Some (Inr (fst b), s')" and n: "snd b = r" by (simp_all add: pool_step_Inr)
  note sound = pool_alloc_sound [OF inv st]
  show "pool_inv os s'" by (rule sound(1))
  show "blk (fst b) (snd b) \<inter> pool_used s = {}" using sound(2) by (simp only: n)
  show "pool_used s \<union> blk (fst b) (snd b) \<subseteq> pool_used s'" using sound(3) by (simp only: n)
qed

lemma pool_used_mapped: "pool_inv os s \<Longrightarrow> pool_used s \<subseteq> dom (mem s)"
  using pool_used_regions [of os s] by (fastforce simp: pool_inv_def)

lemma pool_init_inv: "mmap_fresh os \<Longrightarrow> pool_inv os pool_init"
  by (simp add: pool_inv_def pool_init_def)

lemma alignOf_fits:
  assumes "pool_index s < metadataRawMemoryBytes" and "unat (pool_index s) mod 4096 + unat sz \<le> 4096"
  shows "alignOf sz s = (Inr (pool_index s), s\<lparr>pool_index := pool_index s + sz\<rparr>)"
proof -
  have i: "unat (pool_index s) < 2 ^ 28" using assms(1) by (simp add: word_less_nat_alt)
  then have "pool_index s mod metadataRawMemoryBytes = pool_index s"
    by (intro word_unat_eq_iff [THEN iffD2]) (simp add: unat_mod)
  moreover have "\<not> PageSize - pool_index s mod PageSize < sz"
    using assms(2) by (simp add: word_less_nat_alt unat_sub_noof unat_mod)
  moreover have "unat (pool_index s) + unat sz \<le> 2 ^ 28"
  proof -
    have "unat (pool_index s) = unat (pool_index s) div 4096 * 4096 + unat (pool_index s) mod 4096" by simp
    moreover have "unat (pool_index s) div 4096 + 1 \<le> 65536" using i by auto
    ultimately have "unat (pool_index s) + unat sz \<le> 65536 * 4096" using assms(2) by linarith
    then show ?thesis by simp
  qed
  then have "\<not> pool_index s + sz > metadataRawMemoryBytes" by (simp add: word_less_nat_alt unat_add_noof)
  moreover have "\<not> sz > metadataRawMemoryBytes" using assms(2) by (simp add: word_less_nat_alt)
  ultimately show ?thesis by (simp add: alignOf_def Let_def)
qed

lemma pool_alloc_fits:
  assumes "pool_xrm s = x # xs" and "0 < pool_index s" and "pool_index s < metadataRawMemoryBytes"
    and "unat (pool_index s) mod 4096 + unat sz \<le> 4096"
  shows "pool_alloc os sz s = Some (Inr (xrm_addr x + pool_index s), s\<lparr>pool_index := pool_index s + sz\<rparr>)"
  using assms by (auto simp: pool_alloc_def alignOf_fits)

text \<open>The lock-free variant computes what \<open>alignOf\<close> computes.\<close>

lemma freeOffset_pool_alignOf:
  "freeOffset_pool sz s = (if sz > metadataRawMemoryBytes then (Inl ErrSizeOver, s) else alignOf sz s)"
  by (simp add: freeOffset_pool_def alignOf_def Let_def)

subsection \<open>Fresh memory is zero\<close>

text \<open>Memory of the pool that is not handed out yet still reads as zero.\<close>

definition pool_clean :: "'a raw_pool_scheme \<Rightarrow> bool" where
  "pool_clean s \<longleftrightarrow> (\<forall>y \<in> set (pool_xrm s). \<forall>x \<in> region y. x \<notin> pool_used s \<longrightarrow> mem s x = Some 0)"

lemma pool_alloc_clean:
  assumes inv: "pool_inv os s" and clean: "pool_clean s" and st: "pool_alloc os sz s = Some (Inr p, s')"
  shows "pool_clean s'" and "\<forall>x \<in> blk p sz. mem s' x = Some 0" and "\<forall>x \<in> pool_used s. mem s' x = mem s x"
proof -
  have sz: "sz \<le> metadataRawMemoryBytes" using st by (rule contrapos_pp) (simp add: pool_alloc_oversize)
  have fr: "mmap_fresh os" using inv by (simp add: pool_inv_def)
  note sound = pool_alloc_sound [OF inv st]
  have "pool_clean s' \<and> (\<forall>x \<in> blk p sz. mem s' x = Some 0) \<and> (\<forall>x \<in> pool_used s. mem s' x = mem s x)"
    using inv sz
  proof (cases rule: pool_alloc_cases)
    case (fail e t)
    then show ?thesis using st by simp
  next
    case (fresh q)
    note np = mmap_freshD [OF fr fresh(1)]
    have pq: "p = q" "s' = s\<lparr>pool_index := sz, calls := calls s + 1,
         mem := map_zero (mem s) p metadataRawMemoryBytes,
         pool_xrm := \<lparr>xrm_addr = p, xrm_down = False, xrm_len = 2 ^ 28\<rparr> # pool_xrm s\<rparr>"
      using st fresh(2) by auto
    have m: "mem s' x = (if x \<in> blk p metadataRawMemoryBytes then Some 0 else mem s x)" for x
      unfolding pq(2) using np(4) pq(1) by (simp add: map_zero_blk del: mem_blk)
    have "blk p sz \<subseteq> blk p metadataRawMemoryBytes" using sz by (intro blk_subset) (simp_all add: word_le_nat_alt)
    moreover have "\<forall>x \<in> pool_used s. x \<notin> blk p metadataRawMemoryBytes"
      using pool_used_regions [OF inv] pool_new_region [OF inv fresh(1)] pq(1) by fastforce
    moreover have "pool_clean s'"
      using m pool_used_regions [OF inv] unfolding pool_clean_def
      by (auto simp: pq(2) pool_used_def region_def simp del: mem_blk)
    ultimately show ?thesis using m by auto
  next
    case (bump x xs off)
    have ps: "p = xrm_addr x + off" "s' = s\<lparr>pool_index := off + sz\<rparr>" using st bump(2) by auto
    have ok: "xrm_ok x" using inv bump(1) by (auto simp: pool_inv_def)
    have up: "unat p = unat (xrm_addr x) + unat off"
      using ok(1) bump(4) by (simp add: ps(1) xrm_ok_def unat_add_noof)
    have "blk p sz \<subseteq> region x" using bump(4) by (auto simp: region_def up)
    then have "\<forall>y \<in> blk p sz. mem s' y = Some 0"
      using clean sound(2) unfolding pool_clean_def ps(2) bump(1) by fastforce
    moreover have "pool_clean s'"
      using clean sound(3) unfolding pool_clean_def by (auto simp: ps(2) simp del: mem_blk)
    ultimately show ?thesis by (simp add: ps(2))
  qed
  then show "pool_clean s'" and "\<forall>x \<in> blk p sz. mem s' x = Some 0" and "\<forall>x \<in> pool_used s. mem s' x = mem s x"
    by blast+
qed

lemma pool_init_clean: "pool_clean pool_init"
  by (simp add: pool_clean_def pool_init_def)

text \<open>A write to memory in use keeps both invariants.\<close>

lemma pool_inv_write:
  "dom m = dom (mem s) \<Longrightarrow> pool_inv os (s\<lparr>mem := m\<rparr>) = pool_inv os s"
  by (simp add: pool_inv_def)

lemma pool_used_write [simp]: "pool_used (s\<lparr>mem := m\<rparr>) = pool_used s"
  by (simp add: pool_used_def split: list.split)

lemma pool_clean_write:
  "pool_clean s \<Longrightarrow> \<forall>x. x \<notin> pool_used s \<longrightarrow> m x = mem s x \<Longrightarrow> pool_clean (s\<lparr>mem := m\<rparr>)"
  by (simp add: pool_clean_def)

subsection \<open>States for the witnesses\<close>

text \<open>
  The addresses \<open>A\<close> never come from a mapping of the pool. What the pool does elsewhere leaves them
  and all blocks in use as they are.
\<close>

definition os_apart :: "os \<Rightarrow> uintptr set \<Rightarrow> bool" where
  "os_apart os A \<longleftrightarrow> (\<forall>i a. os_mmap os i (uint metadataRawMemoryBytes) = Inr a \<longrightarrow> blk a metadataRawMemoryBytes \<inter> A = {})"

definition pool_moves :: "os \<Rightarrow> uintptr set \<Rightarrow> 'a raw_pool_scheme \<Rightarrow> 'b raw_pool_scheme \<Rightarrow> bool" where
  "pool_moves os A p p' \<longleftrightarrow> pool_inv os p' \<and> pool_clean p' \<and> pool_used p \<subseteq> pool_used p' \<and> dom (mem p) \<subseteq> dom (mem p') \<and>
     (\<forall>x \<in> pool_used p \<union> A. mem p' x = mem p x)"

lemma pool_moves_refl: "pool_inv os p \<Longrightarrow> pool_clean p \<Longrightarrow> pool_moves os A p p"
  by (simp add: pool_moves_def)

lemma pool_moves_trans:
  assumes a: "pool_moves os A p p1" and b: "pool_moves os A p1 p2"
  shows "pool_moves os A p p2"
proof -
  have "pool_used p \<subseteq> pool_used p2" "dom (mem p) \<subseteq> dom (mem p2)" using a b unfolding pool_moves_def by (meson order_trans)+
  moreover have "mem p2 x = mem p x" if "x \<in> pool_used p \<union> A" for x
  proof -
    have "x \<in> pool_used p1 \<union> A" using a that by (auto simp: pool_moves_def)
    then have "mem p2 x = mem p1 x" using b by (simp add: pool_moves_def)
    then show ?thesis using a that by (simp add: pool_moves_def)
  qed
  ultimately show ?thesis using b by (simp add: pool_moves_def)
qed

lemma os_apart_subset: "os_apart os A \<Longrightarrow> B \<subseteq> A \<Longrightarrow> os_apart os B"
  unfolding os_apart_def by blast

lemma os_apart_used:
  assumes "pool_inv os p" and "os_apart os A"
  shows "pool_used p \<inter> A = {}"
proof -
  have "region x \<inter> A = {}" if "x \<in> set (pool_xrm p)" for x
    using assms that unfolding pool_inv_def os_apart_def region_def by blast
  then show ?thesis using pool_used_regions [OF assms(1)] by blast
qed

lemma pool_alloc_moves:
  assumes inv: "pool_inv os p" "pool_clean p" and A: "os_apart os A" and st: "pool_alloc os sz p = Some (Inr a, p')"
  shows "pool_moves os A p p'"
proof -
  have sz: "sz \<le> metadataRawMemoryBytes" using st by (rule contrapos_pp) (simp add: pool_alloc_oversize)
  have "\<forall>x \<in> A. mem p' x = mem p x"
    using inv(1) sz
  proof (cases rule: pool_alloc_cases)
    case (fresh q)
    have "unat q + nat (2 ^ 28) \<le> 2 ^ 47" using mmap_freshD(4) [OF _ fresh(1)] inv(1) by (simp add: pool_inv_def)
    then have m: "mem p' x = (if x \<in> blk q metadataRawMemoryBytes then Some 0 else mem p x)" for x
      using st fresh(2) by (auto simp: map_zero_blk simp del: mem_blk)
    have "blk q metadataRawMemoryBytes \<inter> A = {}" using A fresh(1) by (simp add: os_apart_def)
    then show ?thesis unfolding m by auto
  qed (use st in auto)
  then show ?thesis using pool_alloc_sound [OF inv(1) st] pool_alloc_clean [OF inv st] unfolding pool_moves_def by auto
qed

text \<open>
  Room in the current region for \<open>n\<close> more requests of at most a page each: as long as there is some, no
  request needs the system, so none fails. \<open>within_meta k\<close> is a call that makes do with \<open>k\<close> requests.
\<close>

definition meta_room :: "nat \<Rightarrow> 'a raw_pool_scheme \<Rightarrow> bool" where
  "meta_room n s \<longleftrightarrow> pool_xrm s \<noteq> [] \<and> 0 < unat (pool_index s) \<and> unat (pool_index s) + n * 8192 < 2 ^ 28"

definition within_meta :: "nat \<Rightarrow> 'a raw_pool_scheme \<Rightarrow> goerr + 'r \<Rightarrow> 'b raw_pool_scheme \<Rightarrow> bool" where
  "within_meta k s r s' \<longleftrightarrow> (\<forall>n. meta_room (k + n) s \<longrightarrow> (\<exists>x. r = Inr x) \<and> meta_room n s')"

lemma meta_room_mono: "meta_room n s \<Longrightarrow> k \<le> n \<Longrightarrow> meta_room k s"
proof -
  assume a: "meta_room n s" and "k \<le> n"
  then have "k * 8192 \<le> n * 8192" by simp
  then show ?thesis using a unfolding meta_room_def by linarith
qed

lemma within_meta_trans:
  "within_meta k s (r :: goerr + 'r) s1 \<Longrightarrow> (\<And>x. r = Inr x \<Longrightarrow> within_meta j s1 r' s') \<Longrightarrow> within_meta (k + j) s r' s'"
  unfolding within_meta_def by (metis add.assoc)

lemma within_meta_mono: "within_meta k s r s' \<Longrightarrow> k \<le> j \<Longrightarrow> within_meta j s r s'"
proof -
  assume w: "within_meta k s r s'" and "k \<le> j"
  then have "meta_room (k + n) s" if "meta_room (j + n) s" for n using meta_room_mono [OF that, of "k + n"] by simp
  then show ?thesis using w unfolding within_meta_def by blast
qed

text \<open>Only the region and its index matter, and whether there was an error.\<close>

lemma within_meta_same:
  assumes "within_meta k s r s1" and "pool_xrm t = pool_xrm s" "pool_index t = pool_index s"
    and "\<And>x. r = Inr x \<Longrightarrow> pool_xrm s' = pool_xrm s1 \<and> pool_index s' = pool_index s1 \<and> (\<exists>y. r' = Inr y)"
  shows "within_meta k t r' s'"
  unfolding within_meta_def
proof (intro allI impI)
  fix n assume "meta_room (k + n) t"
  then have "meta_room (k + n) s" by (simp add: meta_room_def assms(2,3))
  then obtain x where "r = Inr x" "meta_room n s1" using assms(1) by (auto simp: within_meta_def)
  then show "(\<exists>x. r' = Inr x) \<and> meta_room n s'" using assms(4) [of x] by (simp add: meta_room_def)
qed

lemma pool_alloc_within:
  assumes inv: "pool_inv os s" and sz: "unat sz \<le> 4096" and al: "pool_alloc os sz s = Some (r, s')"
  shows "within_meta 1 s r s'"
  unfolding within_meta_def
proof (intro allI impI)
  fix n assume m: "meta_room (1 + n) s"
  let ?i = "pool_index s"
  define o1 where "o1 = (if PageSize - ?i mod PageSize < sz then Align ?i PageSize else ?i)"
  have ix: "0 < unat ?i" "unat ?i + (1 + n) * 8192 < 2 ^ 28" "pool_xrm s \<noteq> []" using m by (simp_all add: meta_room_def)
  have mod: "?i mod metadataRawMemoryBytes = ?i" using ix(2) by (simp add: word_unat_eq_iff unat_mod)
  have ual: "unat (Align ?i PageSize) = (unat ?i + 4095) div 4096 * 4096" using ix(2) by (intro Align_page) simp
  have "(unat ?i + 4095) div 4096 * 4096 \<le> unat ?i + 4095" "unat ?i \<le> (unat ?i + 4095) div 4096 * 4096" by simp_all
  then have u1: "unat o1 \<le> unat ?i + 4095" "unat ?i \<le> unat o1" by (auto simp: o1_def ual)
  then have add: "unat (o1 + sz) = unat o1 + unat sz" using ix(2) sz by (intro unat_add_noof) simp
  have le: "\<not> o1 + sz > metadataRawMemoryBytes" "o1 \<noteq> 0" "\<not> sz > metadataRawMemoryBytes"
    using u1 ix sz add by (auto simp: word_less_nat_alt)
  have "alignOf sz s = (Inr o1, s\<lparr>pool_index := o1 + sz\<rparr>)"
    using le by (simp add: alignOf_def Let_def mod o1_def [symmetric])
  then obtain y where "pool_alloc os sz s = Some (Inr y, s\<lparr>pool_index := o1 + sz\<rparr>)"
    using ix(3) le(2) by (cases "pool_xrm s") (auto simp: pool_alloc_def)
  moreover have "unat (o1 + sz) + n * 8192 < 2 ^ 28" "0 < unat (o1 + sz)" using add u1 ix sz by simp_all
  ultimately show "(\<exists>x. r = Inr x) \<and> meta_room n s'" using al ix(3) by (auto simp: meta_room_def)
qed

lemma demo_pool_first:
  "pool_alloc demo_os 100 pool_init = Some (Inr (word_of_nat (2 ^ 30)),
     \<lparr>mem = map_zero Map.empty (word_of_nat (2 ^ 30)) 0x10000000, calls = 1, pool_frees = [],
      pool_xrm = [\<lparr>xrm_addr = word_of_nat (2 ^ 30), xrm_down = False, xrm_len = 2 ^ 28\<rparr>], pool_index = 100\<rparr>)"
  by (simp add: pool_alloc_def alignOf_def pool_init_def newXRawMemory_def demo_os_def Align_def Let_def)

definition demo_full_pool :: raw_pool where
  "demo_full_pool =
     \<lparr>mem = map_zero Map.empty 0x40000000 metadataRawMemoryBytes, calls = 10, pool_frees = [],
      pool_xrm = [\<lparr>xrm_addr = 0x40000000, xrm_down = False, xrm_len = 2 ^ 28\<rparr>],
      pool_index = metadataRawMemoryBytes\<rparr>"

lemma demo_full_pool_inv: "pool_inv demo_os demo_full_pool"
proof -
  have "\<exists>i<10. os_mmap demo_os i 268435456 = Inr 0x40000000"
    by (rule exI [of _ 0]) (simp add: demo_os_mmap)
  moreover have "blk 0x40000000 metadataRawMemoryBytes \<subseteq> dom (map_zero Map.empty 0x40000000 metadataRawMemoryBytes)"
    by (auto simp: map_zero_blk simp del: mem_blk)
  ultimately show ?thesis
    using demo_os_fresh by (auto simp: pool_inv_def demo_full_pool_def xrm_ok_def region_def simp del: mem_blk)
qed

subsection \<open>Properties\<close>



text \<open>
  A block of at most a page never straddles a page boundary, because alignOf moves the offset
  to the next page when the current one has no room.
\<close>
theorem pool_block_in_page:
  assumes "pool_inv os s" and "sz \<le> PageSize" and "pool_alloc os sz s = Some (Inr p, s')"
  shows "unat p mod 4096 + unat sz \<le> 4096"
  using pool_alloc_sound(7) [OF assms(1,3)] assms(2) by (simp add: word_le_nat_alt)

theorem pool_block_in_page_witness: "unat (word_of_nat (2 ^ 30) :: uintptr) mod 4096 + 100 \<le> 4096"
  using pool_block_in_page [OF pool_init_inv [OF demo_os_fresh] _ demo_pool_first] by simp

text \<open>A request for zero bytes returns the address the next request gets too: the mark bits of a large object (no elements, so no bytes) share their address with the next metadata block.\<close>

lemma pool_zero_alias:
  assumes "pool_xrm s = x # xs" and "0 < pool_index s" and "pool_index s < metadataRawMemoryBytes"
    and "unat (pool_index s) mod 4096 + unat sz \<le> 4096"
  shows "\<exists>p s1 s2. pool_alloc os 0 s = Some (Inr p, s1) \<and> pool_alloc os sz s1 = Some (Inr p, s2)"
  using pool_alloc_fits [OF assms(1-3), of 0 os] pool_alloc_fits [OF assms, of os] assms(4) by simp

text \<open>
  When the region is full and mmap fails, alignOf has already reset the index: the next
  request succeeds and returns a block inside memory that is in use.
\<close>
theorem pool_failed_grow_overlaps:
  assumes inv: "pool_inv os s" and x: "pool_xrm s = x # xs" and os: "os_mmap os (calls s) (2 ^ 28) = Inl e"
    and full: "pool_index s = metadataRawMemoryBytes"
    and sz: "0 < sz" "sz \<le> 2048" and sz2: "0 < sz2" "sz2 \<le> 2048"
  shows "\<exists>s1 s2 p. pool_alloc os sz s = Some (Inl (ErrErrno e), s1) \<and> pool_alloc os sz2 s1 = Some (Inr p, s2)
    \<and> blk p sz2 \<subseteq> pool_used s"
proof -
  let ?s1 = "s\<lparr>pool_index := sz, calls := calls s + 1\<rparr>"
  have ub: "unat sz \<le> 2048" "unat sz2 \<le> 2048" "0 < unat sz" using sz sz2 by (simp_all add: word_le_nat_alt word_less_nat_alt)
  have "alignOf sz s = (Inr 0, s\<lparr>pool_index := sz\<rparr>)"
    using ub by (auto simp: alignOf_def Let_def full word_less_nat_alt not_less)
  then have f: "pool_alloc os sz s = Some (Inl (ErrErrno e), ?s1)"
    using os by (simp add: pool_alloc_def newXRawMemory_def)
  have "pool_alloc os sz2 ?s1 = Some (Inr (xrm_addr x + sz), ?s1\<lparr>pool_index := sz + sz2\<rparr>)"
    using pool_alloc_fits [of ?s1 x xs sz2 os] x ub sz by (simp add: word_less_nat_alt)
  moreover have "blk (xrm_addr x + sz) sz2 \<subseteq> pool_used s"
  proof -
    have "unat (xrm_addr x) + 2 ^ 28 \<le> 2 ^ 47" using inv x by (simp add: pool_inv_def xrm_ok_def)
    then have "unat (xrm_addr x + sz) = unat (xrm_addr x) + unat sz" using ub by (simp add: unat_add_noof)
    then show ?thesis using ub by (auto simp: pool_used_def x full)
  qed
  ultimately show ?thesis using f by blast
qed

theorem pool_failed_grow_overlaps_witness:
  "\<exists>s1 s2 p. pool_alloc demo_os 16 demo_full_pool = Some (Inl (ErrErrno 12), s1)
    \<and> pool_alloc demo_os 48 s1 = Some (Inr p, s2) \<and> blk p 48 \<subseteq> pool_used demo_full_pool"
proof -
  have "os_mmap demo_os (calls demo_full_pool) (2 ^ 28) = Inl 12" by (simp add: demo_os_def demo_full_pool_def)
  from pool_failed_grow_overlaps [OF demo_full_pool_inv _ this, of _ _ 16 48]
  show ?thesis by (simp add: demo_full_pool_def)
qed

end
