(* ===== verification/MetaAlloc.thy ===== *)
theory MetaAlloc
  imports RawMemory
begin

text \<open>
  metadata\_alloc.go: the allocators of fixed-size elements. \<open>xFixedAllocator\<close> and
  \<open>xSliceAllocator\<close> carve elements out of a region of their own; \<open>xAllocator\<close> counts bytes
  and asks the global pool. \<open>growCall\<close> only logs, so a flag records whether it is set
  (calling it unset panics); \<open>freeRawMemory\<close> is \<open>None\<close> when nil.
\<close>

subsection \<open>Definitions\<close>

record xFixedAllocator =
  xa_size :: uintptr
  xa_chunk :: uintptr
  xa_nchunk :: uintptr
  xa_freeRawMemory :: "xRawMemory option"
  xa_growCall :: bool
  xa_inuse :: uintptr

definition newXFixedAllocator ::
  "os \<Rightarrow> uintptr \<Rightarrow> bool \<Rightarrow> 'a machine_scheme \<Rightarrow> (goerr + xFixedAllocator) \<times> 'a machine_scheme" where
  "newXFixedAllocator os sz growCall s =
     (if sz > metadataRawMemoryBytes then (Inl ErrAllocatorSize, s)
      else
        (case newXRawMemory os (uint metadataRawMemoryBytes) s of
           (Inl err, s1) \<Rightarrow> (Inl err, s1)
         | (Inr xrm, s1) \<Rightarrow>
             (Inr \<lparr>xa_size = sz, xa_chunk = 0, xa_nchunk = metadataRawMemoryBytes,
                   xa_freeRawMemory = Some xrm, xa_growCall = growCall, xa_inuse = 0\<rparr>, s1)))"

text \<open>The two compare-and-swap loops, whose swap nobody disturbs: the old value is returned.\<close>

definition casNchunk :: "'a xFixedAllocator_scheme \<Rightarrow> uintptr \<times> 'a xFixedAllocator_scheme" where
  "casNchunk xa = (xa_nchunk xa, xa\<lparr>xa_nchunk := xa_nchunk xa - xa_size xa\<rparr>)"

definition casChunk :: "'a xFixedAllocator_scheme \<Rightarrow> uintptr \<times> 'a xFixedAllocator_scheme" where
  "casChunk xa = (xa_chunk xa, xa\<lparr>xa_chunk := xa_chunk xa + xa_size xa\<rparr>)"

definition fixed_grow ::
  "os \<Rightarrow> 'a xFixedAllocator_scheme \<Rightarrow> 'b machine_scheme
    \<Rightarrow> (goerr + unit) \<times> 'a xFixedAllocator_scheme \<times> 'b machine_scheme" where
  "fixed_grow os xa s =
     (if xa_nchunk xa \<ge> xa_size xa then (Inr (), xa, s)
      else
        (case newXRawMemory os (uint metadataRawMemoryBytes) s of
           (Inl err, s1) \<Rightarrow> (Inl err, xa, s1)
         | (Inr xrm, s1) \<Rightarrow>
             (Inr (), xa\<lparr>xa_freeRawMemory := Some xrm, xa_chunk := 0, xa_nchunk := metadataRawMemoryBytes\<rparr>, s1)))"

definition fixed_alloc ::
  "os \<Rightarrow> 'a xFixedAllocator_scheme \<Rightarrow> 'b machine_scheme
    \<Rightarrow> ((goerr + uintptr) \<times> 'a xFixedAllocator_scheme \<times> 'b machine_scheme) option" where
  "fixed_alloc os xa s =
     (let (nchunk, xa1) = casNchunk xa
      in case (if nchunk < xa_size xa1 then fixed_grow os xa1 s else (Inr (), xa1, s)) of
           (Inl err, xa2, s2) \<Rightarrow> Some (Inl err, xa2, s2)
         | (Inr _, xa2, s2) \<Rightarrow>
             (let (chunk, xa3) = casChunk xa2
              in case xa_freeRawMemory xa3 of
                   None \<Rightarrow> None
                 | Some xrm \<Rightarrow>
                     Some (Inr (xrm_addr xrm + chunk), xa3\<lparr>xa_inuse := xa_inuse xa3 + xa_size xa3\<rparr>, s2)))"

definition fixed_Close ::
  "os \<Rightarrow> 'a xFixedAllocator_scheme \<Rightarrow> 'b machine_scheme \<Rightarrow> ((goerr + unit) \<times> 'b machine_scheme) option" where
  "fixed_Close os xa s = map_option (\<lambda>xrm. xrm_Close os xrm s) (xa_freeRawMemory xa)"

record xSliceAllocator = xFixedAllocator +
  xa_initSize :: uintptr

definition newXSliceAllocator ::
  "os \<Rightarrow> uintptr \<Rightarrow> uintptr \<Rightarrow> bool \<Rightarrow> 'b machine_scheme
    \<Rightarrow> ((goerr + xSliceAllocator) \<times> 'b machine_scheme) option" where
  "newXSliceAllocator os elementSize initSize growCall s =
     (case newXFixedAllocator os elementSize growCall s of
        (Inl err, s1) \<Rightarrow> Some (Inl err, s1)
      | (Inr a, s1) \<Rightarrow>
          if elementSize = 0 then None
          else
            let initSize =
                  (if initSize < metadataRawMemoryBytes div elementSize
                   then metadataRawMemoryBytes div elementSize else initSize)
            in Some (Inr (xFixedAllocator.extend a \<lparr>xa_initSize = initSize\<rparr>), s1))"

text \<open>A fresh region of \<open>cap\<close> elements, as both allocation functions install it.\<close>

definition slice_refill ::
  "os \<Rightarrow> uintptr \<Rightarrow> 'a xSliceAllocator_scheme \<Rightarrow> 'b machine_scheme
    \<Rightarrow> (goerr + unit) \<times> 'a xSliceAllocator_scheme \<times> 'b machine_scheme" where
  "slice_refill os cap xa s =
     (let nc = sint (cap * xa_size xa)
      in case newXRawMemory os nc s of
           (Inl err, s1) \<Rightarrow> (Inl err, xa, s1)
         | (Inr xrm, s1) \<Rightarrow>
             (Inr (), xa\<lparr>xa_freeRawMemory := Some xrm, xa_chunk := 0, xa_nchunk := of_int nc\<rparr>, s1))"

text \<open>Take \<open>n\<close> bytes off the front of the region.\<close>

definition slice_bump ::
  "uintptr \<Rightarrow> 'a xSliceAllocator_scheme \<Rightarrow> (uintptr \<times> 'a xSliceAllocator_scheme) option" where
  "slice_bump n xa =
     (case xa_freeRawMemory xa of
        None \<Rightarrow> None
      | Some xrm \<Rightarrow>
          Some (xrm_addr xrm + xa_chunk xa,
                xa\<lparr>xa_chunk := xa_chunk xa + n, xa_nchunk := xa_nchunk xa - n, xa_inuse := xa_inuse xa + n\<rparr>))"

definition batchAlloc ::
  "os \<Rightarrow> uintptr \<Rightarrow> uintptr \<Rightarrow> 'a xSliceAllocator_scheme \<Rightarrow> 'b machine_scheme
    \<Rightarrow> ((goerr + uintptr \<times> xRawMemory option) \<times> 'a xSliceAllocator_scheme \<times> 'b machine_scheme) option" where
  "batchAlloc os sz cap xa s =
     (case (if xa_nchunk xa < sz * xa_size xa
            then
              (let (cap, xa) =
                     (if cap < xa_initSize xa
                      then (push_bit 1 (xa_initSize xa), xa\<lparr>xa_initSize := push_bit 1 (xa_initSize xa)\<rparr>)
                      else (cap, xa))
               in if cap < 1 then (Inl ErrCapZero, xa, s) else slice_refill os cap xa s)
            else (Inr (), xa, s)) of
        (Inl err, xa1, s1) \<Rightarrow> Some (Inl err, xa1, s1)
      | (Inr _, xa1, s1) \<Rightarrow>
          map_option (\<lambda>(offset, xa2). (Inr (offset, None), xa2, s1)) (slice_bump (sz * xa_size xa1) xa1))"

definition slice_alloc ::
  "os \<Rightarrow> uintptr \<Rightarrow> 'a xSliceAllocator_scheme \<Rightarrow> 'b machine_scheme
    \<Rightarrow> ((goerr + uintptr \<times> xRawMemory option) \<times> 'a xSliceAllocator_scheme \<times> 'b machine_scheme) option" where
  "slice_alloc os cap xa s =
     (if xa_nchunk xa < xa_size xa \<and> \<not> xa_growCall xa then None
      else
        (case (if xa_nchunk xa < xa_size xa then slice_refill os cap xa s else (Inr (), xa, s)) of
           (Inl err, xa1, s1) \<Rightarrow> Some (Inl err, xa1, s1)
         | (Inr _, xa1, s1) \<Rightarrow>
             map_option (\<lambda>(offset, xa2). (Inr (offset, None), xa2, s1)) (slice_bump (xa_size xa1) xa1)))"

text \<open>
  \<open>grow\<close>: \<open>copy\<close> moves the caller's elements to the new address and may change the
  process state.
\<close>

definition slice_grow ::
  "os \<Rightarrow> uintptr \<Rightarrow> (uintptr \<Rightarrow> 'b machine_scheme \<Rightarrow> goerr option \<times> 'b machine_scheme)
    \<Rightarrow> 'a xSliceAllocator_scheme \<Rightarrow> 'b machine_scheme
    \<Rightarrow> ((goerr + unit) \<times> 'a xSliceAllocator_scheme \<times> 'b machine_scheme) option" where
  "slice_grow os newCap copy xa s =
     (let newCap = (if newCap < xa_initSize xa then xa_initSize xa else newCap)
      in case slice_alloc os newCap xa s of
           None \<Rightarrow> None
         | Some (Inl err, xa1, s1) \<Rightarrow> Some (Inl err, xa1, s1)
         | Some (Inr (ptr, old), xa1, s1) \<Rightarrow>
             (case copy ptr s1 of
                (Some err, s2) \<Rightarrow>
                  (case fixed_Close os xa1 s2 of
                     None \<Rightarrow> None
                   | Some (_, s3) \<Rightarrow> Some (Inl err, xa1\<lparr>xa_freeRawMemory := old\<rparr>, s3))
              | (None, s2) \<Rightarrow>
                  (case old of
                     None \<Rightarrow> Some (Inr (), xa1, s2)
                   | Some o1 \<Rightarrow>
                       (case xrm_Close os o1 s2 of
                          (Inl err, s3) \<Rightarrow> Some (Inl err, xa1, s3)
                        | (Inr _, s3) \<Rightarrow> Some (Inr (), xa1, s3)))))"

record xAllocator =
  xal_size :: uintptr
  xal_inuse :: uintptr

definition newXAllocator :: "uintptr \<Rightarrow> xAllocator" where
  "newXAllocator sz = \<lparr>xal_size = sz, xal_inuse = 0\<rparr>"

definition xAllocator_alloc ::
  "os \<Rightarrow> xAllocator \<Rightarrow> 'b raw_pool_scheme \<Rightarrow> ((goerr + uintptr) \<times> xAllocator \<times> 'b raw_pool_scheme) option" where
  "xAllocator_alloc os xa s =
     (let xa1 = xa\<lparr>xal_inuse := xal_inuse xa + xal_size xa\<rparr>
      in map_option (\<lambda>(r, s1). (r, xa1, s1)) (pool_alloc os (xal_size xa1) s))"

subsection \<open>Lemmas\<close>

text \<open>\<open>alloc\<close> never reports the region it replaced, so \<open>grow\<close> never closes it.\<close>

lemma slice_alloc_old_None:
  assumes "slice_alloc os cap xa s = Some (Inr (p, old), xa', s')"
  shows "old = None"
  using assms by (auto simp: slice_alloc_def split: if_splits prod.splits sum.splits)

lemma slice_grow_no_close:
  assumes "slice_grow os cap (\<lambda>p s. (None, s)) xa s = Some (r, xa', s')" and "r = Inr ()"
  shows "\<exists>p cap'. slice_alloc os cap' xa s = Some (Inr (p, None), xa', s')"
  using assms unfolding slice_grow_def Let_def
  by (auto split: option.splits sum.splits prod.splits if_splits dest: slice_alloc_old_None)

text \<open>The two counters of a fixed allocator add up to its region.\<close>

definition fixed_inv :: "'a xFixedAllocator_scheme \<Rightarrow> bool" where
  "fixed_inv xa \<longleftrightarrow>
     unat (xa_chunk xa) + unat (xa_nchunk xa) = 2 ^ 28 \<and> xa_size xa \<le> metadataRawMemoryBytes \<and>
     (case xa_freeRawMemory xa of None \<Rightarrow> False | Some x \<Rightarrow> xrm_ok x)"

subsection \<open>Properties\<close>

text \<open>
  While the region has room, the fixed allocator returns the next element of its region,
  which lies inside it, maps nothing, and keeps its counters in step.
\<close>
theorem fixed_alloc_in_region:
  assumes inv: "fixed_inv xa" and room: "xa_size xa \<le> xa_nchunk xa"
  shows "\<exists>x p xa'. xa_freeRawMemory xa = Some x \<and> fixed_alloc os xa s = Some (Inr p, xa', s)
    \<and> blk p (xa_size xa) \<subseteq> region x \<and> fixed_inv xa' \<and> xa_chunk xa' = xa_chunk xa + xa_size xa"
proof -
  obtain x where x: "xa_freeRawMemory xa = Some x" "xrm_ok x"
    using inv by (auto simp: fixed_inv_def split: option.splits)
  have c: "unat (xa_chunk xa) + unat (xa_nchunk xa) = 2 ^ 28" and n: "unat (xa_size xa) \<le> unat (xa_nchunk xa)"
    using inv room by (simp_all add: fixed_inv_def word_le_nat_alt)
  have p: "unat (xrm_addr x + xa_chunk xa) = unat (xrm_addr x) + unat (xa_chunk xa)"
    using x(2) c by (simp add: xrm_ok_def unat_add_noof)
  have sub: "blk (xrm_addr x + xa_chunk xa) (xa_size xa) \<subseteq> region x"
    using c n by (auto simp: region_def p)
  have u: "unat (xa_chunk xa + xa_size xa) = unat (xa_chunk xa) + unat (xa_size xa)"
    "unat (xa_nchunk xa - xa_size xa) = unat (xa_nchunk xa) - unat (xa_size xa)"
    using c n by (simp_all add: unat_add_noof unat_sub_noof)
  show ?thesis
    using x room sub inv n u
    by (auto simp: fixed_alloc_def casNchunk_def casChunk_def fixed_inv_def not_less)
qed

theorem fixed_alloc_in_region_witness:
  "\<exists>x p xa'. fixed_alloc demo_os \<lparr>xa_size = 16, xa_chunk = 4080, xa_nchunk = 0xffff010,
      xa_freeRawMemory = Some \<lparr>xrm_addr = 0x40000000, xrm_down = False, xrm_len = 2 ^ 28\<rparr>,
      xa_growCall = True, xa_inuse = 4080\<rparr> pool_init = Some (Inr p, xa', pool_init)
    \<and> blk p 16 \<subseteq> region x"
  using fixed_alloc_in_region [of "\<lparr>xa_size = 16, xa_chunk = 4080, xa_nchunk = 0xffff010,
      xa_freeRawMemory = Some \<lparr>xrm_addr = 0x40000000, xrm_down = False, xrm_len = 2 ^ 28\<rparr>,
      xa_growCall = True, xa_inuse = 4080\<rparr>" demo_os pool_init]
  by (auto simp: fixed_inv_def xrm_ok_def)

text \<open>
  C40: When the region is used up, the fixed allocator does not grow: casNchunk has already wrapped
  the counter of free bytes around to a huge value, grow sees enough room, and the element
  handed out ends past the end of the region.
\<close>
theorem fixed_alloc_overruns:
  assumes inv: "fixed_inv xa" and empty: "xa_nchunk xa < xa_size xa"
  shows "\<exists>x p xa'. xa_freeRawMemory xa = Some x \<and> fixed_alloc os xa s = Some (Inr p, xa', s)
    \<and> p = xrm_addr x + xa_chunk xa \<and> \<not> blk p (xa_size xa) \<subseteq> region x"
proof -
  obtain x where x: "xa_freeRawMemory xa = Some x" "xrm_ok x"
    using inv by (auto simp: fixed_inv_def split: option.splits)
  have c: "unat (xa_chunk xa) + unat (xa_nchunk xa) = 2 ^ 28" "unat (xa_nchunk xa) < unat (xa_size xa)"
    "unat (xa_size xa) \<le> 2 ^ 28"
    using inv empty by (simp_all add: fixed_inv_def word_le_nat_alt word_less_nat_alt)
  have "unat (xa_nchunk xa - xa_size xa) = 2 ^ 64 + unat (xa_nchunk xa) - unat (xa_size xa)"
    using c by (simp add: unat_sub_if')
  then have wrapped: "xa_size xa \<le> xa_nchunk xa - xa_size xa" using c by (simp add: word_le_nat_alt)
  have u: "unat (xrm_addr x + xa_chunk xa) = unat (xrm_addr x) + unat (xa_chunk xa)"
    "unat (xrm_addr x + metadataRawMemoryBytes) = unat (xrm_addr x) + 2 ^ 28"
    using x(2) c by (simp_all add: xrm_ok_def unat_add_noof)
  have "xrm_addr x + metadataRawMemoryBytes \<in> blk (xrm_addr x + xa_chunk xa) (xa_size xa)"
    using c by (simp add: u)
  moreover have "xrm_addr x + metadataRawMemoryBytes \<notin> region x" by (simp add: region_def u)
  ultimately have "\<not> blk (xrm_addr x + xa_chunk xa) (xa_size xa) \<subseteq> region x" by blast
  moreover have "\<exists>xa'. fixed_alloc os xa s = Some (Inr (xrm_addr x + xa_chunk xa), xa', s)"
    using x(1) empty wrapped by (auto simp: fixed_alloc_def casNchunk_def casChunk_def fixed_grow_def)
  ultimately show ?thesis using x(1) by blast
qed

theorem fixed_alloc_overruns_witness:
  "\<exists>x p xa'. fixed_alloc demo_os \<lparr>xa_size = 16, xa_chunk = 0x10000000, xa_nchunk = 0,
      xa_freeRawMemory = Some \<lparr>xrm_addr = 0x40000000, xrm_down = False, xrm_len = 2 ^ 28\<rparr>,
      xa_growCall = True, xa_inuse = 0\<rparr> pool_init = Some (Inr p, xa', pool_init)
    \<and> \<not> blk p 16 \<subseteq> region x"
  using fixed_alloc_overruns [of "\<lparr>xa_size = 16, xa_chunk = 0x10000000, xa_nchunk = 0,
      xa_freeRawMemory = Some \<lparr>xrm_addr = 0x40000000, xrm_down = False, xrm_len = 2 ^ 28\<rparr>,
      xa_growCall = True, xa_inuse = 0\<rparr>" demo_os pool_init]
  by (auto simp: fixed_inv_def xrm_ok_def)

end
