(* ===== verification/Treap.thy ===== *)
theory Treap
  imports PtrTree MetaAlloc
begin

text \<open>
  trees.go and chunk.go: the free chunks of the heap, in a treap ordered by number of pages and
  then by address, with the smallest priority at the root. Nodes come from the metadata pool and
  are never given back; nodes and chunks live in two stores. \<open>rand.Uint32\<close> is an argument of
  \<open>insert\<close>. The rotations report an error after they have changed the tree, and their callers
  ignore it.
\<close>

subsection \<open>Data\<close>

record xChunk =
  chunk_start :: uintptr
  chunk_npages :: uintptr

record treapNode = link +
  npagesKey :: uintptr
  priority :: uint32
  node_chunk :: uintptr

type_synonym nodes = "uintptr \<Rightarrow> treapNode option"
type_synonym chunk_store = "uintptr \<Rightarrow> xChunk option"

record treap_state = raw_pool +
  treap_nodes :: nodes
  chunks :: chunk_store
  treap :: uintptr

text \<open>\<open>unsafe.Sizeof(treapNode{})\<close>: four words, a 32-bit priority with its padding, a pointer.\<close>

abbreviation treapNodeSize :: uintptr where "treapNodeSize \<equiv> 48"

subsection \<open>Rotations\<close>

text \<open>The last lines of both rotations: put \<open>new\<close> where the parent \<open>p\<close> has \<open>old\<close>.\<close>

definition replaceChild ::
  "uintptr \<Rightarrow> uintptr \<Rightarrow> uintptr \<Rightarrow> uintptr \<Rightarrow> nodes \<Rightarrow> (goerr option \<times> uintptr \<times> nodes) option" where
  "replaceChild p old new rt N =
     (if p = 0 then Some (None, new, N)
      else do {
        pn \<leftarrow> N p;
        (if lnk_left pn = old then do {
           N \<leftarrow> upd p (lnk_left_update (\<lambda>_. new)) N;
           Some (None, rt, N)
         }
         else if lnk_right pn \<noteq> old then Some (Some ErrBrokenTreap, rt, N)
         else do {
           N \<leftarrow> upd p (lnk_right_update (\<lambda>_. new)) N;
           Some (None, rt, N)
         })
      })"

definition rotateLeft :: "uintptr \<Rightarrow> uintptr \<times> nodes \<Rightarrow> (goerr option \<times> uintptr \<times> nodes) option" where
  "rotateLeft x rN = (let (rt, N) = rN in do {
     xn \<leftarrow> N x;
     (let p = lnk_parent xn; a = lnk_left xn; y = lnk_right xn
      in do {
        yn \<leftarrow> N y;
        (let b = lnk_left yn; c = lnk_right yn
         in do {
           N \<leftarrow> upd y (lnk_left_update (\<lambda>_. x)) N;
           N \<leftarrow> upd x (lnk_parent_update (\<lambda>_. y)) N;
           N \<leftarrow> upd y (lnk_right_update (\<lambda>_. c)) N;
           N \<leftarrow> set_parent c y N;
           N \<leftarrow> upd x (lnk_left_update (\<lambda>_. a)) N;
           N \<leftarrow> set_parent a x N;
           N \<leftarrow> upd x (lnk_right_update (\<lambda>_. b)) N;
           N \<leftarrow> set_parent b x N;
           N \<leftarrow> upd y (lnk_parent_update (\<lambda>_. p)) N;
           replaceChild p x y rt N
         })
      })
   })"

definition rotateRight :: "uintptr \<Rightarrow> uintptr \<times> nodes \<Rightarrow> (goerr option \<times> uintptr \<times> nodes) option" where
  "rotateRight y rN = (let (rt, N) = rN in do {
     yn \<leftarrow> N y;
     (let p = lnk_parent yn; x = lnk_left yn; c = lnk_right yn
      in do {
        xn \<leftarrow> N x;
        (let a = lnk_left xn; b = lnk_right xn
         in do {
           N \<leftarrow> upd x (lnk_left_update (\<lambda>_. a)) N;
           N \<leftarrow> set_parent a x N;
           N \<leftarrow> upd x (lnk_right_update (\<lambda>_. y)) N;
           N \<leftarrow> upd y (lnk_parent_update (\<lambda>_. x)) N;
           N \<leftarrow> upd y (lnk_left_update (\<lambda>_. b)) N;
           N \<leftarrow> set_parent b y N;
           N \<leftarrow> upd y (lnk_right_update (\<lambda>_. c)) N;
           N \<leftarrow> set_parent c y N;
           N \<leftarrow> upd x (lnk_parent_update (\<lambda>_. p)) N;
           replaceChild p y x rt N
         })
      })
   })"

subsection \<open>Insertion\<close>

text \<open>The place \<open>pt\<close> points to: the root, or a child of a node.\<close>

datatype place = Root | LeftOf uintptr | RightOf uintptr

text \<open>The search loop; the result is \<open>last\<close> and \<open>pt\<close>.\<close>

partial_function (option) insertPlace ::
  "nodes \<Rightarrow> chunk_store \<Rightarrow> uintptr \<Rightarrow> uintptr \<Rightarrow> uintptr \<Rightarrow> place \<Rightarrow> uintptr
    \<Rightarrow> (goerr + uintptr \<times> place) option" where
  "insertPlace N C np base lst pt t =
     (if t = 0 then Some (Inr (lst, pt))
      else Option.bind (N t) (\<lambda>n.
        if npagesKey n < np then insertPlace N C np base t (RightOf t) (lnk_right n)
        else if npagesKey n > np then insertPlace N C np base t (LeftOf t) (lnk_left n)
        else Option.bind (C (node_chunk n)) (\<lambda>ch.
          if chunk_start ch < base then insertPlace N C np base t (RightOf t) (lnk_right n)
          else if chunk_start ch > base then insertPlace N C np base t (LeftOf t) (lnk_left n)
          else Some (Inl ErrInTreap))))"

definition writePlace :: "place \<Rightarrow> uintptr \<Rightarrow> uintptr \<times> nodes \<Rightarrow> (uintptr \<times> nodes) option" where
  "writePlace pt t rN =
     (case pt of
        Root \<Rightarrow> Some (t, snd rN)
      | LeftOf a \<Rightarrow> map_option (\<lambda>N. (fst rN, N)) (upd a (lnk_left_update (\<lambda>_. t)) (snd rN))
      | RightOf a \<Rightarrow> map_option (\<lambda>N. (fst rN, N)) (upd a (lnk_right_update (\<lambda>_. t)) (snd rN)))"

partial_function (option) rotateUp ::
  "chunk_store \<Rightarrow> uintptr \<Rightarrow> uintptr \<times> nodes \<Rightarrow> (goerr option \<times> uintptr \<times> nodes) option" where
  "rotateUp C t rN =
     Option.bind (snd rN t) (\<lambda>n.
       if lnk_parent n \<noteq> 0 then Option.bind (snd rN (lnk_parent n)) (\<lambda>p.
         if priority p > priority n then Option.bind (C (node_chunk n)) (\<lambda>ch.
           if t \<noteq> 0 \<and> chunk_npages ch \<noteq> npagesKey n then Some (Some ErrTreapSize, rN)
           else if lnk_left p = t then Option.bind (rotateRight (lnk_parent n) rN) (\<lambda>(_, rN). rotateUp C t rN)
           else if lnk_right p \<noteq> t then Some (Some ErrBrokenTreap, rN)
           else Option.bind (rotateLeft (lnk_parent n) rN) (\<lambda>(_, rN). rotateUp C t rN))
         else Some (None, rN))
       else Some (None, rN))"

definition treap_insert ::
  "os \<Rightarrow> uint32 \<Rightarrow> uintptr \<Rightarrow> 'a treap_state_scheme \<Rightarrow> ((goerr + unit) \<times> 'a treap_state_scheme) option" where
  "treap_insert os rnd chunk s = do {
     ch \<leftarrow> chunks s chunk;
     r \<leftarrow> insertPlace (treap_nodes s) (chunks s) (chunk_npages ch) (chunk_start ch) 0 Root (treap s);
     (case r of
        Inl e \<Rightarrow> Some (Inl e, s)
      | Inr (lst, pt) \<Rightarrow> do {
          (a, _, s) \<leftarrow> xAllocator_alloc os (newXAllocator treapNodeSize) s;
          (case a of
             Inl e \<Rightarrow> Some (Inl e, s)
           | Inr t \<Rightarrow> do {
               rN \<leftarrow> writePlace pt t (treap s, (treap_nodes s)(t \<mapsto>
                  \<lparr>lnk_left = 0, lnk_right = 0, lnk_parent = lst,
                   npagesKey = chunk_npages ch, priority = rnd, node_chunk = chunk\<rparr>));
               (e, rt, N) \<leftarrow> rotateUp (chunks s) t rN;
               Some (case e of None \<Rightarrow> Inr () | Some e \<Rightarrow> Inl e, s\<lparr>treap_nodes := N, treap := rt\<rparr>)
             })
        })
   }"

subsection \<open>Removal and search\<close>

partial_function (option) rotateDown :: "uintptr \<Rightarrow> uintptr \<times> nodes \<Rightarrow> (uintptr \<times> nodes) option" where
  "rotateDown t rN =
     Option.bind (snd rN t) (\<lambda>n.
       if lnk_right n \<noteq> 0 \<or> lnk_left n \<noteq> 0 then
         Option.bind
           (if lnk_right n = 0 then Some True
            else if lnk_left n = 0 then Some False
            else Option.bind (snd rN (lnk_left n)) (\<lambda>l.
              Option.bind (snd rN (lnk_right n)) (\<lambda>r. Some (priority l < priority r))))
           (\<lambda>rgt. Option.bind (if rgt then rotateRight t rN else rotateLeft t rN)
             (\<lambda>(_, rN). rotateDown t rN))
       else Some rN)"

definition unlink :: "uintptr \<Rightarrow> uintptr \<times> nodes \<Rightarrow> (uintptr \<times> nodes) option" where
  "unlink t rN = (let (rt, N) = rN in do {
     n \<leftarrow> N t;
     (let p = lnk_parent n
      in if p \<noteq> 0 then do {
           pn \<leftarrow> N p;
           N \<leftarrow> (if lnk_left pn = t then upd p (lnk_left_update (\<lambda>_. 0)) N
                 else upd p (lnk_right_update (\<lambda>_. 0)) N);
           Some (rt, N)
         }
         else Some (0, N))
   })"

definition removeNode :: "uintptr \<Rightarrow> 'a treap_state_scheme \<Rightarrow> ((goerr + unit) \<times> 'a treap_state_scheme) option" where
  "removeNode t s = do {
     n \<leftarrow> treap_nodes s t;
     ch \<leftarrow> chunks s (node_chunk n);
     (if chunk_npages ch \<noteq> npagesKey n then Some (Inl ErrTreapSize, s)
      else do {
        rN \<leftarrow> rotateDown t (treap s, treap_nodes s);
        (rt, N) \<leftarrow> unlink t rN;
        Some (Inr (), s\<lparr>treap_nodes := N, treap := rt\<rparr>)
      })
   }"

partial_function (option) findFrom :: "nodes \<Rightarrow> uintptr \<Rightarrow> uintptr \<Rightarrow> uintptr \<Rightarrow> (goerr + uintptr) option" where
  "findFrom N np best t =
     (if t = 0 then Some (if best = 0 then Inl EmptyError else Inr best)
      else Option.bind (N t) (\<lambda>n.
        if node_chunk n = 0 then Some (Inl ErrNilKey)
        else if npagesKey n \<ge> np then findFrom N np t (lnk_left n)
        else findFrom N np best (lnk_right n)))"

definition treap_find :: "uintptr \<Rightarrow> 'a treap_state_scheme \<Rightarrow> (goerr + uintptr) option" where
  "treap_find np s = findFrom (treap_nodes s) np 0 (treap s)"

text \<open>The search of \<open>removeChunk\<close>: it stays at a node of the same key, and runs into nil if absent.\<close>

partial_function (option) chunkNode :: "nodes \<Rightarrow> chunk_store \<Rightarrow> uintptr \<Rightarrow> xChunk \<Rightarrow> uintptr \<Rightarrow> uintptr option" where
  "chunkNode N C chunk ch t =
     Option.bind (N t) (\<lambda>n.
       if node_chunk n = chunk then Some t
       else if npagesKey n < chunk_npages ch then chunkNode N C chunk ch (lnk_right n)
       else if npagesKey n > chunk_npages ch then chunkNode N C chunk ch (lnk_left n)
       else Option.bind (C (node_chunk n)) (\<lambda>tc.
         if chunk_start tc < chunk_start ch then chunkNode N C chunk ch (lnk_right n)
         else if chunk_start tc > chunk_start ch then chunkNode N C chunk ch (lnk_left n)
         else chunkNode N C chunk ch t))"

definition removeChunk :: "uintptr \<Rightarrow> 'a treap_state_scheme \<Rightarrow> ((goerr + unit) \<times> 'a treap_state_scheme) option" where
  "removeChunk chunk s = do {
     ch \<leftarrow> chunks s chunk;
     t \<leftarrow> chunkNode (treap_nodes s) (chunks s) chunk ch (treap s);
     removeNode t s
   }"

subsection \<open>Iteration and checks\<close>

partial_function (option) rightmost :: "nodes \<Rightarrow> uintptr \<Rightarrow> uintptr option" where
  "rightmost N t = Option.bind (N t) (\<lambda>n. if lnk_right n \<noteq> 0 then rightmost N (lnk_right n) else Some t)"

partial_function (option) leftmost :: "nodes \<Rightarrow> uintptr \<Rightarrow> uintptr option" where
  "leftmost N t = Option.bind (N t) (\<lambda>n. if lnk_left n \<noteq> 0 then leftmost N (lnk_left n) else Some t)"

partial_function (option) climbPred :: "nodes \<Rightarrow> uintptr \<Rightarrow> (goerr + uintptr) option" where
  "climbPred N t = Option.bind (N t) (\<lambda>n.
     if lnk_parent n = 0 then Some (Inr 0)
     else Option.bind (N (lnk_parent n)) (\<lambda>p.
       if lnk_right p = t then Some (Inr (lnk_parent n))
       else if lnk_left p \<noteq> t then Some (Inl ErrNotChild)
       else climbPred N (lnk_parent n)))"

partial_function (option) climbSucc :: "nodes \<Rightarrow> uintptr \<Rightarrow> (goerr + uintptr) option" where
  "climbSucc N t = Option.bind (N t) (\<lambda>n.
     if lnk_parent n = 0 then Some (Inr 0)
     else Option.bind (N (lnk_parent n)) (\<lambda>p.
       if lnk_left p = t then Some (Inr (lnk_parent n))
       else if lnk_right p \<noteq> t then Some (Inl ErrNotChild)
       else climbSucc N (lnk_parent n)))"

definition treap_pred :: "nodes \<Rightarrow> uintptr \<Rightarrow> (goerr + uintptr) option" where
  "treap_pred N t = do {
     n \<leftarrow> N t;
     (if lnk_left n \<noteq> 0 then map_option Inr (rightmost N (lnk_left n)) else climbPred N t)
   }"

definition treap_succ :: "nodes \<Rightarrow> uintptr \<Rightarrow> (goerr + uintptr) option" where
  "treap_succ N t = do {
     n \<leftarrow> N t;
     (if lnk_right n \<noteq> 0 then map_option Inr (leftmost N (lnk_right n)) else climbSucc N t)
   }"

text \<open>Iterators are node addresses; \<open>0\<close> is the iterator that is not valid.\<close>

definition treap_start :: "uintptr \<times> nodes \<Rightarrow> uintptr option" where
  "treap_start rN = (if fst rN = 0 then Some 0 else leftmost (snd rN) (fst rN))"

definition treap_end :: "uintptr \<times> nodes \<Rightarrow> uintptr option" where
  "treap_end rN = (if fst rN = 0 then Some 0 else rightmost (snd rN) (fst rN))"

partial_function (option) isChunkInTreap :: "nodes \<Rightarrow> uintptr \<Rightarrow> uintptr \<Rightarrow> bool option" where
  "isChunkInTreap N s t =
     (if t = 0 then Some False
      else Option.bind (N t) (\<lambda>n.
        if node_chunk n = s then Some True
        else Option.bind (isChunkInTreap N s (lnk_left n)) (\<lambda>b.
          if b then Some True else isChunkInTreap N s (lnk_right n))))"

partial_function (option) walkTreap :: "nodes \<Rightarrow> (uintptr \<Rightarrow> 's \<Rightarrow> 's option) \<Rightarrow> uintptr \<Rightarrow> 's \<Rightarrow> 's option" where
  "walkTreap N f t s =
     (if t = 0 then Some s
      else Option.bind (f t s) (\<lambda>s. Option.bind (N t) (\<lambda>n.
        Option.bind (walkTreap N f (lnk_left n) s) (walkTreap N f (lnk_right n)))))"

definition keyLess :: "uintptr \<times> uintptr \<Rightarrow> uintptr \<times> uintptr \<Rightarrow> bool" where
  "keyLess k k' \<longleftrightarrow> (if fst k \<noteq> fst k' then fst k < fst k' else snd k < snd k')"

definition checkTreapNode :: "nodes \<Rightarrow> chunk_store \<Rightarrow> uintptr \<Rightarrow> (goerr + unit) option" where
  "checkTreapNode N C t =
     (if t = 0 then Some (Inr ())
      else do {
        n \<leftarrow> N t;
        ch \<leftarrow> C (node_chunk n);
        (let lessThan = (\<lambda>c. do {
               m \<leftarrow> N c;
               (if npagesKey n \<noteq> npagesKey m then Some (npagesKey n < npagesKey m)
                else map_option (\<lambda>d. chunk_start ch < chunk_start d) (C (node_chunk m)))
             })
         in if chunk_npages ch \<noteq> npagesKey n then Some (Inl ErrTreapSize)
            else do {
              bl \<leftarrow> (if lnk_left n \<noteq> 0 then lessThan (lnk_left n) else Some False);
              (if bl then Some (Inl ErrOrder)
               else do {
                 br \<leftarrow> (if lnk_right n \<noteq> 0 then lessThan (lnk_right n) else Some True);
                 Some (if br then Inr () else Inl ErrOrder)
               })
            })
      })"

subsection \<open>Rotations in a tree\<close>

lemma replaceChild_ok:
  assumes "path_at N rt old c" and "old \<noteq> 0" and "old \<notin> path_nodes c" and "distinct (lefts c @ rights c)"
  shows "\<exists>rt' N'. replaceChild (above c) old new rt N = Some (None, rt', N') \<and> path_at N' rt' new c \<and>
    (\<forall>z. z \<noteq> above c \<or> c = [] \<longrightarrow> N' z = N z) \<and> same_data N N'"
proof (cases c rule: above.cases)
  case 1
  then show ?thesis using assms by (simp add: replaceChild_def)
next
  case (2 x r d)
  then obtain n where n: "N x = Some n" "x \<noteq> 0" "lnk_left n = old" "lnk_parent n = above d"
    "tree_at N x (lnk_right n) r" "path_at N rt x d" using assms(1) by (auto split: option.splits)
  let ?N = "N(x \<mapsto> n\<lparr>lnk_left := new\<rparr>)"
  have "x \<notin> path_nodes d" "x \<notin> set_tree r" using assms(4) 2 set_lefts_rights [of d] by auto
  then have "path_at ?N rt x d = path_at N rt x d" "tree_at ?N x b r = tree_at N x b r" for b
    by (intro path_at_cong tree_at_cong; auto)+
  then have "path_at ?N rt new c" using n 2 by simp
  moreover have "same_data N ?N" using n(1) by (intro same_data_upd) auto
  ultimately show ?thesis using n 2 by (simp add: replaceChild_def upd_Some)
next
  case (3 l x d)
  then obtain n where n: "N x = Some n" "x \<noteq> 0" "lnk_right n = old" "lnk_parent n = above d"
    "tree_at N x (lnk_left n) l" "path_at N rt x d" using assms(1) by (auto split: option.splits)
  let ?N = "N(x \<mapsto> n\<lparr>lnk_right := new\<rparr>)"
  have "lnk_left n \<noteq> old" using tree_at_root [OF n(5)] assms(2,3) 3 by (cases l) auto
  moreover have "x \<notin> path_nodes d" "x \<notin> set_tree l" using assms(4) 3 set_lefts_rights [of d] by auto
  then have "path_at ?N rt x d = path_at N rt x d" "tree_at ?N x b l = tree_at N x b l" for b
    by (intro path_at_cong tree_at_cong; auto)+
  then have "path_at ?N rt new c" using n 3 by simp
  moreover have "same_data N ?N" using n(1) by (intro same_data_upd) auto
  ultimately show ?thesis using n 3 by (simp add: replaceChild_def upd_Some)
qed

text \<open>
  What both rotations do to the links of \<open>x\<close> and \<open>y\<close>, with \<open>b\<close> the subtree that changes
  its parent.
\<close>

lemma rotateRight_links:
  assumes y: "N y = Some yn" "lnk_left yn = x" "lnk_right yn = c0" "tree_at N y c0 c"
    and x: "N x = Some xn" "x \<noteq> 0" "lnk_left xn = a0" "lnk_right xn = b0" "tree_at N x a0 a" "tree_at N x b0 b"
    and d: "x \<noteq> y" "x \<notin> set_tree a \<union> set_tree b \<union> set_tree c" "y \<notin> set_tree a \<union> set_tree b \<union> set_tree c"
      "distinct (inorder b)" "set_tree b \<inter> set_tree a = {}" "set_tree b \<inter> set_tree c = {}" and y0: "y \<noteq> 0"
  shows "\<exists>N'. rotateRight y (rt, N) = replaceChild (lnk_parent yn) y x rt N' \<and>
    tree_at N' (lnk_parent yn) x \<langle>a, x, \<langle>b, y, c\<rangle>\<rangle> \<and> same_data N N' \<and>
    (\<forall>z. z \<notin> {x, y} \<union> set_tree b \<longrightarrow> N' z = N z)"
proof -
  define N1 where "N1 = N(x \<mapsto> xn\<lparr>lnk_right := y\<rparr>)"
  define N2 where "N2 = N1(y \<mapsto> yn\<lparr>lnk_parent := x\<rparr>)"
  define N3 where "N3 = N2(y \<mapsto> yn\<lparr>lnk_parent := x, lnk_left := b0\<rparr>)"
  have eq3: "N3 z = N z" if "z \<noteq> x" "z \<noteq> y" for z using that by (simp add: N1_def N2_def N3_def)
  have tr: "tree_at N3 q r t = tree_at N q r t" if "x \<notin> set_tree t" "y \<notin> set_tree t" for q r t
    using that by (intro tree_at_cong eq3) auto
  have b3: "tree_at N3 x b0 b" using x(6) tr d by simp
  obtain N4 where N4: "set_parent b0 y N3 = Some N4" "tree_at N4 y b0 b" "\<forall>z. z \<notin> set_tree b \<longrightarrow> N4 z = N3 z" "same_data N3 N4"
    using set_parent_ok [OF b3 d(4), of y] by blast
  have tr4: "tree_at N4 q r t = tree_at N q r t" if "x \<notin> set_tree t" "y \<notin> set_tree t" "set_tree b \<inter> set_tree t = {}" for q r t
  proof -
    have "tree_at N4 q r t = tree_at N3 q r t" using that N4(3) by (intro tree_at_cong) blast
    then show ?thesis using tr that by simp
  qed
  have N4x: "N4 x = Some (xn\<lparr>lnk_right := y\<rparr>)" using N4(3) d by (simp add: N1_def N2_def N3_def)
  have N4y: "N4 y = Some (yn\<lparr>lnk_parent := x, lnk_left := b0\<rparr>)" using N4(3) d by (simp add: N3_def)
  define N5 where "N5 = N4(x \<mapsto> xn\<lparr>lnk_right := y, lnk_parent := lnk_parent yn\<rparr>)"
  have s1: "upd x (lnk_left_update (\<lambda>_. a0)) N = Some N" using x by (intro upd_same) auto
  have s2: "set_parent a0 x N = Some N" by (rule set_parent_same [OF x(5)])
  have s3: "upd x (lnk_right_update (\<lambda>_. y)) N = Some N1" using x(1) by (simp add: upd_Some N1_def)
  have s4: "upd y (lnk_parent_update (\<lambda>_. x)) N1 = Some N2" using y(1) d(1) by (simp add: upd_def N1_def N2_def)
  have s5: "upd y (lnk_left_update (\<lambda>_. b0)) N2 = Some N3" by (simp add: upd_def N2_def N3_def)
  have s6: "upd y (lnk_right_update (\<lambda>_. c0)) N4 = Some N4" using y(3) N4y by (intro upd_same) auto
  have s7: "set_parent c0 y N4 = Some N4" using y(4) tr4 d by (intro set_parent_same [where t = c]) auto
  have s8: "upd x (lnk_parent_update (\<lambda>_. lnk_parent yn)) N4 = Some N5" using N4x by (simp add: upd_Some N5_def)
  have "rotateRight y (rt, N) = replaceChild (lnk_parent yn) y x rt N5"
    by (simp add: rotateRight_def Let_def y x s1 s2 s3 s4 s5 N4(1) s6 s7 s8)
  moreover have tr5: "tree_at N5 q r t = tree_at N4 q r t" if "x \<notin> set_tree t" for q r t
    using that by (intro tree_at_cong) (auto simp: N5_def)
  have "tree_at N5 (lnk_parent yn) x \<langle>a, x, \<langle>b, y, c\<rangle>\<rangle>"
    using x y d y0 N4y N4(2) tr4 tr5 by (auto simp: N5_def [THEN fun_cong] simp del: fun_upd_apply) (auto simp: N5_def)
  moreover have "same_data N N5"
  proof -
    have "same_data N N3" using x(1) y(1) by (simp add: same_data_def N1_def N2_def N3_def)
    then have "same_data N N4" using N4(4) same_data_trans by blast
    then show ?thesis using same_data_parent [of N N4 x "xn\<lparr>lnk_right := y\<rparr>"] N4x unfolding N5_def by simp
  qed
  moreover have "N5 z = N z" if "z \<notin> {x, y} \<union> set_tree b" for z using that N4(3) eq3 by (simp add: N5_def)
  ultimately show ?thesis by blast
qed

lemma rotateLeft_links:
  assumes x: "N x = Some xn" "lnk_left xn = a0" "lnk_right xn = y" "tree_at N x a0 a"
    and y: "N y = Some yn" "y \<noteq> 0" "lnk_left yn = b0" "lnk_right yn = c0" "tree_at N y b0 b" "tree_at N y c0 c"
    and d: "x \<noteq> y" "x \<notin> set_tree a \<union> set_tree b \<union> set_tree c" "y \<notin> set_tree a \<union> set_tree b \<union> set_tree c"
      "distinct (inorder b)" "set_tree b \<inter> set_tree a = {}" "set_tree b \<inter> set_tree c = {}" and x0: "x \<noteq> 0"
  shows "\<exists>N'. rotateLeft x (rt, N) = replaceChild (lnk_parent xn) x y rt N' \<and>
    tree_at N' (lnk_parent xn) y \<langle>\<langle>a, x, b\<rangle>, y, c\<rangle> \<and> same_data N N' \<and>
    (\<forall>z. z \<notin> {x, y} \<union> set_tree b \<longrightarrow> N' z = N z)"
proof -
  define N1 where "N1 = N(y \<mapsto> yn\<lparr>lnk_left := x\<rparr>)"
  define N2 where "N2 = N1(x \<mapsto> xn\<lparr>lnk_parent := y\<rparr>)"
  define N3 where "N3 = N2(x \<mapsto> xn\<lparr>lnk_parent := y, lnk_right := b0\<rparr>)"
  have eq2: "N2 z = N z" if "z \<noteq> x" "z \<noteq> y" for z using that by (simp add: N1_def N2_def)
  have eq3: "N3 z = N z" if "z \<noteq> x" "z \<noteq> y" for z using that by (simp add: N1_def N2_def N3_def)
  have tr2: "tree_at N2 q r t = tree_at N q r t" if "x \<notin> set_tree t" "y \<notin> set_tree t" for q r t
    using that by (intro tree_at_cong eq2) auto
  have tr: "tree_at N3 q r t = tree_at N q r t" if "x \<notin> set_tree t" "y \<notin> set_tree t" for q r t
    using that by (intro tree_at_cong eq3) auto
  have b3: "tree_at N3 y b0 b" using y(5) tr d by simp
  obtain N4 where N4: "set_parent b0 x N3 = Some N4" "tree_at N4 x b0 b" "\<forall>z. z \<notin> set_tree b \<longrightarrow> N4 z = N3 z" "same_data N3 N4"
    using set_parent_ok [OF b3 d(4), of x] by blast
  have tr4: "tree_at N4 q r t = tree_at N q r t" if "x \<notin> set_tree t" "y \<notin> set_tree t" "set_tree b \<inter> set_tree t = {}" for q r t
  proof -
    have "tree_at N4 q r t = tree_at N3 q r t" using that N4(3) by (intro tree_at_cong) blast
    then show ?thesis using tr that by simp
  qed
  have N4y: "N4 y = Some (yn\<lparr>lnk_left := x\<rparr>)" using N4(3) d by (simp add: N1_def N2_def N3_def)
  have N4x: "N4 x = Some (xn\<lparr>lnk_parent := y, lnk_right := b0\<rparr>)" using N4(3) d by (simp add: N3_def)
  define N5 where "N5 = N4(y \<mapsto> yn\<lparr>lnk_left := x, lnk_parent := lnk_parent xn\<rparr>)"
  have N2x: "N2 x = Some (xn\<lparr>lnk_parent := y\<rparr>)" and N2y: "N2 y = Some (yn\<lparr>lnk_left := x\<rparr>)" using d(1) by (simp_all add: N1_def N2_def)
  have s1: "upd y (lnk_left_update (\<lambda>_. x)) N = Some N1" using y(1) by (simp add: upd_Some N1_def)
  have s2: "upd x (lnk_parent_update (\<lambda>_. y)) N1 = Some N2" using x(1) d(1) by (simp add: upd_def N1_def N2_def)
  have s3: "upd y (lnk_right_update (\<lambda>_. c0)) N2 = Some N2" using y(4) N2y by (intro upd_same) auto
  have s4: "set_parent c0 y N2 = Some N2" using y(6) tr2 d by (intro set_parent_same [where t = c]) auto
  have s5: "upd x (lnk_left_update (\<lambda>_. a0)) N2 = Some N2" using x(2) N2x by (intro upd_same) auto
  have s6: "set_parent a0 x N2 = Some N2" using x(4) tr2 d by (intro set_parent_same [where t = a]) auto
  have s7: "upd x (lnk_right_update (\<lambda>_. b0)) N2 = Some N3" by (simp add: upd_def N2_def N3_def)
  have s8: "upd y (lnk_parent_update (\<lambda>_. lnk_parent xn)) N4 = Some N5" using N4y by (simp add: upd_Some N5_def)
  have "rotateLeft x (rt, N) = replaceChild (lnk_parent xn) x y rt N5"
    by (simp add: rotateLeft_def Let_def x y s1 s2 s3 s4 s5 s6 s7 N4(1) s8)
  moreover have tr5: "tree_at N5 q r t = tree_at N4 q r t" if "y \<notin> set_tree t" for q r t
    using that by (intro tree_at_cong) (auto simp: N5_def)
  have "tree_at N5 (lnk_parent xn) y \<langle>\<langle>a, x, b\<rangle>, y, c\<rangle>"
    using x y d x0 N4x N4(2) tr4 tr5 by (auto simp: N5_def)
  moreover have "same_data N N5"
  proof -
    have "same_data N N3" using x(1) y(1) by (simp add: same_data_def N1_def N2_def N3_def)
    then have "same_data N N4" using N4(4) same_data_trans by blast
    then show ?thesis using same_data_parent [of N N4 y "yn\<lparr>lnk_left := x\<rparr>"] N4y unfolding N5_def by simp
  qed
  moreover have "N5 z = N z" if "z \<notin> {x, y} \<union> set_tree b" for z using that N4(3) eq3 by (simp add: N5_def)
  ultimately show ?thesis by blast
qed

lemma rotate_in_path:
  assumes t: "linked_tree (rt, N) (plug t c)" and t': "tree_at N' (above c) (root_of t') t'"
    and d: "set_tree t' = set_tree t" "inorder t' = inorder t" "t \<noteq> \<langle>\<rangle>"
    and N': "\<forall>z. z \<notin> set_tree t \<longrightarrow> N' z = N z" "same_data N N'"
  shows "\<exists>rt' N''. replaceChild (above c) (root_of t) (root_of t') rt N' = Some (None, rt', N'') \<and>
    linked_tree (rt', N'') (plug t' c) \<and> same_outside (set_tree (plug t c)) N N''"
proof -
  have dist: "distinct (lefts c @ inorder t @ rights c)" and p: "path_at N rt (root_of t) c"
    using t by (simp_all add: linked_tree_def inorder_plug tree_at_plug)
  have disj: "set_tree t \<inter> path_nodes c = {}" using dist set_lefts_rights [of c] by auto
  have r: "root_of t \<in> set_tree t" using d(3) by (cases t) auto
  have "path_at N' rt (root_of t) c = path_at N rt (root_of t) c" using disj N'(1) by (intro path_at_cong) auto
  then have p': "path_at N' rt (root_of t) c" using p by simp
  have r0: "root_of t \<noteq> 0" using t r tree_at_nonzero [of N "above c" "root_of t" t] by (auto simp: linked_tree_def tree_at_plug)
  have "root_of t \<notin> path_nodes c" "distinct (lefts c @ rights c)" using disj r dist by auto
  from replaceChild_ok [OF p' r0 this, of "root_of t'"] obtain rt' N'' where
    R: "replaceChild (above c) (root_of t) (root_of t') rt N' = Some (None, rt', N'')" "path_at N'' rt' (root_of t') c"
    "\<forall>z. z \<noteq> above c \<or> c = [] \<longrightarrow> N'' z = N' z" "same_data N' N''" by blast
  have "tree_at N'' (above c) (root_of t') t' = tree_at N' (above c) (root_of t') t'"
  proof (rule tree_at_cong)
    fix z assume "z \<in> set_tree t'"
    then have "z \<notin> path_nodes c" using disj d(1) by auto
    then show "N'' z = N' z" using R(3) above_in by metis
  qed
  then have "linked_tree (rt', N'') (plug t' c)"
    using t' R(2) dist d(2) by (simp add: linked_tree_def tree_at_plug inorder_plug)
  moreover have "N'' z = N z" if "z \<notin> set_tree (plug t c)" for z
    using that R(3) N'(1) above_in by (metis UnCI set_plug)
  ultimately show ?thesis using R(1,4) N'(2) same_data_trans unfolding same_outside_def by blast
qed

lemma rotateRight_ok:
  assumes "linked_tree (rt, N) (plug \<langle>\<langle>a, x, b\<rangle>, y, cc\<rangle> c)"
  shows "\<exists>rt' N'. rotateRight y (rt, N) = Some (None, rt', N') \<and> linked_tree (rt', N') (plug \<langle>a, x, \<langle>b, y, cc\<rangle>\<rangle> c) \<and>
    same_outside (set_tree (plug \<langle>\<langle>a, x, b\<rangle>, y, cc\<rangle> c)) N N'"
proof -
  let ?t = "\<langle>\<langle>a, x, b\<rangle>, y, cc\<rangle>" and ?t' = "\<langle>a, x, \<langle>b, y, cc\<rangle>\<rangle>"
  have dist: "distinct (inorder ?t)" and T: "tree_at N (above c) y ?t"
    using assms by (auto simp: linked_tree_def inorder_plug tree_at_plug)
  from T obtain yn xn where y: "N y = Some yn" "lnk_parent yn = above c" "lnk_left yn = x" "tree_at N y (lnk_right yn) cc" "y \<noteq> 0"
    and x: "N x = Some xn" "x \<noteq> 0" "tree_at N x (lnk_left xn) a" "tree_at N x (lnk_right xn) b"
    by (auto split: option.splits)
  have d: "x \<noteq> y" "x \<notin> set_tree a \<union> set_tree b \<union> set_tree cc" "y \<notin> set_tree a \<union> set_tree b \<union> set_tree cc"
      "distinct (inorder b)" "set_tree b \<inter> set_tree a = {}" "set_tree b \<inter> set_tree cc = {}"
    using dist by auto
  from rotateRight_links [OF y(1,3) refl y(4) x(1,2) refl refl x(3,4) d y(5), of rt] obtain N' where
    N': "rotateRight y (rt, N) = replaceChild (above c) y x rt N'" "tree_at N' (above c) x ?t'" "same_data N N'"
      "\<forall>z. z \<notin> {x, y} \<union> set_tree b \<longrightarrow> N' z = N z" unfolding y(2) by blast
  have "tree_at N' (above c) (root_of ?t') ?t'" using N'(2) by (simp only: root_of.simps)
  moreover have "set_tree ?t' = set_tree ?t" "inorder ?t' = inorder ?t" "?t \<noteq> \<langle>\<rangle>" by auto
  moreover have "\<forall>z. z \<notin> set_tree ?t \<longrightarrow> N' z = N z" using N'(4) by auto
  ultimately show ?thesis using rotate_in_path [OF assms, where t' = ?t' and N' = N'] N'(3) unfolding N'(1) root_of.simps by blast
qed

lemma rotateLeft_ok:
  assumes "linked_tree (rt, N) (plug \<langle>a, x, \<langle>b, y, cc\<rangle>\<rangle> c)"
  shows "\<exists>rt' N'. rotateLeft x (rt, N) = Some (None, rt', N') \<and> linked_tree (rt', N') (plug \<langle>\<langle>a, x, b\<rangle>, y, cc\<rangle> c) \<and>
    same_outside (set_tree (plug \<langle>a, x, \<langle>b, y, cc\<rangle>\<rangle> c)) N N'"
proof -
  let ?t = "\<langle>a, x, \<langle>b, y, cc\<rangle>\<rangle>" and ?t' = "\<langle>\<langle>a, x, b\<rangle>, y, cc\<rangle>"
  have dist: "distinct (inorder ?t)" and T: "tree_at N (above c) x ?t"
    using assms by (auto simp: linked_tree_def inorder_plug tree_at_plug)
  from T obtain yn xn where x: "N x = Some xn" "lnk_parent xn = above c" "lnk_right xn = y" "tree_at N x (lnk_left xn) a" "x \<noteq> 0"
    and y: "N y = Some yn" "y \<noteq> 0" "tree_at N y (lnk_left yn) b" "tree_at N y (lnk_right yn) cc"
    by (auto split: option.splits)
  have d: "x \<noteq> y" "x \<notin> set_tree a \<union> set_tree b \<union> set_tree cc" "y \<notin> set_tree a \<union> set_tree b \<union> set_tree cc"
      "distinct (inorder b)" "set_tree b \<inter> set_tree a = {}" "set_tree b \<inter> set_tree cc = {}"
    using dist by auto
  from rotateLeft_links [OF x(1) refl x(3,4) y(1,2) refl refl y(3,4) d x(5), of rt] obtain N' where
    N': "rotateLeft x (rt, N) = replaceChild (above c) x y rt N'" "tree_at N' (above c) y ?t'" "same_data N N'"
      "\<forall>z. z \<notin> {x, y} \<union> set_tree b \<longrightarrow> N' z = N z" unfolding x(2) by blast
  have "tree_at N' (above c) (root_of ?t') ?t'" using N'(2) by (simp only: root_of.simps)
  moreover have "set_tree ?t' = set_tree ?t" "inorder ?t' = inorder ?t" "?t \<noteq> \<langle>\<rangle>" by auto
  moreover have "\<forall>z. z \<notin> set_tree ?t \<longrightarrow> N' z = N z" using N'(4) by auto
  ultimately show ?thesis using rotate_in_path [OF assms, where t' = ?t' and N' = N'] N'(3) unfolding N'(1) root_of.simps by blast
qed

subsection \<open>Keys and priorities\<close>

definition node_key :: "nodes \<Rightarrow> chunk_store \<Rightarrow> uintptr \<Rightarrow> uintptr \<times> uintptr" where
  "node_key N C a =
     (case N a of
        None \<Rightarrow> (0, 0)
      | Some n \<Rightarrow> (npagesKey n, case C (node_chunk n) of None \<Rightarrow> 0 | Some ch \<Rightarrow> chunk_start ch))"

definition prio :: "nodes \<Rightarrow> uintptr \<Rightarrow> uint32" where
  "prio N a = (case N a of None \<Rightarrow> 0 | Some n \<Rightarrow> priority n)"

definition chunk_of :: "nodes \<Rightarrow> uintptr \<Rightarrow> uintptr" where
  "chunk_of N a = (case N a of None \<Rightarrow> 0 | Some n \<Rightarrow> node_chunk n)"

text \<open>A node as \<open>insert\<close> makes it: it holds a chunk, and the size of the chunk is its key.\<close>

definition node_ok :: "nodes \<Rightarrow> chunk_store \<Rightarrow> uintptr \<Rightarrow> bool" where
  "node_ok N C a \<longleftrightarrow> (\<exists>n ch. N a = Some n \<and> node_chunk n \<noteq> 0 \<and> C (node_chunk n) = Some ch \<and> chunk_npages ch = npagesKey n)"

lemma treapNode_data:
  "link.more n = link.more m \<Longrightarrow> npagesKey n = npagesKey m \<and> priority n = priority m \<and> node_chunk n = node_chunk m"
  by (cases n; cases m) simp

lemma same_data_node:
  assumes "same_data N N'"
  shows "(N a = None \<and> N' a = None) \<or> (\<exists>n n'. N a = Some n \<and> N' a = Some n' \<and>
    npagesKey n = npagesKey n' \<and> priority n = priority n' \<and> node_chunk n = node_chunk n')"
proof (cases "N a")
  case None
  then show ?thesis using assms unfolding same_data_def by (metis map_option_is_None)
next
  case (Some n)
  then obtain n' where "N' a = Some n'" "link.more n' = link.more n"
    using assms unfolding same_data_def by (metis (no_types) map_option_eq_Some)
  then show ?thesis using Some treapNode_data by metis
qed

lemma same_data_keys:
  assumes "same_data N N'"
  shows "node_key N' C = node_key N C" "prio N' = prio N" "chunk_of N' = chunk_of N" "node_ok N' C = node_ok N C"
proof -
  have "node_key N' C a = node_key N C a \<and> prio N' a = prio N a \<and> chunk_of N' a = chunk_of N a \<and> node_ok N' C a = node_ok N C a" for a
    using same_data_node [OF assms, of a] unfolding node_key_def prio_def chunk_of_def node_ok_def
    by (elim disjE exE conjE) simp_all
  then show "node_key N' C = node_key N C" "prio N' = prio N" "chunk_of N' = chunk_of N" "node_ok N' C = node_ok N C" by auto
qed

lemma keyLess_trans: "keyLess a b \<Longrightarrow> keyLess b c \<Longrightarrow> keyLess a c"
  by (auto simp: keyLess_def split: if_splits)

lemma keyLess_irrefl [simp]: "\<not> keyLess a a"
  by (simp add: keyLess_def)

lemma keyLess_npages: "keyLess a b \<Longrightarrow> fst a \<le> fst b"
  by (auto simp: keyLess_def split: if_splits)

text \<open>The order of the nodes, and the order of the priorities.\<close>

definition ordered :: "(uintptr \<Rightarrow> uintptr \<times> uintptr) \<Rightarrow> uintptr list \<Rightarrow> bool" where
  "ordered k xs \<longleftrightarrow> sorted_wrt (\<lambda>a b. keyLess (k a) (k b)) xs"

fun heap_at :: "(uintptr \<Rightarrow> uint32) \<Rightarrow> uintptr tree \<Rightarrow> bool" where
  "heap_at p \<langle>\<rangle> = True"
| "heap_at p \<langle>l, x, r\<rangle> = ((\<forall>y \<in> set_tree l \<union> set_tree r. p x \<le> p y) \<and> heap_at p l \<and> heap_at p r)"

text \<open>The heap order along a path whose hole holds the nodes \<open>S\<close>.\<close>

fun heap_path :: "(uintptr \<Rightarrow> uint32) \<Rightarrow> uintptr set \<Rightarrow> step list \<Rightarrow> bool" where
  "heap_path p S [] = True"
| "heap_path p S (InLeft x r # c) =
     ((\<forall>y \<in> S \<union> set_tree r. p x \<le> p y) \<and> heap_at p r \<and> heap_path p (insert x (S \<union> set_tree r)) c)"
| "heap_path p S (InRight l x # c) =
     ((\<forall>y \<in> S \<union> set_tree l. p x \<le> p y) \<and> heap_at p l \<and> heap_path p (insert x (S \<union> set_tree l)) c)"

lemma heap_plug: "heap_at p (plug t c) \<longleftrightarrow> heap_at p t \<and> heap_path p (set_tree t) c"
  by (induction t c rule: plug.induct) (auto simp: Un_commute)

lemma heap_path_mono: "heap_path p S c \<Longrightarrow> S' \<subseteq> S \<Longrightarrow> heap_path p S' c"
proof (induction p S c arbitrary: S' rule: heap_path.induct)
  case (2 p S x r c)
  then show ?case by (auto intro!: "2.IH"(1) [of "insert x (S' \<union> set_tree r)"])
next
  case (3 p S l x c)
  then show ?case by (auto intro!: "3.IH"(1) [of "insert x (S' \<union> set_tree l)"])
qed simp

lemma heap_path_insert: "heap_path p S c \<Longrightarrow> x \<in> S \<Longrightarrow> p x \<le> p t \<Longrightarrow> heap_path p (insert t S) c"
proof (induction p S c rule: heap_path.induct)
  case (2 p S y r c)
  then have "heap_path p (insert t (insert y (S \<union> set_tree r))) c" by auto
  then show ?case using 2 by (auto simp: insert_commute intro: order_trans)
next
  case (3 p S l y c)
  then have "heap_path p (insert t (insert y (S \<union> set_tree l))) c" by auto
  then show ?case using 3 by (auto simp: insert_commute intro: order_trans)
qed simp

subsection \<open>Rotating up and down\<close>

text \<open>The node at \<open>t\<close> is the only one out of place: all else is a heap, also without it.\<close>

definition misplaced :: "(uintptr \<Rightarrow> uint32) \<Rightarrow> uintptr tree \<Rightarrow> uintptr \<Rightarrow> uintptr tree \<Rightarrow> step list \<Rightarrow> bool" where
  "misplaced p l t r c \<longleftrightarrow> heap_at p l \<and> heap_at p r \<and> (\<forall>y \<in> set_tree l \<union> set_tree r. p t \<le> p y) \<and>
     heap_path p (set_tree l \<union> set_tree r) c"

lemma misplaced_left: "misplaced p l t r (InLeft x r' # c) \<Longrightarrow> p t < p x \<Longrightarrow> misplaced p l t \<langle>r, x, r'\<rangle> c"
  unfolding misplaced_def by (auto simp: Un_ac intro: less_imp_le order_less_le_trans)

lemma misplaced_right: "misplaced p l t r (InRight l' x # c) \<Longrightarrow> p t < p x \<Longrightarrow> misplaced p \<langle>l', x, l\<rangle> t r c"
  unfolding misplaced_def by (auto simp: Un_ac intro: less_imp_le order_less_le_trans)

lemma misplaced_stop:
  assumes "misplaced p l t r (st # c)" and px: "p (above (st # c)) \<le> p t"
  shows "heap_at p (plug \<langle>l, t, r\<rangle> (st # c))"
proof (cases st)
  case (InLeft x r')
  have "heap_path p (insert t (insert x (set_tree l \<union> set_tree r \<union> set_tree r'))) c"
    by (rule heap_path_insert [where x = x]) (use assms InLeft in \<open>auto simp: misplaced_def\<close>)
  then have "heap_path p (insert x (insert t (set_tree l \<union> set_tree r) \<union> set_tree r')) c"
    by (simp add: insert_commute)
  then show ?thesis using assms InLeft unfolding heap_plug by (auto simp: misplaced_def Un_ac)
next
  case (InRight l' x)
  have "heap_path p (insert t (insert x (set_tree l \<union> set_tree r \<union> set_tree l'))) c"
    by (rule heap_path_insert [where x = x]) (use assms InRight in \<open>auto simp: misplaced_def\<close>)
  then have "heap_path p (insert x (insert t (set_tree l \<union> set_tree r) \<union> set_tree l')) c"
    by (simp add: insert_commute)
  then show ?thesis using assms InRight unfolding heap_plug by (auto simp: misplaced_def Un_ac)
qed

text \<open>
  After \<open>rotateUp\<close> the nodes are in the same order and the priorities are a heap.
\<close>

definition rotated_up :: "chunk_store \<Rightarrow> uintptr \<Rightarrow> uintptr \<times> nodes \<Rightarrow> uintptr tree \<Rightarrow> bool" where
  "rotated_up C t rN T \<longleftrightarrow> (\<exists>rt' N' T'. rotateUp C t rN = Some (None, rt', N') \<and> linked_tree (rt', N') T' \<and>
     inorder T' = inorder T \<and> heap_at (prio N') T' \<and> same_outside (set_tree T) (snd rN) N')"

lemma rotated_up_stop:
  assumes "linked_tree (rt, N) T" and "heap_at (prio N) T" and "rotateUp C t (rt, N) = Some (None, rt, N)"
  shows "rotated_up C t (rt, N) T"
  unfolding rotated_up_def using assms by (intro exI [of _ rt] exI [of _ N] exI [of _ T]) (simp add: same_outside_def)

lemma rotated_up_go:
  assumes "rotateUp C t (rt, N) = rotateUp C t (rt1, N1)" and "rotated_up C t (rt1, N1) T1"
    and "same_outside (set_tree T) N N1" and "inorder T1 = inorder T"
  shows "rotated_up C t (rt, N) T"
proof -
  from assms(2) obtain rt' N' T' where T: "rotateUp C t (rt1, N1) = Some (None, rt', N')" "linked_tree (rt', N') T'"
    "inorder T' = inorder T1" "heap_at (prio N') T'" "same_outside (set_tree T1) N1 N'"
    unfolding rotated_up_def by auto
  have "set_tree T1 = set_tree T" using assms(4) by (metis set_inorder)
  then have "same_outside (set_tree T) N N'" using same_outside_trans [OF assms(3)] T(5) by simp
  then show ?thesis using T assms(1,4) unfolding rotated_up_def by auto
qed

lemma rotateUp_ok:
  assumes "linked_tree (rt, N) (plug \<langle>l, t, r\<rangle> c)" and "node_ok N C t" and "misplaced (prio N) l t r c"
  shows "rotated_up C t (rt, N) (plug \<langle>l, t, r\<rangle> c)"
  using assms
proof (induction c arbitrary: l r rt N)
  case Nil
  then obtain n where n: "N t = Some n" "lnk_parent n = 0" by (auto simp: linked_tree_def split: option.splits)
  then have "rotateUp C t (rt, N) = Some (None, rt, N)" by (simp add: rotateUp.simps [of C])
  then show ?case using Nil by (intro rotated_up_stop) (auto simp: misplaced_def)
next
  case (Cons st c)
  let ?T = "plug \<langle>l, t, r\<rangle> (st # c)"
  have tp: "path_at N rt t (st # c)" "tree_at N (above (st # c)) t \<langle>l, t, r\<rangle>" and dist: "distinct (inorder ?T)"
    using Cons.prems(1) by (simp_all add: linked_tree_def tree_at_plug)
  obtain n ch where n: "N t = Some n" "lnk_parent n = above (st # c)" "t \<noteq> 0"
    and ch: "C (node_chunk n) = Some ch" "chunk_npages ch = npagesKey n"
    using tp(2) Cons.prems(2) by (auto simp: node_ok_def split: option.splits)
  obtain p where p: "N (above (st # c)) = Some p" "above (st # c) \<noteq> 0" "lnk_left p = t \<or> lnk_right p = t"
    using tp(1) by (cases st) (auto split: option.splits)
  have pr: "prio N t = priority n" "prio N (above (st # c)) = priority p" using n(1) p(1) by (simp_all add: prio_def)
  show ?case
  proof (cases "priority p > priority n")
    case False
    then have "rotateUp C t (rt, N) = Some (None, rt, N)" using n p by (simp add: rotateUp.simps [of C t "(rt, N)"])
    then show ?thesis using misplaced_stop [OF Cons.prems(3)] False pr Cons.prems(1) by (intro rotated_up_stop) auto
  next
    case True
    show ?thesis
    proof (cases st)
      case (InLeft x r')
      then have "lnk_left p = t" using tp(1) p(1) by auto
      have "linked_tree (rt, N) (plug \<langle>\<langle>l, t, r\<rangle>, x, r'\<rangle> c)" using Cons.prems(1) InLeft by simp
      from rotateRight_ok [OF this] obtain rt1 N1 where R: "rotateRight x (rt, N) = Some (None, rt1, N1)"
        "linked_tree (rt1, N1) (plug \<langle>l, t, \<langle>r, x, r'\<rangle>\<rangle> c)" "same_outside (set_tree ?T) N N1" using InLeft by auto
      have sd: "node_ok N1 C = node_ok N C" "prio N1 = prio N" using R(3) same_data_keys unfolding same_outside_def by auto
      have "misplaced (prio N1) l t \<langle>r, x, r'\<rangle> c" using misplaced_left Cons.prems(3) True pr InLeft sd(2) by auto
      then have "rotated_up C t (rt1, N1) (plug \<langle>l, t, \<langle>r, x, r'\<rangle>\<rangle> c)" using R(2) Cons.prems(2) sd by (intro Cons.IH) auto
      moreover have "rotateUp C t (rt, N) = rotateUp C t (rt1, N1)"
        using n p(1,2) \<open>lnk_left p = t\<close> ch True R(1) by (subst rotateUp.simps) (simp add: InLeft)
      moreover have "inorder (plug \<langle>l, t, \<langle>r, x, r'\<rangle>\<rangle> c) = inorder ?T" using InLeft by (simp add: inorder_plug)
      ultimately show ?thesis using rotated_up_go R(3) by metis
    next
      case (InRight l' x)
      then have "lnk_right p = t" "tree_at N x (lnk_left p) l'" "t \<notin> set_tree l'"
        using tp(1) p(1) dist by (auto simp: inorder_plug)
      then have lp: "lnk_left p \<noteq> t" using tree_at_root [of N x "lnk_left p" l'] n(3) by (cases l') auto
      have "linked_tree (rt, N) (plug \<langle>l', x, \<langle>l, t, r\<rangle>\<rangle> c)" using Cons.prems(1) InRight by simp
      from rotateLeft_ok [OF this] obtain rt1 N1 where R: "rotateLeft x (rt, N) = Some (None, rt1, N1)"
        "linked_tree (rt1, N1) (plug \<langle>\<langle>l', x, l\<rangle>, t, r\<rangle> c)" "same_outside (set_tree ?T) N N1" using InRight by auto
      have sd: "node_ok N1 C = node_ok N C" "prio N1 = prio N" using R(3) same_data_keys unfolding same_outside_def by auto
      have "misplaced (prio N1) \<langle>l', x, l\<rangle> t r c" using misplaced_right Cons.prems(3) True pr InRight sd(2) by auto
      then have "rotated_up C t (rt1, N1) (plug \<langle>\<langle>l', x, l\<rangle>, t, r\<rangle> c)" using R(2) Cons.prems(2) sd by (intro Cons.IH) auto
      moreover have "rotateUp C t (rt, N) = rotateUp C t (rt1, N1)"
        using n p(1,2) lp \<open>lnk_right p = t\<close> ch True R(1) by (subst rotateUp.simps) (simp add: InRight)
      moreover have "inorder (plug \<langle>\<langle>l', x, l\<rangle>, t, r\<rangle> c) = inorder ?T" using InRight by (simp add: inorder_plug)
      ultimately show ?thesis using rotated_up_go R(3) by metis
    qed
  qed
qed

text \<open>The tree that rotating a node down to a leaf and cutting it off leaves of its subtrees.\<close>

fun merge :: "(uintptr \<Rightarrow> uint32) \<Rightarrow> uintptr tree \<Rightarrow> uintptr tree \<Rightarrow> uintptr tree" where
  "merge p \<langle>\<rangle> \<langle>\<rangle> = \<langle>\<rangle>"
| "merge p \<langle>a, x, b\<rangle> \<langle>\<rangle> = \<langle>a, x, merge p b \<langle>\<rangle>\<rangle>"
| "merge p \<langle>\<rangle> \<langle>b, y, c\<rangle> = \<langle>merge p \<langle>\<rangle> b, y, c\<rangle>"
| "merge p \<langle>a, x, b\<rangle> \<langle>b', y, c\<rangle> =
     (if p x < p y then \<langle>a, x, merge p b \<langle>b', y, c\<rangle>\<rangle> else \<langle>merge p \<langle>a, x, b\<rangle> b', y, c\<rangle>)"

lemma inorder_merge: "inorder (merge p l r) = inorder l @ inorder r"
  by (induction p l r rule: merge.induct) auto

lemma set_merge: "set_tree (merge p l r) = set_tree l \<union> set_tree r"
  using inorder_merge [of p l r] by (metis set_append set_inorder)

lemma heap_merge: "heap_at p l \<Longrightarrow> heap_at p r \<Longrightarrow> heap_at p (merge p l r)"
proof (induction p l r rule: merge.induct)
  case (4 p a x b b' y c)
  show ?case
  proof (cases "p x < p y")
    case True
    moreover have "\<forall>z \<in> insert y (set_tree b' \<union> set_tree c). p y \<le> p z" using 4(4) by auto
    ultimately have "\<forall>z \<in> insert y (set_tree b' \<union> set_tree c). p x \<le> p z" by (meson less_imp_le order_trans)
    then show ?thesis using 4 True by (auto simp: set_merge)
  next
    case False
    then have "\<forall>z \<in> insert x (set_tree a \<union> set_tree b). p y \<le> p z" using 4(3) by (auto simp: not_less intro: order_trans)
    then show ?thesis using 4 False by (auto simp: set_merge)
  qed
qed (auto simp: set_merge)

text \<open>One rotation, and what the rest of the loop does by induction.\<close>

lemma rotateDown_step:
  assumes "rotateDown t (rt, N) = rotateDown t (rt1, N1)" and "same_outside A N N1" and "A' = A"
    and "\<exists>rt' N' c'. rotateDown t (rt1, N1) = Some (rt', N') \<and> linked_tree (rt', N') (plug \<langle>\<langle>\<rangle>, t, \<langle>\<rangle>\<rangle> c') \<and>
      plug \<langle>\<rangle> c' = T \<and> same_outside A' N1 N'"
  shows "\<exists>rt' N' c'. rotateDown t (rt, N) = Some (rt', N') \<and> linked_tree (rt', N') (plug \<langle>\<langle>\<rangle>, t, \<langle>\<rangle>\<rangle> c') \<and>
      plug \<langle>\<rangle> c' = T \<and> same_outside A N N'"
proof -
  from assms(4) obtain rt' N' c' where D: "rotateDown t (rt1, N1) = Some (rt', N')"
    "linked_tree (rt', N') (plug \<langle>\<langle>\<rangle>, t, \<langle>\<rangle>\<rangle> c')" "plug \<langle>\<rangle> c' = T" "same_outside A' N1 N'" by blast
  have "same_outside A N N'" by (rule same_outside_trans [OF assms(2) D(4) [unfolded assms(3)]])
  then show ?thesis using D(1-3) unfolding assms(1) by blast
qed

lemma rotateDown_ok:
  assumes "linked_tree (rt, N) (plug \<langle>l, t, r\<rangle> c)" and "p = prio N"
  shows "\<exists>rt' N' c'. rotateDown t (rt, N) = Some (rt', N') \<and> linked_tree (rt', N') (plug \<langle>\<langle>\<rangle>, t, \<langle>\<rangle>\<rangle> c') \<and>
    plug \<langle>\<rangle> c' = plug (merge p l r) c \<and> same_outside (set_tree (plug \<langle>l, t, r\<rangle> c)) N N'"
  using assms
proof (induction p l r arbitrary: rt N c rule: merge.induct)
  case (1 p)
  then have "tree_at N (above c) t \<langle>\<langle>\<rangle>, t, \<langle>\<rangle>\<rangle>" by (simp add: linked_tree_def tree_at_plug)
  then obtain n where "N t = Some n" "lnk_left n = 0" "lnk_right n = 0" by (auto split: option.splits)
  then have "rotateDown t (rt, N) = Some (rt, N)" by (simp add: rotateDown.simps [of t])
  then show ?case using 1 by (auto simp: same_outside_def)
next
  case (2 p a x b)
  then have "tree_at N (above c) t \<langle>\<langle>a, x, b\<rangle>, t, \<langle>\<rangle>\<rangle>" by (simp add: linked_tree_def tree_at_plug)
  then obtain n where n: "N t = Some n" "lnk_left n \<noteq> 0" "lnk_right n = 0" by (auto split: option.splits)
  from rotateRight_ok [OF 2(2)] obtain rt1 N1 where R: "rotateRight t (rt, N) = Some (None, rt1, N1)"
    "linked_tree (rt1, N1) (plug \<langle>b, t, \<langle>\<rangle>\<rangle> (InRight a x # c))" "same_outside (set_tree (plug \<langle>\<langle>a, x, b\<rangle>, t, \<langle>\<rangle>\<rangle> c)) N N1" by auto
  have p: "p = prio N1" using same_data_keys(2) R(3) 2(3) unfolding same_outside_def by metis
  have go: "rotateDown t (rt, N) = rotateDown t (rt1, N1)" using n  R(1) by (simp add: rotateDown.simps [of t "(rt, N)"])
  have "set_tree (plug \<langle>b, t, \<langle>\<rangle>\<rangle> (InRight a x # c)) = set_tree (plug \<langle>\<langle>a, x, b\<rangle>, t, \<langle>\<rangle>\<rangle> c)" by (auto simp: set_plug)
  from rotateDown_step [OF go R(3) this 2(1) [OF R(2) p]] show ?case by simp
next
  case (3 p b y d)
  then have "tree_at N (above c) t \<langle>\<langle>\<rangle>, t, \<langle>b, y, d\<rangle>\<rangle>" by (simp add: linked_tree_def tree_at_plug)
  then obtain n where n: "N t = Some n" "lnk_left n = 0" "lnk_right n \<noteq> 0" by (auto split: option.splits)
  from rotateLeft_ok [OF 3(2)] obtain rt1 N1 where R: "rotateLeft t (rt, N) = Some (None, rt1, N1)"
    "linked_tree (rt1, N1) (plug \<langle>\<langle>\<rangle>, t, b\<rangle> (InLeft y d # c))" "same_outside (set_tree (plug \<langle>\<langle>\<rangle>, t, \<langle>b, y, d\<rangle>\<rangle> c)) N N1" by auto
  have p: "p = prio N1" using same_data_keys(2) R(3) 3(3) unfolding same_outside_def by metis
  have go: "rotateDown t (rt, N) = rotateDown t (rt1, N1)" using n  R(1) by (simp add: rotateDown.simps [of t "(rt, N)"])
  have "set_tree (plug \<langle>\<langle>\<rangle>, t, b\<rangle> (InLeft y d # c)) = set_tree (plug \<langle>\<langle>\<rangle>, t, \<langle>b, y, d\<rangle>\<rangle> c)" by (auto simp: set_plug)
  from rotateDown_step [OF go R(3) this 3(1) [OF R(2) p]] show ?case by simp
next
  case (4 p a x b b' y d)
  then have "tree_at N (above c) t \<langle>\<langle>a, x, b\<rangle>, t, \<langle>b', y, d\<rangle>\<rangle>" by (simp add: linked_tree_def tree_at_plug)
  then obtain n xn yn where n: "N t = Some n" "lnk_left n = x" "lnk_right n = y" "x \<noteq> 0" "y \<noteq> 0" "N x = Some xn" "N y = Some yn"
    by (auto split: option.splits)
  have pr: "p x = priority xn" "p y = priority yn" using n 4(4) by (simp_all add: prio_def)
  show ?case
  proof (cases "p x < p y")
    case True
    from rotateRight_ok [OF 4(3)] obtain rt1 N1 where R: "rotateRight t (rt, N) = Some (None, rt1, N1)"
      "linked_tree (rt1, N1) (plug \<langle>b, t, \<langle>b', y, d\<rangle>\<rangle> (InRight a x # c))" "same_outside (set_tree (plug \<langle>\<langle>a, x, b\<rangle>, t, \<langle>b', y, d\<rangle>\<rangle> c)) N N1" by auto
    have p: "p = prio N1" using same_data_keys(2) R(3) 4(4) unfolding same_outside_def by metis
    have go: "rotateDown t (rt, N) = rotateDown t (rt1, N1)" using n pr True R(1) by (simp add: rotateDown.simps [of t "(rt, N)"])
    have "set_tree (plug \<langle>b, t, \<langle>b', y, d\<rangle>\<rangle> (InRight a x # c)) = set_tree (plug \<langle>\<langle>a, x, b\<rangle>, t, \<langle>b', y, d\<rangle>\<rangle> c)" by (auto simp: set_plug)
    from rotateDown_step [OF go R(3) this 4(1) [OF True R(2) p]] show ?thesis by (simp add: True)
  next
    case False
    from rotateLeft_ok [OF 4(3)] obtain rt1 N1 where R: "rotateLeft t (rt, N) = Some (None, rt1, N1)"
      "linked_tree (rt1, N1) (plug \<langle>\<langle>a, x, b\<rangle>, t, b'\<rangle> (InLeft y d # c))" "same_outside (set_tree (plug \<langle>\<langle>a, x, b\<rangle>, t, \<langle>b', y, d\<rangle>\<rangle> c)) N N1" by auto
    have p: "p = prio N1" using same_data_keys(2) R(3) 4(4) unfolding same_outside_def by metis
    have go: "rotateDown t (rt, N) = rotateDown t (rt1, N1)" using n pr False R(1) by (simp add: rotateDown.simps [of t "(rt, N)"])
    have "set_tree (plug \<langle>\<langle>a, x, b\<rangle>, t, b'\<rangle> (InLeft y d # c)) = set_tree (plug \<langle>\<langle>a, x, b\<rangle>, t, \<langle>b', y, d\<rangle>\<rangle> c)" by (auto simp: set_plug)
    from rotateDown_step [OF go R(3) this 4(2) [OF False R(2) p]] show ?thesis by (simp add: False)
  qed
qed

lemma unlink_ok:
  assumes "linked_tree (rt, N) (plug \<langle>\<langle>\<rangle>, t, \<langle>\<rangle>\<rangle> c)"
  shows "\<exists>rt' N'. unlink t (rt, N) = Some (rt', N') \<and> linked_tree (rt', N') (plug \<langle>\<rangle> c) \<and>
    same_outside (set_tree (plug \<langle>\<rangle> c)) N N'"
proof -
  have p: "path_at N rt t c" and dist: "distinct (lefts c @ [t] @ rights c)" and "tree_at N (above c) t \<langle>\<langle>\<rangle>, t, \<langle>\<rangle>\<rangle>"
    using assms by (simp_all add: linked_tree_def tree_at_plug inorder_plug)
  then obtain n where n: "N t = Some n" "lnk_parent n = above c" "t \<noteq> 0" by (auto split: option.splits)
  have pl: "linked_tree (rt', N') (plug \<langle>\<rangle> c) \<longleftrightarrow> path_at N' rt' 0 c" for rt' N'
    using dist by (simp add: linked_tree_def tree_at_plug inorder_plug)
  show ?thesis
  proof (cases "c = []")
    case True
    then show ?thesis using n by (simp add: unlink_def linked_tree_def same_outside_def)
  next
    case False
    then have up: "above c \<noteq> 0" using above_in [of c] path_at_nonzero [OF p] by metis
    from path_replace [OF p _ False, of 0] dist obtain m where m: "N (above c) = Some m"
      and L: "\<forall>x r d. c = InLeft x r # d \<longrightarrow> lnk_left m = t \<and> path_at (N(above c \<mapsto> m\<lparr>lnk_left := 0\<rparr>)) rt 0 c"
      and R: "\<forall>l x d. c = InRight l x # d \<longrightarrow> lnk_right m = t \<and> lnk_left m = root_of l \<and> path_at (N(above c \<mapsto> m\<lparr>lnk_right := 0\<rparr>)) rt 0 c"
      by auto
    have out: "same_outside (set_tree (plug \<langle>\<rangle> c)) N (N(above c \<mapsto> m'))" if "link.more m' = link.more m" for m'
      using above_in [OF False] m that same_data_upd [of N N "above c" m m'] by (auto simp: same_outside_def set_plug)
    show ?thesis
    proof (cases c rule: above.cases)
      case (2 x r d)
      then have "unlink t (rt, N) = Some (rt, N(above c \<mapsto> m\<lparr>lnk_left := 0\<rparr>))"
        using n up m L by (simp add: unlink_def upd_Some Let_def)
      then show ?thesis using L 2 out [of "m\<lparr>lnk_left := 0\<rparr>"] unfolding pl by auto
    next
      case (3 l x d)
      then have "lnk_left m \<noteq> t" using R n(3) dist by (cases l) auto
      then have "unlink t (rt, N) = Some (rt, N(above c \<mapsto> m\<lparr>lnk_right := 0\<rparr>))"
        using n up m 3 by (simp add: unlink_def upd_Some Let_def)
      then show ?thesis using R 3 out [of "m\<lparr>lnk_right := 0\<rparr>"] unfolding pl by auto
    qed (use False in simp)
  qed
qed

subsection \<open>Searching\<close>

lemma find_append: "List.find P (xs @ ys) = (case List.find P xs of None \<Rightarrow> List.find P ys | Some x \<Rightarrow> Some x)"
  by (induction xs) auto

text \<open>\<open>find\<close> returns the first node, in order, with enough pages.\<close>

lemma findFrom_ok:
  assumes "tree_at N q a t" and "\<forall>x \<in> set_tree t. chunk_of N x \<noteq> 0"
    and "ordered (node_key N C) (inorder t)"
  shows "findFrom N np best a = Some (case List.find (\<lambda>x. np \<le> fst (node_key N C x)) (inorder t) of
     Some x \<Rightarrow> Inr x | None \<Rightarrow> if best = 0 then Inl EmptyError else Inr best)"
  using assms
proof (induction t arbitrary: q a best)
  case Leaf
  then show ?case by (simp add: findFrom.simps [of N])
next
  case (Node l x r)
  then obtain n where n: "N x = Some n" "a = x" "x \<noteq> 0" "node_chunk n \<noteq> 0"
    and sub: "tree_at N x (lnk_left n) l" "tree_at N x (lnk_right n) r"
    by (auto simp: chunk_of_def split: option.splits)
  have o: "ordered (node_key N C) (inorder l)" "ordered (node_key N C) (inorder r)"
    "\<forall>y \<in> set (inorder l). keyLess (node_key N C y) (node_key N C x)"
    using Node.prems(3) by (auto simp: ordered_def sorted_wrt_append)
  have kx: "fst (node_key N C x) = npagesKey n" using n(1) by (simp add: node_key_def)
  show ?case
  proof (cases "np \<le> npagesKey n")
    case True
    then have "findFrom N np best a = findFrom N np x (lnk_left n)"
      using n by (simp add: findFrom.simps [of N np best])
    also have "\<dots> = Some (case List.find (\<lambda>x. np \<le> fst (node_key N C x)) (inorder l) of Some y \<Rightarrow> Inr y | None \<Rightarrow> Inr x)"
      using Node.IH(1) [OF sub(1) _ o(1), of x] Node.prems(2) n(3) by simp
    finally show ?thesis using True kx by (simp add: find_append split: option.split)
  next
    case False
    then have "findFrom N np best a = findFrom N np best (lnk_right n)"
      using n by (simp add: findFrom.simps [of N np best])
    moreover have "List.find (\<lambda>x. np \<le> fst (node_key N C x)) (inorder l) = None"
    proof -
      have "\<not> np \<le> fst (node_key N C y)" if "y \<in> set (inorder l)" for y
        using keyLess_npages [of "node_key N C y" "node_key N C x"] o(3) that False kx by auto
      then show ?thesis by (simp add: find_None_iff)
    qed
    ultimately show ?thesis
      using Node.IH(2) [OF sub(2) _ o(2), of best] Node.prems(2) False kx by (simp add: find_append)
  qed
qed

fun place_of :: "step list \<Rightarrow> place" where
  "place_of [] = Root"
| "place_of (InLeft x r # c) = LeftOf x"
| "place_of (InRight l x # c) = RightOf x"

text \<open>The search of \<open>insert\<close> ends at the one place where the key fits, or finds the key.\<close>

lemma insertPlace_ok:
  assumes "tree_at N (above c) a t" and "ordered (node_key N C) (inorder t)"
    and "\<forall>x \<in> set_tree t. node_ok N C x"
    and "\<forall>x \<in> set (lefts c). keyLess (node_key N C x) (np, base)"
    and "\<forall>x \<in> set (rights c). keyLess (np, base) (node_key N C x)"
  shows "((\<exists>x \<in> set_tree t. node_key N C x = (np, base)) \<and>
      insertPlace N C np base (above c) (place_of c) a = Some (Inl ErrInTreap)) \<or>
    (\<exists>c'. insertPlace N C np base (above c) (place_of c) a = Some (Inr (above c', place_of c')) \<and>
      plug \<langle>\<rangle> c' = plug t c \<and> (\<forall>x \<in> set (lefts c'). keyLess (node_key N C x) (np, base)) \<and>
      (\<forall>x \<in> set (rights c'). keyLess (np, base) (node_key N C x)))"
  using assms
proof (induction t arbitrary: c a)
  case Leaf
  then show ?case by (intro disjI2 exI [of _ c]) (simp add: insertPlace.simps [of N])
next
  case (Node l x r)
  then obtain n ch where n: "N x = Some n" "a = x" "x \<noteq> 0"
    and sub: "tree_at N x (lnk_left n) l" "tree_at N x (lnk_right n) r"
    and ch: "C (node_chunk n) = Some ch" "chunk_npages ch = npagesKey n"
    by (auto simp: node_ok_def split: option.splits)
  have o: "ordered (node_key N C) (inorder l)" "ordered (node_key N C) (inorder r)"
    "\<forall>y \<in> set (inorder l). keyLess (node_key N C y) (node_key N C x)"
    "\<forall>y \<in> set (inorder r). keyLess (node_key N C x) (node_key N C y)"
    using Node.prems(2) by (auto simp: ordered_def sorted_wrt_append)
  have kx: "node_key N C x = (npagesKey n, chunk_start ch)" using n(1) ch(1) by (simp add: node_key_def)
  have step: "insertPlace N C np base q p a =
      (if npagesKey n < np then insertPlace N C np base x (RightOf x) (lnk_right n)
       else if npagesKey n > np then insertPlace N C np base x (LeftOf x) (lnk_left n)
       else if chunk_start ch < base then insertPlace N C np base x (RightOf x) (lnk_right n)
       else if chunk_start ch > base then insertPlace N C np base x (LeftOf x) (lnk_left n)
       else Some (Inl ErrInTreap))" for q p
    unfolding n(2) using n(1,3) ch by (subst insertPlace.simps) simp
  have l: "?case" if k: "keyLess (np, base) (node_key N C x)"
  proof -
    have "insertPlace N C np base (above c) (place_of c) a =
      insertPlace N C np base (above (InLeft x r # c)) (place_of (InLeft x r # c)) (lnk_left n)"
      using k unfolding kx keyLess_def step by (auto split: if_splits)
    moreover have "\<forall>y \<in> set (rights (InLeft x r # c)). keyLess (np, base) (node_key N C y)"
      using k o(4) Node.prems(5) by (auto intro: keyLess_trans [OF k])
    ultimately show ?thesis
      using Node.IH(1) [of "InLeft x r # c" "lnk_left n"] sub(1) o(1) Node.prems(3,4) by auto
  qed
  have r: "?case" if k: "keyLess (node_key N C x) (np, base)"
  proof -
    have "insertPlace N C np base (above c) (place_of c) a =
      insertPlace N C np base (above (InRight l x # c)) (place_of (InRight l x # c)) (lnk_right n)"
      using k unfolding kx keyLess_def step by (auto split: if_splits)
    moreover have "\<forall>y \<in> set (lefts (InRight l x # c)). keyLess (node_key N C y) (np, base)"
      using k o(3) Node.prems(4) by (auto intro: keyLess_trans [OF _ k])
    ultimately show ?thesis
      using Node.IH(2) [of "InRight l x # c" "lnk_right n"] sub(2) o(2) Node.prems(3,5) by auto
  qed
  have e: "?case" if k: "node_key N C x = (np, base)"
    using k unfolding kx by (intro disjI1) (simp add: step kx)
  have "keyLess (np, base) (node_key N C x) \<or> keyLess (node_key N C x) (np, base) \<or> node_key N C x = (np, base)"
    unfolding kx keyLess_def by auto
  then show ?case using l r e by blast
qed

text \<open>Writing a new leaf to the place found.\<close>

lemma writePlace_ok:
  assumes "linked_tree (rt, N) (plug \<langle>\<rangle> c)" and "t \<noteq> 0" and "t \<notin> path_nodes c"
    and "lnk_left n = 0" "lnk_right n = 0" "lnk_parent n = above c"
  shows "\<exists>rt' N'. writePlace (place_of c) t (rt, N(t \<mapsto> n)) = Some (rt', N') \<and>
    linked_tree (rt', N') (plug \<langle>\<langle>\<rangle>, t, \<langle>\<rangle>\<rangle> c) \<and> same_outside (set_tree (plug \<langle>\<rangle> c)) (N(t \<mapsto> n)) N'"
proof -
  let ?N = "N(t \<mapsto> n)"
  have dist: "distinct (lefts c @ rights c)" and "path_at N rt 0 c"
    using assms(1) by (simp_all add: linked_tree_def inorder_plug tree_at_plug)
  moreover have "path_at ?N rt 0 c = path_at N rt 0 c" using assms(3) by (intro path_at_cong) auto
  ultimately have p: "path_at ?N rt 0 c" by simp
  have tp: "linked_tree (rt', N') (plug \<langle>\<langle>\<rangle>, t, \<langle>\<rangle>\<rangle> c)" if "path_at N' rt' t c" "N' t = Some n" for rt' N'
    using that assms dist set_lefts_rights [of c] by (auto simp: linked_tree_def inorder_plug tree_at_plug)
  show ?thesis
  proof (cases "c = []")
    case True
    then show ?thesis using tp [of ?N t] by (auto simp: writePlace_def same_outside_def)
  next
    case False
    from path_replace [OF p dist False, of t] obtain m where m: "?N (above c) = Some m"
      and L: "\<forall>x r d. c = InLeft x r # d \<longrightarrow> lnk_left m = 0 \<and> path_at (?N(above c \<mapsto> m\<lparr>lnk_left := t\<rparr>)) rt t c"
      and R: "\<forall>l x d. c = InRight l x # d \<longrightarrow> lnk_right m = 0 \<and> lnk_left m = root_of l \<and> path_at (?N(above c \<mapsto> m\<lparr>lnk_right := t\<rparr>)) rt t c"
      by auto
    have ne: "above c \<noteq> t" using above_in [OF False] assms(3) by auto
    have out: "same_outside (set_tree (plug \<langle>\<rangle> c)) ?N (?N(above c \<mapsto> m'))" if "link.more m' = link.more m" for m'
      using above_in [OF False] m that same_data_upd [of ?N ?N "above c" m m'] by (auto simp: same_outside_def set_plug)
    show ?thesis
    proof (cases c rule: above.cases)
      case (2 x r d)
      then have "writePlace (place_of c) t (rt, ?N) = Some (rt, ?N(above c \<mapsto> m\<lparr>lnk_left := t\<rparr>))"
        using m by (simp add: writePlace_def upd_Some)
      moreover have "linked_tree (rt, ?N(above c \<mapsto> m\<lparr>lnk_left := t\<rparr>)) (plug \<langle>\<langle>\<rangle>, t, \<langle>\<rangle>\<rangle> c)" using L 2 ne by (intro tp) auto
      ultimately show ?thesis using out [of "m\<lparr>lnk_left := t\<rparr>"] by auto
    next
      case (3 l x d)
      then have "writePlace (place_of c) t (rt, ?N) = Some (rt, ?N(above c \<mapsto> m\<lparr>lnk_right := t\<rparr>))"
        using m by (simp add: writePlace_def upd_Some)
      moreover have "linked_tree (rt, ?N(above c \<mapsto> m\<lparr>lnk_right := t\<rparr>)) (plug \<langle>\<langle>\<rangle>, t, \<langle>\<rangle>\<rangle> c)" using R 3 ne by (intro tp) auto
      ultimately show ?thesis using out [of "m\<lparr>lnk_right := t\<rparr>"] by auto
    qed (use False in simp)
  qed
qed

end
