(* ===== verification/TreapSpec.thy ===== *)
theory TreapSpec
  imports Treap
begin

text \<open>
  The treap of free chunks as a refinement of a list ordered by key: \<open>find\<close> is the first fit in that
  list, \<open>insert\<close> an ordered insertion, \<open>removeNode\<close> the removal of one element, \<open>succ\<close> and
  \<open>pred\<close> the neighbours.
\<close>

subsection \<open>The treap of a state\<close>

text \<open>
  The treap refines the list of its chunks in key order: by pages, then by address. \<open>treap_ok\<close>
  relates a state to the shape of its tree; the nodes lie in memory the metadata pool has handed
  out, so a new node is none of them.
\<close>

definition chunk_key :: "chunk_store \<Rightarrow> uintptr \<Rightarrow> uintptr \<times> uintptr" where
  "chunk_key C c = (case C c of None \<Rightarrow> (0, 0) | Some ch \<Rightarrow> (chunk_npages ch, chunk_start ch))"

definition treap_ok :: "'a treap_state_scheme \<Rightarrow> uintptr tree \<Rightarrow> bool" where
  "treap_ok s T \<longleftrightarrow> linked_tree (treap s, treap_nodes s) T \<and>
     ordered (node_key (treap_nodes s) (chunks s)) (inorder T) \<and> heap_at (prio (treap_nodes s)) T \<and>
     (\<forall>x \<in> set_tree T. node_ok (treap_nodes s) (chunks s) x) \<and> set_tree T \<subseteq> pool_used s"

definition treap_rep :: "'a treap_state_scheme \<Rightarrow> uintptr list \<Rightarrow> bool" where
  "treap_rep s cs \<longleftrightarrow> (\<exists>T. treap_ok s T \<and> cs = map (chunk_of (treap_nodes s)) (inorder T))"

lemma node_okE:
  assumes "node_ok N C x"
  obtains n ch where "N x = Some n" "node_chunk n \<noteq> 0" "C (node_chunk n) = Some ch" "chunk_npages ch = npagesKey n"
  using assms unfolding node_ok_def by blast

lemma node_key_chunk: "node_ok N C x \<Longrightarrow> node_key N C x = chunk_key C (chunk_of N x) \<and> chunk_of N x \<noteq> 0 \<and> C (chunk_of N x) \<noteq> None"
  by (auto simp: node_ok_def node_key_def chunk_key_def chunk_of_def)

lemma ordered_cong: "\<forall>x \<in> set xs. k x = k' x \<Longrightarrow> ordered k xs = ordered k' xs"
  unfolding ordered_def by (induction xs) auto

lemma ordered_map: "ordered k (map f xs) = ordered (k \<circ> f) xs"
  by (simp add: ordered_def sorted_wrt_map)

lemma treap_rep_sorted:
  assumes "treap_rep s cs"
  shows "ordered (chunk_key (chunks s)) cs" and "\<forall>c \<in> set cs. c \<noteq> 0 \<and> chunks s c \<noteq> None" and "distinct cs"
proof -
  from assms obtain T where T: "treap_ok s T" and cs: "cs = map (chunk_of (treap_nodes s)) (inorder T)"
    unfolding treap_rep_def by blast
  have k: "\<forall>x \<in> set (inorder T). node_key (treap_nodes s) (chunks s) x = chunk_key (chunks s) (chunk_of (treap_nodes s) x)"
    using T node_key_chunk unfolding treap_ok_def set_inorder by blast
  show o: "ordered (chunk_key (chunks s)) cs"
    using T ordered_cong [of "inorder T" "node_key (treap_nodes s) (chunks s)" "chunk_key (chunks s) \<circ> chunk_of (treap_nodes s)"] k
    by (simp add: cs treap_ok_def ordered_map)
  show "\<forall>c \<in> set cs. c \<noteq> 0 \<and> chunks s c \<noteq> None"
    using T node_key_chunk [of "treap_nodes s" "chunks s"] unfolding cs treap_ok_def by auto
  show "distinct cs"
    using o unfolding ordered_def by (induction cs) auto
qed

text \<open>Only the chunks of the list matter, not the other chunks and not the rest of the state.\<close>

lemma treap_ok_cong:
  assumes "treap_ok s T" and "treap t = treap s" and "treap_nodes t = treap_nodes s"
    and "\<forall>x \<in> set_tree T. chunks t (chunk_of (treap_nodes s) x) = chunks s (chunk_of (treap_nodes s) x)"
    and "set_tree T \<subseteq> pool_used t"
  shows "treap_ok t T"
proof -
  have "node_key (treap_nodes s) (chunks t) x = node_key (treap_nodes s) (chunks s) x \<and>
    node_ok (treap_nodes s) (chunks t) x" if "x \<in> set_tree T" for x
    using assms(1,4) that by (force simp: treap_ok_def node_key_def node_ok_def chunk_of_def split: option.splits)
  moreover from this have "ordered (node_key (treap_nodes s) (chunks t)) (inorder T) =
      ordered (node_key (treap_nodes s) (chunks s)) (inorder T)"
    by (intro ordered_cong) auto
  ultimately show ?thesis using assms unfolding treap_ok_def by auto
qed

lemma treap_rep_cong:
  assumes "treap_rep s cs" and "treap t = treap s" and "treap_nodes t = treap_nodes s"
    and "\<forall>c \<in> set cs. chunks t c = chunks s c" and "pool_used s \<subseteq> pool_used t"
  shows "treap_rep t cs"
proof -
  from assms(1) obtain T where T: "treap_ok s T" "cs = map (chunk_of (treap_nodes s)) (inorder T)"
    unfolding treap_rep_def by blast
  have "treap_ok t T" by (rule treap_ok_cong [OF T(1) assms(2,3)]) (use assms(4,5) T in \<open>auto simp: treap_ok_def\<close>)
  then show ?thesis using T(2) assms(3) unfolding treap_rep_def by auto
qed

text \<open>\<open>find\<close> is a search of the list.\<close>

definition best_fit :: "chunk_store \<Rightarrow> uintptr \<Rightarrow> uintptr list \<Rightarrow> uintptr option" where
  "best_fit C np cs = List.find (\<lambda>c. np \<le> fst (chunk_key C c)) cs"

lemma find_map: "List.find P (map f xs) = map_option f (List.find (P \<circ> f) xs)"
  by (induction xs) auto

lemma treap_find_rep:
  assumes "treap_rep s cs"
  shows "\<exists>T. treap_ok s T \<and> cs = map (chunk_of (treap_nodes s)) (inorder T) \<and>
    (case best_fit (chunks s) np cs of
       None \<Rightarrow> treap_find np s = Some (Inl EmptyError)
     | Some c \<Rightarrow> \<exists>t \<in> set_tree T. chunk_of (treap_nodes s) t = c \<and> treap_find np s = Some (Inr t))"
proof -
  let ?N = "treap_nodes s" and ?C = "chunks s"
  from assms obtain T where T: "treap_ok s T" and cs: "cs = map (chunk_of ?N) (inorder T)"
    unfolding treap_rep_def by blast
  have ok: "\<forall>x \<in> set_tree T. node_key ?N ?C x = chunk_key ?C (chunk_of ?N x) \<and> chunk_of ?N x \<noteq> 0"
    using T node_key_chunk unfolding treap_ok_def by blast
  have f: "treap_find np s = Some (case List.find (\<lambda>x. np \<le> fst (node_key ?N ?C x)) (inorder T) of
      Some x \<Rightarrow> Inr x | None \<Rightarrow> Inl EmptyError)"
    unfolding treap_find_def using findFrom_ok [of ?N 0 "treap s" T ?C np 0] T ok
    by (simp add: treap_ok_def linked_tree_def)
  have "List.find ((\<lambda>c. np \<le> fst (chunk_key ?C c)) \<circ> chunk_of ?N) (inorder T) =
      List.find (\<lambda>x. np \<le> fst (node_key ?N ?C x)) (inorder T)"
    by (rule find_cong) (use ok in auto)
  then have b: "best_fit ?C np cs = map_option (chunk_of ?N) (List.find (\<lambda>x. np \<le> fst (node_key ?N ?C x)) (inorder T))"
    unfolding best_fit_def cs find_map by simp
  show ?thesis
  proof (cases "List.find (\<lambda>x. np \<le> fst (node_key ?N ?C x)) (inorder T)")
    case None
    then show ?thesis using T cs f b by auto
  next
    case (Some t)
    then have "t \<in> set (inorder T)" by (metis find_Some_iff nth_mem)
    then show ?thesis using T cs f b Some by auto
  qed
qed

subsection \<open>Removal\<close>

lemma pool_used_treap [simp]:
  "pool_used (s\<lparr>treap_nodes := N\<rparr>) = pool_used s" "pool_used (s\<lparr>treap := rt\<rparr>) = pool_used s"
  "pool_used (s\<lparr>chunks := C\<rparr>) = pool_used s"
  by (simp_all add: pool_used_def split: list.split)

lemma pool_inv_treap [simp]:
  "pool_inv os (s\<lparr>treap_nodes := N\<rparr>) = pool_inv os s" "pool_inv os (s\<lparr>treap := rt\<rparr>) = pool_inv os s"
  "pool_inv os (s\<lparr>chunks := C\<rparr>) = pool_inv os s"
  by (simp_all add: pool_inv_def)

lemma removeNode_rep:
  assumes "treap_ok s T" and cs: "cs = map (chunk_of (treap_nodes s)) (inorder T)" and t: "t \<in> set_tree T"
  shows "\<exists>N rt. removeNode t s = Some (Inr (), s\<lparr>treap_nodes := N, treap := rt\<rparr>) \<and> same_data (treap_nodes s) N \<and>
    treap_rep (s\<lparr>treap_nodes := N, treap := rt\<rparr>) (remove1 (chunk_of (treap_nodes s) t) cs)"
proof -
  let ?N = "treap_nodes s" and ?C = "chunks s"
  obtain c l r where T: "T = plug \<langle>l, t, r\<rangle> c" using tree_split [OF t] .
  have at: "linked_tree (treap s, ?N) (plug \<langle>l, t, r\<rangle> c)" and ok: "node_ok ?N ?C t"
    using assms unfolding treap_ok_def T by auto
  from rotateDown_ok [OF at refl] obtain rt1 N1 c1 where D: "rotateDown t (treap s, ?N) = Some (rt1, N1)"
    "linked_tree (rt1, N1) (plug \<langle>\<langle>\<rangle>, t, \<langle>\<rangle>\<rangle> c1)" "plug \<langle>\<rangle> c1 = plug (merge (prio ?N) l r) c" "same_outside (set_tree T) ?N N1"
    unfolding T by auto
  from unlink_ok [OF D(2)] obtain rt N where U: "unlink t (rt1, N1) = Some (rt, N)" "linked_tree (rt, N) (plug \<langle>\<rangle> c1)"
    "same_outside (set_tree (plug \<langle>\<rangle> c1)) N1 N" by blast
  let ?T = "plug (merge (prio ?N) l r) c" and ?s = "s\<lparr>treap_nodes := N, treap := rt\<rparr>"
  have sd: "same_data ?N N" using D(4) U(3) same_data_trans unfolding same_outside_def by blast
  note keys = same_data_keys [OF sd]
  have step: "removeNode t s = Some (Inr (), ?s)" using D(1) U(1) ok by (auto simp: removeNode_def node_ok_def)
  have io: "inorder T = lefts c @ inorder l @ [t] @ inorder r @ rights c" "inorder ?T = lefts c @ inorder l @ inorder r @ rights c"
    unfolding T by (simp_all add: inorder_plug inorder_merge)
  then have sub: "set_tree ?T \<subseteq> set_tree T" by (auto simp flip: set_inorder)
  have "treap_ok ?s ?T"
  proof -
    have "linked_tree (rt, N) ?T" using U(2) D(3) by simp
    moreover have "ordered (node_key ?N ?C) (inorder ?T)"
      using assms(1) unfolding treap_ok_def io ordered_def by (auto simp: sorted_wrt_append)
    moreover have "heap_at (prio ?N) ?T"
      using assms(1) unfolding treap_ok_def T heap_plug set_merge by (auto intro: heap_merge elim: heap_path_mono)
    ultimately show ?thesis using assms(1) sub by (auto simp: treap_ok_def keys)
  qed
  moreover have "map (chunk_of ?N) (inorder ?T) = remove1 (chunk_of ?N t) cs"
  proof -
    have "distinct cs" using assms(1) cs treap_rep_sorted(3) [of s cs] unfolding treap_rep_def by blast
    then show ?thesis unfolding cs io by (auto simp: remove1_append)
  qed
  ultimately have "treap_rep ?s (remove1 (chunk_of ?N t) cs)" unfolding treap_rep_def by (intro exI [of _ ?T]) (simp add: keys)
  then show ?thesis using step sd by blast
qed

subsection \<open>Insertion\<close>

text \<open>Allocating in the pool changes nothing but the pool.\<close>

lemma newXRawMemory_more: "newXRawMemory os n s = (r, s') \<Longrightarrow> machine.more s' = machine.more s"
  by (auto simp: newXRawMemory_def split: sum.splits)

lemma pool_alloc_more: "pool_alloc os sz s = Some (r, s') \<Longrightarrow> raw_pool.more s' = raw_pool.more s"
  by (auto simp: pool_alloc_def alignOf_def newXRawMemory_def Let_def split: sum.splits prod.splits if_splits list.splits)

lemma raw_more_treap:
  "raw_pool.more s' = raw_pool.more s \<Longrightarrow> treap_nodes s' = treap_nodes s \<and> chunks s' = chunks s \<and> treap s' = treap s \<and>
    treap_state.more s' = treap_state.more s"
  by (cases s; cases s') simp

text \<open>A key goes to its place in an ordered list.\<close>

fun key_insort :: "(uintptr \<Rightarrow> uintptr \<times> uintptr) \<Rightarrow> uintptr \<Rightarrow> uintptr list \<Rightarrow> uintptr list" where
  "key_insort k c [] = [c]"
| "key_insort k c (d # ds) = (if keyLess (k c) (k d) then c # d # ds else d # key_insort k c ds)"

lemma keyLess_antisym: "keyLess a b \<Longrightarrow> \<not> keyLess b a"
  using keyLess_trans keyLess_irrefl by blast

lemma key_insort_split:
  assumes "\<forall>x \<in> set xs. keyLess (k x) (k c)" and "\<forall>y \<in> set ys. keyLess (k c) (k y)"
  shows "key_insort k c (xs @ ys) = xs @ c # ys"
  using assms
proof (induction xs)
  case Nil
  then show ?case by (cases ys) auto
qed (use keyLess_antisym in auto)

lemma set_key_insort [simp]: "set (key_insort k c cs) = insert c (set cs)"
  by (induction k c cs rule: key_insort.induct) auto

lemma ordered_put:
  "ordered k (xs @ ys) \<Longrightarrow> \<forall>x \<in> set xs. keyLess (k x) (k c) \<Longrightarrow> \<forall>y \<in> set ys. keyLess (k c) (k y) \<Longrightarrow>
    ordered k (xs @ c # ys)"
  by (auto simp: ordered_def sorted_wrt_append)

lemma heap_at_cong: "\<forall>x \<in> set_tree t. p x = p' x \<Longrightarrow> heap_at p t = heap_at p' t"
  by (induction t) auto

lemma heap_path_cong: "\<forall>x \<in> S \<union> path_nodes c. p x = p' x \<Longrightarrow> heap_path p S c = heap_path p' S c"
proof (induction p S c rule: heap_path.induct)
  case (2 p S x r c)
  then have "heap_path p (insert x (S \<union> set_tree r)) c = heap_path p' (insert x (S \<union> set_tree r)) c" by auto
  then show ?case using 2(2) heap_at_cong [of r p p'] by (simp add: ball_Un)
next
  case (3 p S l x c)
  then have "heap_path p (insert x (S \<union> set_tree l)) c = heap_path p' (insert x (S \<union> set_tree l)) c" by auto
  then show ?case using 3(2) heap_at_cong [of l p p'] by (simp add: ball_Un)
qed simp

lemma treap_insert_present:
  assumes "treap_rep s cs" and "chunks s c = Some ch" and "\<exists>d \<in> set cs. chunk_key (chunks s) d = chunk_key (chunks s) c"
  shows "treap_insert os rnd c s = Some (Inl ErrInTreap, s)"
proof -
  let ?N = "treap_nodes s" and ?C = "chunks s"
  from assms(1) obtain T where T: "treap_ok s T" and cs: "cs = map (chunk_of ?N) (inorder T)"
    unfolding treap_rep_def by blast
  have key: "chunk_key ?C c = (chunk_npages ch, chunk_start ch)" using assms(2) by (simp add: chunk_key_def)
  obtain x where x: "x \<in> set (inorder T)" "node_key ?N ?C x = (chunk_npages ch, chunk_start ch)"
    using assms(3) key T node_key_chunk [of ?N ?C] unfolding cs treap_ok_def by auto
  from insertPlace_ok [of ?N "[]" "treap s" T ?C "chunk_npages ch" "chunk_start ch"] T
  have "insertPlace ?N ?C (chunk_npages ch) (chunk_start ch) 0 Root (treap s) = Some (Inl ErrInTreap) \<or>
    (\<exists>c'. plug \<langle>\<rangle> c' = T \<and> (\<forall>x \<in> set (lefts c'). keyLess (node_key ?N ?C x) (chunk_npages ch, chunk_start ch)) \<and>
      (\<forall>x \<in> set (rights c'). keyLess (chunk_npages ch, chunk_start ch) (node_key ?N ?C x)))"
    by (auto simp: treap_ok_def linked_tree_def)
  moreover have "x \<in> set (lefts c') \<union> set (rights c')" if "plug \<langle>\<rangle> c' = T" for c'
    using x(1) that inorder_plug [of "\<langle>\<rangle>" c'] by (simp del: set_inorder)
  ultimately have "insertPlace ?N ?C (chunk_npages ch) (chunk_start ch) 0 Root (treap s) = Some (Inl ErrInTreap)"
    using x(2) keyLess_irrefl by (metis Un_iff)
  then show ?thesis using assms(2) by (simp add: treap_insert_def)
qed

text \<open>
  \<open>insert\<close> of a new key: the pool has no room, or the chunk is in its place.
\<close>

lemma treap_insert_rep:
  assumes rep: "treap_rep s cs" and inv: "pool_inv os s" and ch: "chunks s c = Some ch" and "c \<noteq> 0"
    and new: "\<forall>d \<in> set cs. chunk_key (chunks s) d \<noteq> chunk_key (chunks s) c"
  obtains (error) e s1 where "treap_insert os rnd c s = Some (Inl e, s1)" "pool_alloc os treapNodeSize s = Some (Inl e, s1)"
  | (ok) t s1 N rt where "pool_alloc os treapNodeSize s = Some (Inr t, s1)"
      "treap_insert os rnd c s = Some (Inr (), s1\<lparr>treap_nodes := N, treap := rt\<rparr>)"
      "treap_rep (s1\<lparr>treap_nodes := N, treap := rt\<rparr>) (key_insort (chunk_key (chunks s)) c cs)"
proof -
  let ?N = "treap_nodes s" and ?C = "chunks s" and ?k = "(chunk_npages ch, chunk_start ch)"
  from rep obtain T where T: "treap_ok s T" and cs: "cs = map (chunk_of ?N) (inorder T)"
    unfolding treap_rep_def by blast
  have key: "chunk_key ?C c = ?k" using ch by (simp add: chunk_key_def)
  have nk: "\<forall>x \<in> set_tree T. node_key ?N ?C x = chunk_key ?C (chunk_of ?N x)"
    using T node_key_chunk unfolding treap_ok_def by blast
  have "\<forall>x \<in> set_tree T. node_key ?N ?C x \<noteq> ?k" using new nk unfolding cs key by auto
  then obtain c' where P: "insertPlace ?N ?C (chunk_npages ch) (chunk_start ch) 0 Root (treap s) = Some (Inr (above c', place_of c'))"
    and c': "plug \<langle>\<rangle> c' = T" and L: "\<forall>x \<in> set (lefts c'). keyLess (node_key ?N ?C x) ?k"
    and R: "\<forall>x \<in> set (rights c'). keyLess ?k (node_key ?N ?C x)"
    using insertPlace_ok [of ?N "[]" "treap s" T ?C "chunk_npages ch" "chunk_start ch"] T
    by (auto simp: treap_ok_def linked_tree_def)
  have sub: "set_tree T = set (lefts c') \<union> set (rights c')" using c' set_lefts_rights [of c'] set_plug [of "\<langle>\<rangle>" c'] by simp
  obtain a s1 where al: "pool_alloc os treapNodeSize s = Some (a, s1)" using pool_alloc_safe [OF inv] by fastforce
  then have xa: "xAllocator_alloc os (newXAllocator treapNodeSize) s =
      Some (a, (newXAllocator treapNodeSize)\<lparr>xal_inuse := xal_inuse (newXAllocator treapNodeSize) + treapNodeSize\<rparr>, s1)"
    by (simp add: xAllocator_alloc_def newXAllocator_def)
  note same = raw_more_treap [OF pool_alloc_more [OF al]]
  show thesis
  proof (cases a)
    case (Inl e)
    then have "treap_insert os rnd c s = Some (Inl e, s1)" using ch P xa by (simp add: treap_insert_def)
    then show thesis using error al Inl by simp
  next
    case (Inr t)
    note sound = pool_alloc_sound [OF inv al [unfolded Inr]]
    have "t \<in> blk t treapNodeSize" by (rule blk_start) simp
    then have "t \<notin> pool_used s" "t \<in> pool_used s1" using sound(2,3) by blast+
    then have fresh: "t \<notin> set_tree T" "t \<noteq> 0" "t \<in> pool_used s1" using sound(5) T unfolding treap_ok_def by blast+
    let ?n = "\<lparr>lnk_left = 0, lnk_right = 0, lnk_parent = above c', npagesKey = chunk_npages ch, priority = rnd, node_chunk = c\<rparr>"
    have at: "linked_tree (treap s, ?N) (plug \<langle>\<rangle> c')" using T c' unfolding treap_ok_def by simp
    let ?M = "?N(t \<mapsto> ?n)"
    have tp: "t \<notin> path_nodes c'" using fresh(1) sub set_lefts_rights by metis
    obtain rt1 N1 where W: "writePlace (place_of c') t (treap s, ?M) = Some (rt1, N1)"
      "linked_tree (rt1, N1) (plug \<langle>\<langle>\<rangle>, t, \<langle>\<rangle>\<rangle> c')" "same_outside (set_tree (plug \<langle>\<rangle> c')) ?M N1"
      using writePlace_ok [OF at fresh(2) tp, of ?n] by auto
    have d1: "same_data ?M N1" using W(3) by (simp add: same_outside_def)
    note k1 = same_data_keys [OF d1]
    have keep: "node_key ?M ?C x = node_key ?N ?C x" "prio ?M x = prio ?N x" "node_ok ?M ?C x = node_ok ?N ?C x"
      "chunk_of ?M x = chunk_of ?N x" if "x \<in> set_tree T" for x
      using that fresh(1) by (auto simp: node_key_def prio_def node_ok_def chunk_of_def)
    have tn: "node_key ?M ?C t = ?k" "node_ok ?M ?C t" "chunk_of ?M t = c"
      using ch \<open>c \<noteq> 0\<close> by (auto simp: node_key_def node_ok_def chunk_of_def)
    have "heap_path (prio ?N) {} c'" using T c' heap_plug [of "prio ?N" "\<langle>\<rangle>" c'] unfolding treap_ok_def by simp
    moreover have "heap_path (prio ?M) {} c' = heap_path (prio ?N) {} c'"
      by (rule heap_path_cong) (use keep(2) sub set_lefts_rights in auto)
    ultimately have "misplaced (prio N1) \<langle>\<rangle> t \<langle>\<rangle> c'" unfolding misplaced_def k1 by simp
    then have "rotated_up ?C t (rt1, N1) (plug \<langle>\<langle>\<rangle>, t, \<langle>\<rangle>\<rangle> c')"
      using rotateUp_ok [OF W(2)] tn(2) unfolding k1 by blast
    then obtain rt N T' where U: "rotateUp ?C t (rt1, N1) = Some (None, rt, N)" "linked_tree (rt, N) T'"
      "inorder T' = inorder (plug \<langle>\<langle>\<rangle>, t, \<langle>\<rangle>\<rangle> c')" "heap_at (prio N) T'" "same_data N1 N"
      unfolding rotated_up_def same_outside_def by auto
    have d2: "same_data ?M N" using d1 U(5) same_data_trans by blast
    note k2 = same_data_keys [OF d2]
    let ?s = "s1\<lparr>treap_nodes := N, treap := rt\<rparr>"
    have io: "inorder T' = lefts c' @ t # rights c'" using U(3) by (simp add: inorder_plug)
    have st': "set_tree T' = insert t (set_tree T)" using io sub by (metis Un_insert_right list.set(2) set_append set_inorder)
    have step: "treap_insert os rnd c s = Some (Inr (), ?s)"
      using ch P xa W(1) U(1) same by (simp add: treap_insert_def Inr)
    have "ordered (node_key ?N ?C) (lefts c' @ rights c')"
      using T c' inorder_plug [of "\<langle>\<rangle>" c'] unfolding treap_ok_def by simp
    moreover have "ordered (node_key ?M ?C) (lefts c' @ rights c') = ordered (node_key ?N ?C) (lefts c' @ rights c')"
      by (rule ordered_cong) (use keep(1) sub in auto)
    ultimately have "ordered (node_key ?M ?C) (inorder T')"
      using keep(1) L R sub tn(1) unfolding io by (intro ordered_put) auto
    then have ok': "treap_ok ?s T'"
      using U(2,4) keep(3) tn(2) T sound(3) fresh(3) st' by (auto simp: treap_ok_def k2 same)
    have "map (chunk_of N) (inorder T') = map (chunk_of ?N) (lefts c') @ c # map (chunk_of ?N) (rights c')"
      using keep(4) sub tn(3) unfolding io k2 by simp
    also have "\<dots> = key_insort (chunk_key ?C) c (map (chunk_of ?N) (lefts c') @ map (chunk_of ?N) (rights c'))"
      by (rule key_insort_split [symmetric]) (use L R nk sub key in auto)
    also have "\<dots> = key_insort (chunk_key ?C) c cs"
      using c' inorder_plug [of "\<langle>\<rangle>" c'] unfolding cs by (simp flip: map_append)
    finally have "treap_rep ?s (key_insort (chunk_key ?C) c cs)" using ok' unfolding treap_rep_def by auto
    then show thesis using ok [OF al [unfolded Inr] step] by blast
  qed
qed

subsection \<open>Iteration and checks\<close>

lemma leftmost_ok: "tree_at N q a t \<Longrightarrow> t \<noteq> \<langle>\<rangle> \<Longrightarrow> leftmost N a = Some (hd (inorder t))"
proof (induction t arbitrary: q a)
  case (Node l x r)
  then obtain n where n: "N x = Some n" "a = x" and l: "tree_at N x (lnk_left n) l" by (auto split: option.splits)
  show ?case using n l Node.IH(1) [OF l] by (cases l) (auto simp: leftmost.simps [of N x] hd_append)
qed simp

lemma rightmost_ok: "tree_at N q a t \<Longrightarrow> t \<noteq> \<langle>\<rangle> \<Longrightarrow> rightmost N a = Some (last (inorder t))"
proof (induction t arbitrary: q a)
  case (Node l x r)
  then obtain n where n: "N x = Some n" "a = x" and r: "tree_at N x (lnk_right n) r" by (auto split: option.splits)
  show ?case using n r Node.IH(2) [OF r] by (cases r) (auto simp: rightmost.simps [of N x])
qed simp

text \<open>The next and the previous element of a list, nil at its ends.\<close>

definition first_of :: "uintptr list \<Rightarrow> uintptr" where
  "first_of xs = (case xs of [] \<Rightarrow> 0 | x # _ \<Rightarrow> x)"

definition last_of :: "uintptr list \<Rightarrow> uintptr" where
  "last_of xs = (if xs = [] then 0 else last xs)"

lemma first_of_simps [simp]: "first_of [] = 0" "first_of (x # xs) = x"
  by (simp_all add: first_of_def)

lemma climbSucc_ok:
  "path_at N rt a c \<Longrightarrow> N a = Some n \<Longrightarrow> lnk_parent n = above c \<Longrightarrow> a \<noteq> 0 \<Longrightarrow> a \<notin> path_nodes c \<Longrightarrow>
    distinct (lefts c @ rights c) \<Longrightarrow> climbSucc N a = Some (Inr (first_of (rights c)))"
proof (induction N rt a c arbitrary: n rule: path_at.induct)
  case (1 N rt a)
  then show ?case by (simp add: climbSucc.simps [of N a] first_of_def)
next
  case (2 N rt a x r c)
  then show ?case by (auto simp: climbSucc.simps [of N a] first_of_def split: option.splits)
next
  case (3 N rt a l x c)
  then obtain m where m: "N x = Some m" "x \<noteq> 0" "lnk_right m = a" "lnk_parent m = above c"
    "tree_at N x (lnk_left m) l" "path_at N rt x c" by (auto split: option.splits)
  have "lnk_left m \<noteq> a" using tree_at_root [OF m(5)] 3(5,6) by (cases l) auto
  moreover have "x \<notin> path_nodes c" "distinct (lefts c @ rights c)" using 3(7) set_lefts_rights [of c] by auto
  then have "climbSucc N x = Some (Inr (first_of (rights c)))" using 3(1) [OF m(1) m(6,1,4,2)] by simp
  ultimately show ?case using m 3(3,4) by (simp add: climbSucc.simps [of N a])
qed

lemma climbPred_ok:
  "path_at N rt a c \<Longrightarrow> N a = Some n \<Longrightarrow> lnk_parent n = above c \<Longrightarrow> a \<noteq> 0 \<Longrightarrow> a \<notin> path_nodes c \<Longrightarrow>
    distinct (lefts c @ rights c) \<Longrightarrow> climbPred N a = Some (Inr (last_of (lefts c)))"
proof (induction N rt a c arbitrary: n rule: path_at.induct)
  case (1 N rt a)
  then show ?case by (simp add: climbPred.simps [of N a] last_of_def)
next
  case (3 N rt a l x c)
  then show ?case by (auto simp: climbPred.simps [of N a] last_of_def split: option.splits)
next
  case (2 N rt a x r c)
  then obtain m where m: "N x = Some m" "x \<noteq> 0" "lnk_left m = a" "lnk_parent m = above c"
    "tree_at N x (lnk_right m) r" "path_at N rt x c" by (auto split: option.splits)
  have "lnk_right m \<noteq> a" using tree_at_root [OF m(5)] 2(5,6) by (cases r) auto
  moreover have "x \<notin> path_nodes c" "distinct (lefts c @ rights c)" using 2(7) set_lefts_rights [of c] by auto
  then have "climbPred N x = Some (Inr (last_of (lefts c)))" using 2(1) [OF m(1) m(6,1,4,2)] by simp
  ultimately show ?case using m 2(3,4) by (simp add: climbPred.simps [of N a])
qed

lemma first_of_append: "first_of (xs @ ys) = (if xs = [] then first_of ys else hd xs)"
  by (cases xs) (auto simp: first_of_def)

lemma last_of_append: "last_of (xs @ ys) = (if ys = [] then last_of xs else last ys)"
  by (auto simp: last_of_def)

text \<open>\<open>succ\<close> and \<open>pred\<close> walk the nodes in key order.\<close>

lemma succ_pred_ok:
  assumes "linked_tree (rt, N) T" and "inorder T = xs @ t # ys"
  shows "treap_succ N t = Some (Inr (first_of ys))" and "treap_pred N t = Some (Inr (last_of xs))"
proof -
  have "t \<in> set_tree T" using assms(2) by (metis in_set_conv_decomp set_inorder)
  then obtain c l r where T: "T = plug \<langle>l, t, r\<rangle> c" using tree_split by blast
  have dist: "distinct (lefts c @ (inorder l @ t # inorder r) @ rights c)" and p: "path_at N rt t c"
    and "tree_at N (above c) t \<langle>l, t, r\<rangle>"
    using assms(1) unfolding T by (auto simp: linked_tree_def inorder_plug tree_at_plug)
  then obtain n where n: "N t = Some n" "lnk_parent n = above c" "t \<noteq> 0"
    and sub: "tree_at N t (lnk_left n) l" "tree_at N t (lnk_right n) r" by (auto split: option.splits)
  have eq: "(lefts c @ inorder l) @ t # (inorder r @ rights c) = xs @ t # ys"
    using assms(2) unfolding T by (simp add: inorder_plug)
  have "t \<notin> set (lefts c @ inorder l)" "t \<notin> set (inorder r @ rights c)" using dist by auto
  then have xy: "xs = lefts c @ inorder l" "ys = inorder r @ rights c"
    using eq append_Cons_eq_iff [of t "lefts c @ inorder l" "inorder r @ rights c" xs ys] by auto
  have d: "t \<notin> path_nodes c" "distinct (lefts c @ rights c)" using dist set_lefts_rights [of c] by auto
  show "treap_succ N t = Some (Inr (first_of ys))"
    using n sub leftmost_ok [OF sub(2)] climbSucc_ok [OF p n(1,2,3) d] unfolding xy
    by (cases r) (auto simp: treap_succ_def first_of_append)
  show "treap_pred N t = Some (Inr (last_of xs))"
    using n sub rightmost_ok [OF sub(1)] climbPred_ok [OF p n(1,2,3) d] unfolding xy
    by (cases l) (auto simp: treap_pred_def last_of_append)
qed

lemma isChunkInTreap_ok: "tree_at N q a t \<Longrightarrow> isChunkInTreap N s a = Some (s \<in> chunk_of N ` set_tree t)"
proof (induction t arbitrary: q a)
  case Leaf
  then show ?case by (simp add: isChunkInTreap.simps [of N])
next
  case (Node l x r)
  then obtain n where n: "N x = Some n" "a = x" "x \<noteq> 0" and sub: "tree_at N x (lnk_left n) l" "tree_at N x (lnk_right n) r"
    by (auto split: option.splits)
  have "chunk_of N x = node_chunk n" using n by (simp add: chunk_of_def)
  then show ?case using n Node.IH(1) [OF sub(1)] Node.IH(2) [OF sub(2)] by (auto simp: isChunkInTreap.simps [of N s x])
qed

lemma tree_node:
  assumes "tree_at N q a t" and "x \<in> set_tree t"
  shows "\<exists>n l r. N x = Some n \<and> tree_at N x (lnk_left n) l \<and> tree_at N x (lnk_right n) r \<and>
    (\<exists>xs ys. inorder t = xs @ inorder l @ x # inorder r @ ys)"
  using assms
proof (induction t arbitrary: q a)
  case (Node l y r)
  then obtain n where n: "N y = Some n" "tree_at N y (lnk_left n) l" "tree_at N y (lnk_right n) r" by (auto split: option.splits)
  consider "x = y" | "x \<in> set_tree l" | "x \<in> set_tree r" using Node.prems by auto
  then show ?case
  proof cases
    case 1
    then show ?thesis using n by (intro exI [of _ n] exI [of _ l] exI [of _ r]) (auto intro: exI [of _ "[]"])
  next
    case 2
    from Node.IH(1) [OF n(2) this] show ?thesis by (metis append.assoc append_Cons inorder.simps(2))
  next
    case 3
    from Node.IH(2) [OF n(3) this] show ?thesis by (metis append.assoc append_Cons inorder.simps(2))
  qed
qed simp

lemma checkTreapNode_less:
  assumes "node_ok N C c" and "N t = Some n" and "C (node_chunk n) = Some ch"
  shows "do {
      m \<leftarrow> N c;
      (if npagesKey n \<noteq> npagesKey m then Some (npagesKey n < npagesKey m)
       else map_option (\<lambda>d. chunk_start ch < chunk_start d) (C (node_chunk m)))
    } = Some (keyLess (node_key N C t) (node_key N C c))"
proof -
  from assms(1) obtain m d where "N c = Some m" "C (node_chunk m) = Some d" by (rule node_okE)
  then show ?thesis using assms(2,3) by (simp add: node_key_def keyLess_def)
qed

lemma checkTreapNode_ok:
  assumes "treap_ok s T" and x: "x \<in> set_tree T"
  shows "checkTreapNode (treap_nodes s) (chunks s) x = Some (Inr ())"
proof -
  let ?N = "treap_nodes s" and ?C = "chunks s"
  have at: "tree_at ?N 0 (treap s) T" and ord: "ordered (node_key ?N ?C) (inorder T)"
    and ok: "\<forall>y \<in> set_tree T. node_ok ?N ?C y" using assms(1) by (auto simp: treap_ok_def linked_tree_def)
  from tree_node [OF at x] obtain n l r xs ys where n: "?N x = Some n"
    and sub: "tree_at ?N x (lnk_left n) l" "tree_at ?N x (lnk_right n) r" and io: "inorder T = xs @ inorder l @ x # inorder r @ ys"
    by blast
  from ok x obtain ch where ch: "?C (node_chunk n) = Some ch" "chunk_npages ch = npagesKey n"
    using n by (auto simp: node_ok_def)
  have in_T: "set_tree l \<union> set_tree r \<subseteq> set_tree T" using io by (auto simp flip: set_inorder)
  have L: "lnk_left n \<in> set_tree l" if "lnk_left n \<noteq> 0" using tree_at_root [OF sub(1)] that by (cases l) auto
  have R: "lnk_right n \<in> set_tree r" if "lnk_right n \<noteq> 0" using tree_at_root [OF sub(2)] that by (cases r) auto
  have ll: "\<not> keyLess (node_key ?N ?C x) (node_key ?N ?C (lnk_left n))" if "lnk_left n \<noteq> 0"
    using ord L [OF that] keyLess_antisym unfolding io ordered_def by (auto simp: sorted_wrt_append)
  have rr: "keyLess (node_key ?N ?C x) (node_key ?N ?C (lnk_right n))" if "lnk_right n \<noteq> 0"
    using ord R [OF that] unfolding io ordered_def by (auto simp: sorted_wrt_append)
  have x0: "x \<noteq> 0" using tree_at_nonzero [OF at] x by auto
  have okl: "node_ok ?N ?C (lnk_left n)" if "lnk_left n \<noteq> 0" using ok in_T L [OF that] by blast
  have okr: "node_ok ?N ?C (lnk_right n)" if "lnk_right n \<noteq> 0" using ok in_T R [OF that] by blast
  let ?less = "\<lambda>c. do {
      m \<leftarrow> ?N c;
      (if npagesKey n \<noteq> npagesKey m then Some (npagesKey n < npagesKey m)
       else map_option (\<lambda>d. chunk_start ch < chunk_start d) (?C (node_chunk m)))
    }"
  have "(if lnk_left n \<noteq> 0 then ?less (lnk_left n) else Some False) = Some False"
    using checkTreapNode_less [OF okl n ch(1)] ll by (simp del: bind_Some_iff)
  moreover have "(if lnk_right n \<noteq> 0 then ?less (lnk_right n) else Some True) = Some True"
    using checkTreapNode_less [OF okr n ch(1)] rr by (simp del: bind_Some_iff)
  ultimately show ?thesis using n ch x0 by (simp add: checkTreapNode_def Let_def del: bind_Some_iff)
qed

subsection \<open>A state for the witnesses\<close>

text \<open>Two free chunks of five and nine pages, and a chunk of seven pages that is not in the treap.\<close>

definition demo_nodes :: nodes where
  "demo_nodes = [
     0x40000000 \<mapsto> \<lparr>lnk_left = 0, lnk_right = 0x40000030, lnk_parent = 0, npagesKey = 5, priority = 1, node_chunk = 16\<rparr>,
     0x40000030 \<mapsto> \<lparr>lnk_left = 0, lnk_right = 0, lnk_parent = 0x40000000, npagesKey = 9, priority = 8, node_chunk = 32\<rparr>]"

definition demo_chunks :: chunk_store where
  "demo_chunks = [
     16 \<mapsto> \<lparr>chunk_start = 0x50000000, chunk_npages = 5\<rparr>,
     32 \<mapsto> \<lparr>chunk_start = 0x50010000, chunk_npages = 9\<rparr>,
     48 \<mapsto> \<lparr>chunk_start = 0x50020000, chunk_npages = 7\<rparr>]"

definition demo_treap :: treap_state where
  "demo_treap = raw_pool.extend (demo_full_pool\<lparr>pool_index := 96\<rparr>)
     \<lparr>treap_nodes = demo_nodes, chunks = demo_chunks, treap = 0x40000000\<rparr>"

lemma demo_treap_simps [simp]:
  "treap_nodes demo_treap = demo_nodes" "chunks demo_treap = demo_chunks" "treap demo_treap = 0x40000000"
  by (simp_all add: demo_treap_def raw_pool.defs)

lemma demo_treap_ok: "treap_ok demo_treap \<langle>\<langle>\<rangle>, 0x40000000, \<langle>\<langle>\<rangle>, 0x40000030, \<langle>\<rangle>\<rangle>\<rangle>"
proof -
  have "pool_used demo_treap = blk 0x40000000 96"
    by (simp add: demo_treap_def pool_used_def demo_full_pool_def raw_pool.defs del: mem_blk)
  moreover have "0x40000000 \<in> blk 0x40000000 96" "0x40000030 \<in> blk 0x40000000 96" by simp_all
  ultimately show ?thesis
    by (simp add: treap_ok_def linked_tree_def ordered_def keyLess_def node_key_def prio_def node_ok_def
        demo_nodes_def demo_chunks_def del: mem_blk)
qed

lemma demo_treap_rep: "treap_rep demo_treap [16, 32]"
  unfolding treap_rep_def by (rule exI, rule conjI [OF demo_treap_ok]) (simp add: chunk_of_def demo_nodes_def)

lemma demo_treap_inv: "pool_inv demo_os demo_treap"
  using demo_full_pool_inv by (auto simp: demo_treap_def demo_full_pool_def pool_inv_def raw_pool.defs)

subsection \<open>Properties\<close>

text \<open>
  C28: find returns a node of the best fit: the first chunk, by pages and then by address, that is
  large enough; it reports that there is none just when every chunk is too small.
\<close>
theorem treap_find_best:
  assumes "treap_rep s cs"
  shows "\<exists>r. treap_find np s = Some r \<and>
    (case r of
       Inl e \<Rightarrow> e = EmptyError \<and> (\<forall>c \<in> set cs. fst (chunk_key (chunks s) c) < np)
     | Inr t \<Rightarrow> \<exists>c \<in> set cs. chunk_of (treap_nodes s) t = c \<and> np \<le> fst (chunk_key (chunks s) c) \<and>
         (\<forall>d \<in> set cs. np \<le> fst (chunk_key (chunks s) d) \<longrightarrow> d = c \<or> keyLess (chunk_key (chunks s) c) (chunk_key (chunks s) d)))"
proof -
  let ?k = "chunk_key (chunks s)"
  from treap_find_rep [OF assms, of np] obtain T where T: "treap_ok s T"
    "case best_fit (chunks s) np cs of
       None \<Rightarrow> treap_find np s = Some (Inl EmptyError)
     | Some c \<Rightarrow> \<exists>t \<in> set_tree T. chunk_of (treap_nodes s) t = c \<and> treap_find np s = Some (Inr t)" by blast
  show ?thesis
  proof (cases "best_fit (chunks s) np cs")
    case None
    then have "\<forall>c \<in> set cs. fst (?k c) < np" by (auto simp: best_fit_def find_None_iff not_le)
    then show ?thesis using T(2) None by simp
  next
    case (Some c)
    then obtain i where i: "i < length cs" "np \<le> fst (?k c)" "c = cs ! i" "\<forall>j < i. \<not> np \<le> fst (?k (cs ! j))"
      unfolding best_fit_def find_Some_iff by blast
    define xs ys where "xs = take i cs" and "ys = drop (Suc i) cs"
    have cs: "cs = xs @ c # ys" "np \<le> fst (?k c)" "\<forall>x \<in> set xs. \<not> np \<le> fst (?k x)"
      using i id_take_nth_drop [OF i(1)] by (auto simp: xs_def ys_def in_set_conv_nth)
    then have "\<forall>d \<in> set cs. np \<le> fst (?k d) \<longrightarrow> d = c \<or> keyLess (?k c) (?k d)"
      using treap_rep_sorted(1) [OF assms] by (auto simp: ordered_def sorted_wrt_append)
    then show ?thesis using T(2) Some cs by auto
  qed
qed

theorem treap_find_best_witness:
  "\<exists>t. treap_find 6 demo_treap = Some (Inr t) \<and> chunk_of demo_nodes t = 32"
proof -
  have key: "chunk_key demo_chunks 16 = (5, 0x50000000)" "chunk_key demo_chunks 32 = (9, 0x50010000)"
    by (simp_all add: chunk_key_def demo_chunks_def)
  obtain r where r: "treap_find 6 demo_treap = Some r" "case r of
       Inl e \<Rightarrow> e = EmptyError \<and> (\<forall>c \<in> set [16, 32]. fst (chunk_key demo_chunks c) < 6)
     | Inr t \<Rightarrow> \<exists>c \<in> set [16, 32]. chunk_of demo_nodes t = c \<and> 6 \<le> fst (chunk_key demo_chunks c)"
    using treap_find_best [OF demo_treap_rep, of 6] by (force split: sum.splits)
  then show ?thesis using key by (cases r) auto
qed

text \<open>
  C13: insert refines insertion into the ordered list of free chunks: a chunk whose key is there is
  refused and nothing changes; otherwise, unless the pool has no node left, the treap holds the
  old chunks with the new one in its place, whatever the random priority.
\<close>
theorem treap_insert_refines:
  assumes "treap_rep s cs" and "pool_inv os s" and "chunks s c = Some ch" and "c \<noteq> 0"
  shows "\<exists>r s'. treap_insert os rnd c s = Some (r, s') \<and> chunks s' = chunks s \<and>
    (if \<exists>d \<in> set cs. chunk_key (chunks s) d = chunk_key (chunks s) c
     then r = Inl ErrInTreap \<and> s' = s
     else case r of
       Inl e \<Rightarrow> treap s' = treap s \<and> treap_nodes s' = treap_nodes s
     | Inr _ \<Rightarrow> treap_rep s' (key_insort (chunk_key (chunks s)) c cs) \<and> pool_inv os s')"
proof (cases "\<exists>d \<in> set cs. chunk_key (chunks s) d = chunk_key (chunks s) c")
  case True
  then show ?thesis using treap_insert_present [OF assms(1,3), of os rnd] by simp
next
  case False
  then have new: "\<forall>d \<in> set cs. chunk_key (chunks s) d \<noteq> chunk_key (chunks s) c" by blast
  from assms new show ?thesis
  proof (cases rule: treap_insert_rep [where rnd = rnd])
    case (error e s1)
    then show ?thesis using False raw_more_treap [OF pool_alloc_more [OF error(2)]] by auto
  next
    case (ok t s1 N rt)
    then show ?thesis
      using False raw_more_treap [OF pool_alloc_more [OF ok(1)]] pool_alloc_sound(1) [OF assms(2) ok(1)] by auto
  qed
qed

theorem treap_insert_refines_witness:
  "\<exists>r s'. treap_insert demo_os 3 48 demo_treap = Some (r, s') \<and> (r = Inr () \<longrightarrow> treap_rep s' [16, 48, 32])"
proof -
  have "chunks demo_treap 48 = Some \<lparr>chunk_start = 0x50020000, chunk_npages = 7\<rparr>" "(48 :: uintptr) \<noteq> 0"
    by (simp_all add: demo_chunks_def)
  from treap_insert_refines [OF demo_treap_rep demo_treap_inv this, of 3]
  obtain r s' where rs: "treap_insert demo_os 3 48 demo_treap = Some (r, s')"
    "if \<exists>d \<in> set [16, 32]. chunk_key (chunks demo_treap) d = chunk_key (chunks demo_treap) 48
     then r = Inl ErrInTreap \<and> s' = demo_treap
     else case r of Inl e \<Rightarrow> treap s' = treap demo_treap \<and> treap_nodes s' = treap_nodes demo_treap
     | Inr _ \<Rightarrow> treap_rep s' (key_insort (chunk_key (chunks demo_treap)) 48 [16, 32]) \<and> pool_inv demo_os s'" by blast
  have "chunk_key demo_chunks 16 = (5, 0x50000000)" "chunk_key demo_chunks 32 = (9, 0x50010000)"
    "chunk_key demo_chunks 48 = (7, 0x50020000)" by (simp_all add: chunk_key_def demo_chunks_def)
  then show ?thesis using rs by (cases r) (auto simp: keyLess_def)
qed

text \<open>
  C14: removeNode takes just the chunk of its node out of the treap and returns no error: the nodes
  are rotated, the priorities stay in heap order, and no chunk changes.
\<close>
theorem removeNode_refines:
  assumes "treap_ok s T" and "cs = map (chunk_of (treap_nodes s)) (inorder T)" and "t \<in> set_tree T"
  shows "\<exists>s'. removeNode t s = Some (Inr (), s') \<and> treap_rep s' (remove1 (chunk_of (treap_nodes s) t) cs) \<and>
    chunks s' = chunks s"
  using removeNode_rep [OF assms] by fastforce

theorem removeNode_refines_witness:
  "\<exists>s'. removeNode 0x40000000 demo_treap = Some (Inr (), s') \<and> treap_rep s' [32]"
  using removeNode_refines [OF demo_treap_ok refl, where t = "0x40000000"] by (auto simp: chunk_of_def demo_nodes_def)

text \<open>
  C35: succ and pred walk the nodes of a treap in key order, and return nil at its two ends; every
  node on the way passes checkTreapNode.
\<close>
theorem treap_iterates:
  assumes "treap_ok s T" and "inorder T = xs @ t # ys"
  shows "treap_succ (treap_nodes s) t = Some (Inr (first_of ys)) \<and> treap_pred (treap_nodes s) t = Some (Inr (last_of xs)) \<and>
    checkTreapNode (treap_nodes s) (chunks s) t = Some (Inr ())"
  using assms succ_pred_ok [of "treap s" "treap_nodes s" T xs t ys] checkTreapNode_ok [OF assms(1), of t]
  by (auto simp: treap_ok_def simp flip: set_inorder)

theorem treap_iterates_witness: "treap_succ demo_nodes 0x40000000 = Some (Inr 0x40000030)"
  using treap_iterates [OF demo_treap_ok, where xs = "[]" and t = "0x40000000" and ys = "[0x40000030]"] by simp

end
