(* ===== verification/LinearAlloc.thy ===== *)
theory LinearAlloc
  imports Machine SizeClass Blocks
begin

text \<open>
  linear\_alloc.go: the allocator that reserves address space in large pieces and hands it out
  from front to back, mapping pages as it goes. Reserved memory is not accessible, so reserving
  does not change \<open>mem\<close>; mapping at a fixed address replaces what was there.
\<close>

unbundle bit_operations_syntax

subsection \<open>Definitions\<close>

record linearAlloc =
  lin_next :: uintptr
  lin_mapped :: uintptr
  lin_end :: uintptr

abbreviation DefaultPhysPageSize :: uintptr where "DefaultPhysPageSize \<equiv> 4096"

abbreviation sunosEAGAIN :: nat where "sunosEAGAIN \<equiv> 11"

abbreviation ENOMEM :: nat where "ENOMEM \<equiv> 12"

text \<open>The named errno values are the errno itself here, so \<open>errnoErr\<close> only maps zero to nil.\<close>

definition errnoErr :: "nat \<Rightarrow> goerr option" where
  "errnoErr e = (if e = 0 then None else Some (ErrErrno e))"

definition sysMap ::
  "os \<Rightarrow> uintptr \<Rightarrow> uintptr \<Rightarrow> 'a machine_scheme \<Rightarrow> (goerr + unit) \<times> 'a machine_scheme" where
  "sysMap os addr len s =
     (let (v, err) = os_map_fixed os (calls s) addr len;
          s = s\<lparr>calls := calls s + 1\<rparr>
      in if err = ENOMEM \<or> (os_solaris os \<and> err = sunosEAGAIN) then (Inl ErrOutOfMemory, s)
         else if err \<noteq> 0 then (Inl ErrCannotMap, s)
         else
           let s = s\<lparr>mem := map_zero (mem s) v len\<rparr>
           in if addr \<noteq> v then (Inl ErrCannotMap, s) else (Inr (), s))"

definition sysReserve ::
  "os \<Rightarrow> uintptr \<Rightarrow> uintptr \<Rightarrow> 'a machine_scheme \<Rightarrow> (goerr + uintptr) \<times> 'a machine_scheme" where
  "sysReserve os addr sz s =
     (let (ptr, err) = os_reserve os (calls s) addr sz;
          s = s\<lparr>calls := calls s + 1\<rparr>
      in case errnoErr err of
           Some e \<Rightarrow> (Inl e, s)
         | None \<Rightarrow> (Inr ptr, s))"

definition sysFree ::
  "os \<Rightarrow> uintptr \<Rightarrow> uintptr \<Rightarrow> 'a machine_scheme \<Rightarrow> (goerr + unit) \<times> 'a machine_scheme" where
  "sysFree os addr len s =
     (let e1 = os_munmap os (calls s) addr len;
          s = s\<lparr>calls := calls s + 1\<rparr>
      in case errnoErr e1 of
           Some e \<Rightarrow> (Inl e, s)
         | None \<Rightarrow> (Inr (), s\<lparr>mem := unmap (mem s) addr len\<rparr>))"

text \<open>
  The body runs again at each \<open>goto retry\<close>. Only Windows retries, and a reservation that keeps
  failing there retries for ever without counting. The result is the address and the size kept.
\<close>

partial_function (option) reserveAligned ::
  "os \<Rightarrow> uintptr \<Rightarrow> uintptr \<Rightarrow> uintptr \<Rightarrow> nat \<Rightarrow> 'a machine_scheme
    \<Rightarrow> ((goerr + uintptr \<times> uintptr) \<times> 'a machine_scheme) option" where
  "reserveAligned os v sz align retries s =
     (case sysReserve os v (sz + align) s of
        (Inl err, s) \<Rightarrow> Some (Inl err, s)
      | (Inr p, s) \<Rightarrow>
          if p = 0 then Some (Inr (0, 0), s)
          else if p AND (align - 1) = 0 then Some (Inr (p, sz + align), s)
          else if os_windows os then
            (let s = snd (sysFree os p (sz + align) s);
                 p = round_up p align
             in case sysReserve os p sz s of
                  (Inl err, s) \<Rightarrow> reserveAligned os v sz align retries s
                | (Inr p2, s) \<Rightarrow>
                    if p \<noteq> p2 then
                      (let s = snd (sysFree os p2 sz s);
                           retries = retries + 1
                       in if retries = 100 then Some (Inl ErrTooManyRetries, s)
                          else reserveAligned os v sz align retries s)
                    else Some (Inr (p2, sz), s))
          else
            (let pAligned = round_up p align;
                 s = snd (sysFree os p (pAligned - p) s);
                 end = pAligned + sz;
                 endLen = (p + sz + align) - end;
                 s = (if endLen > 0 then snd (sysFree os end endLen s) else s)
             in Some (Inr (pAligned, sz), s)))"

definition sysReserveAligned ::
  "os \<Rightarrow> uintptr \<Rightarrow> uintptr \<Rightarrow> uintptr \<Rightarrow> 'a machine_scheme
    \<Rightarrow> ((goerr + uintptr \<times> uintptr) \<times> 'a machine_scheme) option" where
  "sysReserveAligned os v sz align s = reserveAligned os v sz align 0 s"

definition lin_init ::
  "os \<Rightarrow> uintptr \<Rightarrow> linearAlloc \<Rightarrow> 'a machine_scheme \<Rightarrow> (goerr option \<times> linearAlloc) \<times> 'a machine_scheme" where
  "lin_init os sz l s =
     (case sysReserve os 0 sz s of
        (Inl err, s) \<Rightarrow> ((Some err, l), s)
      | (Inr base, s) \<Rightarrow> ((None, l\<lparr>lin_next := base, lin_mapped := base, lin_end := base + sz\<rparr>), s))"

text \<open>The loop over the arena sizes; \<open>er\<close> is the last error seen.\<close>

fun expandLoop ::
  "os \<Rightarrow> uintptr \<Rightarrow> uintptr \<Rightarrow> uintptr list \<Rightarrow> goerr option \<Rightarrow> linearAlloc \<Rightarrow> 'a machine_scheme
    \<Rightarrow> ((goerr option \<times> linearAlloc) \<times> 'a machine_scheme) option" where
  "expandLoop os p aligned [] er l s = Some ((er, l), s)"
| "expandLoop os p aligned (arenaSize # rest) er l s =
     (case sysReserveAligned os p arenaSize aligned s of
        None \<Rightarrow> None
      | Some (Inl err, s) \<Rightarrow> expandLoop os p aligned rest (Some err) l s
      | Some (Inr (a, sz), s) \<Rightarrow>
          if a \<noteq> 0 then
            Some ((er,
              if lin_end l - lin_next l < 1
              then l\<lparr>lin_next := a, lin_mapped := a, lin_end := a + sz\<rparr>
              else l\<lparr>lin_end := lin_end l + sz\<rparr>), s)
          else expandLoop os p aligned rest er l s)"

definition expand ::
  "os \<Rightarrow> uintptr \<Rightarrow> uintptr \<Rightarrow> linearAlloc \<Rightarrow> 'a machine_scheme
    \<Rightarrow> ((goerr option \<times> linearAlloc) \<times> 'a machine_scheme) option" where
  "expand os addr aligned l s =
     (let p = (if lin_end l < 1 then addr else lin_end l)
      in expandLoop os p aligned [0x20000000, 0x10000000] None l s)"

definition lin_alloc ::
  "os \<Rightarrow> uintptr \<Rightarrow> uintptr \<Rightarrow> linearAlloc \<Rightarrow> 'a machine_scheme
    \<Rightarrow> (goerr + uintptr) \<times> linearAlloc \<times> 'a machine_scheme" where
  "lin_alloc os sz align l s =
     (let p = round_up (lin_next l) align
      in if p + sz > lin_end l then (Inl LackOfMemoryErr, l, s)
         else
           let l = l\<lparr>lin_next := p + sz\<rparr>;
               pEnd = round_up (lin_next l - 1) DefaultPhysPageSize
           in if pEnd > lin_mapped l
              then (case sysMap os (lin_mapped l) (pEnd - lin_mapped l) s of
                      (Inl err, s) \<Rightarrow> (Inl err, l, s)
                    | (Inr _, s) \<Rightarrow> (Inr p, l\<lparr>lin_mapped := pEnd\<rparr>, s))
              else (Inr p, l, s))"

text \<open>As a layer that hands out blocks of one alignment; the request is the size.\<close>

definition lin_step ::
  "os \<Rightarrow> nat \<Rightarrow> uintptr \<Rightarrow> linearAlloc \<times> 'a machine_scheme
    \<Rightarrow> ((goerr + uintptr \<times> uintptr) \<times> linearAlloc \<times> 'a machine_scheme) option" where
  "lin_step os k sz ls =
     (case lin_alloc os sz (2 ^ k) (fst ls) (snd ls) of
        (Inl e, l, s) \<Rightarrow> Some (Inl e, l, s)
      | (Inr p, l, s) \<Rightarrow> Some (Inr (p, sz), l, s))"

subsection \<open>Allocation\<close>

lemma round_up_bounds:
  assumes "k \<le> 48" and "unat n \<le> 2 ^ 49"
  shows "unat n \<le> unat (round_up n (2 ^ k))" and "2 ^ k dvd unat (round_up n (2 ^ k))"
    and "unat (round_up n (2 ^ k)) < unat n + 2 ^ k" and "unat (round_up n (2 ^ k)) \<le> 2 ^ 50"
proof -
  have p: "(2 :: nat) ^ k \<le> 2 ^ 48" by (rule power_increasing) (use assms(1) in simp_all)
  then have "unat n + 2 ^ k \<le> 2 ^ 64" using assms(2) by simp
  then have u: "unat (round_up n (2 ^ k)) = (unat n + 2 ^ k - 1) div 2 ^ k * 2 ^ k"
    using assms(1) by (intro round_up_unat) simp_all
  show "unat n \<le> unat (round_up n (2 ^ k))" unfolding u by (rule ceil_mult_ge) simp
  show "2 ^ k dvd unat (round_up n (2 ^ k))" unfolding u by simp
  show lt: "unat (round_up n (2 ^ k)) < unat n + 2 ^ k" unfolding u by (rule ceil_mult_lt) simp
  show "unat (round_up n (2 ^ k)) \<le> 2 ^ 50" using lt p assms(2) by simp
qed

text \<open>Free is what lies between \<open>next\<close> and \<open>end\<close>; of it what is below \<open>mapped\<close> is accessible.\<close>

definition lin_inv :: "linearAlloc \<Rightarrow> 'a machine_scheme \<Rightarrow> bool" where
  "lin_inv l s \<longleftrightarrow> 0 < lin_next l \<and> lin_next l \<le> lin_end l \<and> unat (lin_end l) \<le> 2 ^ 47 \<and>
     unat (lin_mapped l) \<le> 2 ^ 48 \<and>
     (\<forall>x. lin_next l \<le> x \<and> x < lin_mapped l \<longrightarrow> x \<in> dom (mem s))"

definition lin_used :: "linearAlloc \<Rightarrow> uintptr set" where
  "lin_used l = - {x. lin_next l \<le> x \<and> x < lin_end l}"

lemma sysMap_ok: "sysMap os a n s = (Inr u, s') \<Longrightarrow> mem s' = map_zero (mem s) a n"
  by (auto simp: sysMap_def Let_def split: prod.splits if_splits)

lemma sysMap_dom: "sysMap os a n s = (r, s') \<Longrightarrow> dom (mem s) \<subseteq> dom (mem s')"
  by (auto simp: sysMap_def Let_def map_zero_def split: prod.splits if_splits)

text \<open>
  The address and the new end are the same on every path; the paths differ in what gets mapped.
\<close>

lemma lin_alloc_cases:
  assumes inv: "lin_inv l s" and k: "k \<le> 48" and sz: "unat sz \<le> 2 ^ 48"
  obtains
    (lack) "lin_alloc os sz (2 ^ k) l s = (Inl LackOfMemoryErr, l, s)"
      "unat (lin_end l) < unat (round_up (lin_next l) (2 ^ k)) + unat sz"
  | (failed) e s' where "lin_alloc os sz (2 ^ k) l s = (Inl e, l\<lparr>lin_next := round_up (lin_next l) (2 ^ k) + sz\<rparr>, s')"
      "dom (mem s) \<subseteq> dom (mem s')"
  | (placed) p e m s' where "lin_alloc os sz (2 ^ k) l s = (Inr p, l\<lparr>lin_next := e, lin_mapped := m\<rparr>, s')"
      "p = round_up (lin_next l) (2 ^ k)" "unat e = unat p + unat sz" "unat e \<le> unat (lin_end l)"
      "lin_next l \<le> p" "2 ^ k dvd unat p" "unat m \<le> 2 ^ 48" "lin_mapped l \<le> m" "e - 1 \<le> m"
      "4096 dvd unat e - 1 \<or> e \<le> m"
      "\<And>x. lin_mapped l \<le> x \<and> x < m \<Longrightarrow> x \<in> dom (mem s')" "dom (mem s) \<subseteq> dom (mem s')"
proof -
  let ?p = "round_up (lin_next l) (2 ^ k)"
  have n: "unat (lin_next l) \<le> 2 ^ 47" using inv by (auto simp: lin_inv_def word_le_nat_alt)
  note p = round_up_bounds [of k "lin_next l", OF k order_trans [OF n]]
  have ps: "unat (?p + sz) = unat ?p + unat sz" using p(4) sz by (simp add: unat_add_noof)
  show ?thesis
  proof (cases "?p + sz > lin_end l")
    case True
    then show ?thesis using ps by (intro lack) (simp_all add: lin_alloc_def Let_def word_less_nat_alt)
  next
    case False
    let ?e = "?p + sz" and ?q = "round_up (?p + sz - 1) DefaultPhysPageSize"
    have e: "unat ?e \<le> unat (lin_end l)" "unat ?e \<le> 2 ^ 47" "0 < unat ?e"
      using False inv p(1) ps by (auto simp: lin_inv_def word_le_nat_alt word_less_nat_alt not_less)
    have e1: "unat (?e - 1) = unat ?e - 1" using e(3) unat_sub_noof [of 1 ?e] by simp
    have q12: "DefaultPhysPageSize = 2 ^ 12" by simp
    have q: "unat (?e - 1) \<le> unat ?q" "4096 dvd unat ?q" "unat ?q \<le> 2 ^ 48"
    proof -
      have "unat (?e - 1) \<le> 2 ^ 49" using e(2) e1 by simp
      note b = round_up_bounds [of 12 "?e - 1", OF _ this, folded q12]
      show "unat (?e - 1) \<le> unat ?q" "4096 dvd unat ?q" "unat ?q \<le> 2 ^ 48"
        using b(1-3) e(2) e1 by simp_all
    qed
    have edge: "4096 dvd unat ?e - 1 \<or> ?e \<le> ?q"
    proof (cases "unat ?q = unat ?e - 1")
      case True
      then show ?thesis using q(2) by simp
    next
      case False
      then have "unat ?e \<le> unat ?q" using q(1) e1 by simp
      then show ?thesis by (simp add: word_le_nat_alt)
    qed
    have st: "lin_alloc os sz (2 ^ k) l s = (if ?q > lin_mapped l
              then (case sysMap os (lin_mapped l) (?q - lin_mapped l) s of
                      (Inl err, s) \<Rightarrow> (Inl err, l\<lparr>lin_next := ?e\<rparr>, s)
                    | (Inr _, s) \<Rightarrow> (Inr ?p, l\<lparr>lin_next := ?e, lin_mapped := ?q\<rparr>, s))
              else (Inr ?p, l\<lparr>lin_next := ?e\<rparr>, s))"
      using False by (simp add: lin_alloc_def Let_def split: prod.split sum.split)
    have pn: "lin_next l \<le> ?p" "2 ^ k dvd unat ?p" using p(1,2) n by (simp_all add: word_le_nat_alt)
    show ?thesis
    proof (cases "?q > lin_mapped l")
      case False
      have "l\<lparr>lin_next := ?e\<rparr> = l\<lparr>lin_next := ?e, lin_mapped := lin_mapped l\<rparr>" by simp
      moreover have "?e - 1 \<le> lin_mapped l" using q(1) False by (simp add: word_le_nat_alt word_less_nat_alt)
      moreover have "4096 dvd unat ?e - 1 \<or> ?e \<le> lin_mapped l"
        using edge False by (auto intro: order_trans)
      ultimately show ?thesis
        using st False ps e(1) pn inv by (intro placed [where p = ?p and e = ?e and m = "lin_mapped l" and s' = s]) (auto simp: lin_inv_def)
    next
      case True
      obtain r s' where m: "sysMap os (lin_mapped l) (?q - lin_mapped l) s = (r, s')" by fastforce
      show ?thesis
      proof (cases r)
        case (Inl err)
        then show ?thesis using st True m sysMap_dom [OF m] by (intro failed) simp_all
      next
        case (Inr u)
        have "x \<in> dom (mem s')" if "lin_mapped l \<le> x \<and> x < ?q" for x
        proof -
          have "x - lin_mapped l < ?q - lin_mapped l"
            using that by (auto simp: word_less_nat_alt word_le_nat_alt unat_sub_noof intro: diff_less_mono)
          then show ?thesis using sysMap_ok [OF m [unfolded Inr]] by (simp add: map_zero_def domIff)
        qed
        moreover have "?e - 1 \<le> ?q" using q(1) by (simp add: word_le_nat_alt)
        ultimately show ?thesis
          using st True m Inr ps e(1) pn q(3) edge sysMap_dom [OF m] by (intro placed [where p = ?p and e = ?e and m = ?q and s' = s']) simp_all
      qed
    qed
  qed
qed

lemma lin_inv_step:
  assumes "lin_inv l s" and "dom (mem s) \<subseteq> dom (mem s')" and "unat (lin_next l) \<le> unat e" and "unat e \<le> unat (lin_end l)"
    and "unat m \<le> 2 ^ 48" and "\<And>x. lin_mapped l \<le> x \<and> x < m \<Longrightarrow> x \<in> dom (mem s')"
  shows "lin_inv (l\<lparr>lin_next := e, lin_mapped := m\<rparr>) s'"
proof -
  have "x \<in> dom (mem s')" if "e \<le> x" "x < m" for x
  proof (cases "x < lin_mapped l")
    case True
    moreover have "lin_next l \<le> x" using assms(3) that(1) by (auto simp: word_le_nat_alt)
    ultimately have "x \<in> dom (mem s)" using assms(1) unfolding lin_inv_def by blast
    then show ?thesis using assms(2) by blast
  next
    case False
    then show ?thesis using assms(6) that(2) by simp
  qed
  then show ?thesis using assms by (auto simp: lin_inv_def word_le_nat_alt word_less_nat_alt)
qed

lemma lin_alloc_sound:
  assumes inv: "lin_inv l s" and k: "k \<le> 48" and sz: "unat sz \<le> 2 ^ 48"
    and st: "lin_alloc os sz (2 ^ k) l s = (Inr p, l', s')"
  shows "lin_inv l' s'" and "blk p sz \<inter> lin_used l = {}" and "lin_used l \<union> blk p sz \<subseteq> lin_used l'"
    and "2 ^ k dvd unat p" and "lin_end l' = lin_end l" and "unat p + unat sz \<le> unat (lin_end l)"
    and "\<not> 4096 dvd unat p + unat sz - 1 \<Longrightarrow> blk p sz \<subseteq> dom (mem s')"
proof -
  have "lin_inv l' s' \<and> blk p sz \<inter> lin_used l = {} \<and> lin_used l \<union> blk p sz \<subseteq> lin_used l' \<and>
    2 ^ k dvd unat p \<and> lin_end l' = lin_end l \<and> unat p + unat sz \<le> unat (lin_end l) \<and>
    (\<not> 4096 dvd unat p + unat sz - 1 \<longrightarrow> blk p sz \<subseteq> dom (mem s'))"
    using inv k sz
  proof (cases rule: lin_alloc_cases [where os = os])
    case (placed q e m t)
    then have r: "p = q" "l' = l\<lparr>lin_next := e, lin_mapped := m\<rparr>" "s' = t" using st by simp_all
    have inv': "lin_inv l' s'"
      unfolding r(2,3) by (rule lin_inv_step [OF inv placed(12)]) (use placed in \<open>auto simp: word_le_nat_alt\<close>)
    moreover have "blk p sz \<inter> lin_used l = {}"
      using placed(3-5) by (auto simp: lin_used_def r(1) word_le_nat_alt word_less_nat_alt)
    moreover have "lin_used l \<union> blk p sz \<subseteq> lin_used l'"
      using placed(3-5) by (auto simp: lin_used_def r word_le_nat_alt word_less_nat_alt)
    moreover have "x \<in> dom (mem s')" if "\<not> 4096 dvd unat p + unat sz - 1" "x \<in> blk p sz" for x
    proof -
      have "x < m" using placed(3,10) that by (auto simp: r(1) word_le_nat_alt word_less_nat_alt)
      moreover have "lin_next l \<le> x" using placed(5) that(2) by (simp add: r(1) word_le_nat_alt)
      moreover have "lin_next l \<le> x \<and> x < lin_mapped l \<longrightarrow> x \<in> dom (mem s)" using inv unfolding lin_inv_def by blast
      ultimately show ?thesis using placed(11) [of x] placed(12) unfolding r(3) by (meson not_less subsetD)
    qed
    ultimately show ?thesis using placed(3,4,6) by (auto simp: r simp del: mem_blk)
  qed (use st in simp_all)
  then show "lin_inv l' s'" and "blk p sz \<inter> lin_used l = {}" and "lin_used l \<union> blk p sz \<subseteq> lin_used l'"
    and "2 ^ k dvd unat p" and "lin_end l' = lin_end l" and "unat p + unat sz \<le> unat (lin_end l)"
    and "\<not> 4096 dvd unat p + unat sz - 1 \<Longrightarrow> blk p sz \<subseteq> dom (mem s')" by blast+
qed

text \<open>The allocator of the heap: alignment \<open>heapRawMemoryBytes\<close>, sizes below the address space.\<close>

definition lin_ok :: "linearAlloc \<times> 'a machine_scheme \<Rightarrow> bool" where
  "lin_ok ls = lin_inv (fst ls) (snd ls)"

definition lin_busy :: "linearAlloc \<times> 'a machine_scheme \<Rightarrow> uintptr set" where
  "lin_busy ls = lin_used (fst ls)"

interpretation lin: fresh_blocks "\<lambda>sz. unat sz \<le> 2 ^ 48" "lin_step os logHeapRawMemoryBytes" lin_ok lin_busy for os
proof
  fix os r and s :: "linearAlloc \<times> 'a machine_scheme"
  show "lin_step os logHeapRawMemoryBytes r s \<noteq> None" by (auto simp: lin_step_def split: prod.split sum.split)
next
  fix os r b and s s' :: "linearAlloc \<times> 'a machine_scheme"
  assume r: "unat r \<le> 2 ^ 48" and inv: "lin_ok s" and st: "lin_step os logHeapRawMemoryBytes r s = Some (Inr b, s')"
  from st have "lin_alloc os r (2 ^ 28) (fst s) (snd s) = (Inr (fst b), fst s', snd s')" "snd b = r"
    by (auto simp: lin_step_def split: prod.splits sum.splits)
  note sound = lin_alloc_sound [OF inv [unfolded lin_ok_def] _ r this(1)] and n = this(2)
  show "lin_ok s'" "blk (fst b) (snd b) \<inter> lin_busy s = {}" "lin_busy s \<union> blk (fst b) (snd b) \<subseteq> lin_busy s'"
    using sound(1-3) unfolding n lin_ok_def lin_busy_def by simp_all
qed

subsection \<open>Reservations\<close>

lemma and_exp_minus_one: "k < 64 \<Longrightarrow> p AND (2 ^ k - 1) = 0 \<longleftrightarrow> 2 ^ k dvd unat (p :: uintptr)"
proof -
  assume k: "k < 64"
  have "p AND (2 ^ k - 1) = p mod 2 ^ k" by (simp flip: take_bit_eq_mask mask_eq_exp_minus_1 take_bit_eq_mod)
  moreover have "unat (p mod 2 ^ k) = unat p mod 2 ^ k" using k by (simp add: unat_mod unat_exp64)
  ultimately show ?thesis by (metis dvd_eq_mod_eq_0 unat_eq_zero)
qed

lemma reserveAligned_sound:
  assumes os: "\<not> os_windows os" "os_reserve os (calls s) v (sz + 2 ^ k) = (p, 0)" and p: "p \<noteq> 0" and k: "k \<le> 46"
    and room: "unat p + unat sz + 2 ^ k \<le> 2 ^ 47"
  shows "\<exists>a n s'. sysReserveAligned os v sz (2 ^ k) s = Some (Inr (a, n), s') \<and> 2 ^ k dvd unat a \<and> a \<noteq> 0 \<and>
    unat p \<le> unat a \<and> unat a + unat n \<le> unat p + unat sz + 2 ^ k \<and> unat sz \<le> unat n"
proof -
  have "unat (2 ^ k :: uintptr) = 2 ^ k" using k by (intro unat_exp64) simp
  then have s2: "unat (sz + 2 ^ k) = unat sz + 2 ^ k" using room by (simp add: unat_add_noof)
  have r: "sysReserve os v (sz + 2 ^ k) s = (Inr p, s\<lparr>calls := calls s + 1\<rparr>)"
    using os(2) by (simp add: sysReserve_def errnoErr_def)
  note u = reserveAligned.simps [of os v sz "2 ^ k" 0 s]
  show ?thesis
  proof (cases "2 ^ k dvd unat p")
    case True
    then have "p AND (2 ^ k - 1) = 0" using k by (simp add: and_exp_minus_one)
    then have "sysReserveAligned os v sz (2 ^ k) s = Some (Inr (p, sz + 2 ^ k), s\<lparr>calls := calls s + 1\<rparr>)"
      using p r by (simp add: sysReserveAligned_def u)
    then show ?thesis using True s2 p by auto
  next
    case False
    then have np: "p AND (2 ^ k - 1) \<noteq> 0" using k by (simp add: and_exp_minus_one)
    have "unat p \<le> 2 ^ 49" using room by simp
    note b = round_up_bounds [of k p, OF _ this]
    have "\<exists>s'. sysReserveAligned os v sz (2 ^ k) s = Some (Inr (round_up p (2 ^ k), sz), s')"
      using p r os(1) np by (simp add: sysReserveAligned_def u Let_def)
    moreover have "round_up p (2 ^ k) \<noteq> 0" using b(1) p k by (auto simp: unat_eq_zero)
    ultimately show ?thesis using b(1-3) k by (auto simp: less_imp_le)
  qed
qed

subsection \<open>Properties\<close>

definition demo_lin :: linearAlloc where
  "demo_lin = \<lparr>lin_next = 0x10000000, lin_mapped = 0x10000000, lin_end = 0x40000000\<rparr>"

definition demo_machine :: machine where
  "demo_machine = \<lparr>mem = Map.empty, calls = 0\<rparr>"

lemma demo_lin_inv: "lin_inv demo_lin s"
  by (auto simp: lin_inv_def demo_lin_def)



text \<open>
  An aligned block that alloc returns is aligned, ends before the end of the space, and is
  mapped to its last byte, unless that byte is the first of a page (see the rounding of
  next - 1), where the last byte can be left out.
\<close>
lemma linear_alloc_mapped:
  assumes "lin_inv l s" and "k \<le> 48" and "unat sz \<le> 2 ^ 48"
    and "lin_alloc os sz (2 ^ k) l s = (Inr p, l', s')"
  shows "2 ^ k dvd unat p \<and> unat p + unat sz \<le> unat (lin_end l) \<and> lin_inv l' s' \<and>
    (\<not> 4096 dvd unat p + unat sz - 1 \<longrightarrow> blk p sz \<subseteq> dom (mem s'))"
  using lin_alloc_sound [OF assms] by blast

text \<open>
  A size so large that next + size wraps around passes the test against the end of the space:
  alloc returns an address instead of an error and moves next backwards, over blocks in use.
\<close>
theorem linear_alloc_wraps:
  assumes "2 ^ 28 dvd unat (lin_next l)" and "0 < lin_next l" and "lin_next l \<le> lin_mapped l"
    and "lin_next l \<le> lin_end l" and "unat (lin_end l) \<le> 2 ^ 47"
  shows "lin_alloc os (- 4096) (2 ^ 28) l s = (Inr (lin_next l), l\<lparr>lin_next := lin_next l - 4096\<rparr>, s)"
proof -
  have n: "2 ^ 28 \<le> unat (lin_next l)" using assms(1,2) by (intro dvd_imp_le) (simp_all add: word_less_nat_alt)
  have n47: "unat (lin_next l) \<le> 2 ^ 47" using assms(4,5) by (simp add: word_le_nat_alt)
  have r: "round_up (lin_next l) (2 ^ 28) = lin_next l"
  proof -
    obtain q where q: "unat (lin_next l) = 2 ^ 28 * q" using assms(1) by blast
    have "unat (round_up (lin_next l) (2 ^ 28)) = (unat (lin_next l) + 2 ^ 28 - 1) div 2 ^ 28 * 2 ^ 28"
      using n47 by (intro round_up_unat) simp_all
    also have "(unat (lin_next l) + 2 ^ 28 - 1) div 2 ^ 28 = q" unfolding q by simp
    finally show ?thesis using q by (simp add: word_unat_eq_iff mult.commute)
  qed
  have m: "unat (lin_next l - 4096) = unat (lin_next l) - 4096" using n by (simp add: unat_sub_noof)
  have "\<not> lin_end l < lin_next l - 4096" using m assms(4) by (simp add: word_le_nat_alt word_less_nat_alt not_less)
  moreover have "\<not> lin_mapped l < round_up (lin_next l - 4096 - 1) DefaultPhysPageSize"
  proof -
    have "unat (lin_next l - 4096 - 1) = unat (lin_next l) - 4097"
      using n m unat_sub_noof [of 1 "lin_next l - 4096"] by simp
    moreover have "unat (round_up (lin_next l - 4096 - 1) (2 ^ 12)) < unat (lin_next l - 4096 - 1) + 2 ^ 12"
      using n47 calculation by (intro round_up_bounds) simp_all
    ultimately show ?thesis using assms(3) n by (simp add: word_le_nat_alt word_less_nat_alt not_less)
  qed
  ultimately show ?thesis using r by (simp add: lin_alloc_def Let_def)
qed

theorem linear_alloc_wraps_witness:
  "lin_alloc demo_os (- 4096) (2 ^ 28) demo_lin demo_machine = (Inr 0x10000000, demo_lin\<lparr>lin_next := 0xffff000\<rparr>, demo_machine)"
  using linear_alloc_wraps [of demo_lin, where os = demo_os and s = demo_machine] by (simp add: demo_lin_def)

text \<open>
  When some of the old space is left, expand only adds the size of the new reservation to the
  end, wherever the system put it: if it is elsewhere, the space that alloc hands out next was
  never reserved.
\<close>
theorem expand_ignores_address:
  assumes "0 < lin_end l - lin_next l" and "\<not> lin_end l < 1"
    and "sysReserveAligned os (lin_end l) 0x20000000 al s = Some (Inr (a, n), s')" and "a \<noteq> 0"
    and "unat (lin_end l) + unat n \<le> unat a"
  shows "\<exists>l'. expand os addr al l s = Some ((None, l'), s') \<and> lin_next l' = lin_next l \<and>
    lin_end l' = lin_end l + n \<and> blk (lin_end l) n \<inter> blk a n = {}"
proof -
  have "expand os addr al l s = Some ((None, l\<lparr>lin_end := lin_end l + n\<rparr>), s')"
    using assms(1-4) by (simp add: expand_def Let_def word_less_nat_alt)
  then show ?thesis using assms(5) by auto
qed

theorem expand_ignores_address_witness:
  "\<exists>l' s'. expand (demo_os\<lparr>os_reserve := (\<lambda>i a n. (0x100000000, 0))\<rparr>) 0 (2 ^ 28) demo_lin demo_machine
     = Some ((None, l'), s') \<and> lin_end l' = 0x40000000 + 0x30000000 \<and> blk 0x40000000 0x30000000 \<inter> blk 0x100000000 0x30000000 = {}"
proof -
  let ?os = "demo_os\<lparr>os_reserve := (\<lambda>i a n. (0x100000000, 0))\<rparr>"
  have "sysReserveAligned ?os (lin_end demo_lin) 0x20000000 (2 ^ 28) demo_machine
     = Some (Inr (0x100000000, 0x30000000), demo_machine\<lparr>calls := 1\<rparr>)"
    by (simp add: sysReserveAligned_def reserveAligned.simps [of _ _ _ _ 0] sysReserve_def errnoErr_def demo_machine_def demo_lin_def)
  from expand_ignores_address [OF _ _ this, of 0] show ?thesis by (auto simp: demo_lin_def)
qed

end
