(* ===== verification/BitMap.thy ===== *)
theory BitMap
  imports MetaAlloc
begin

text \<open>
  bit\_map.go: bit maps kept in raw memory. A \<open>gcBits\<close> is the address of an array of 32-bit
  words; the operations read and write the words through \<open>load32\<close> and \<open>store32\<close>, and fail on
  unmapped memory (a nil bit map in particular). The compare-and-swap loops are modelled as the
  round in which nobody disturbs the swap.
\<close>

unbundle bit_operations_syntax

subsection \<open>Definitions\<close>

type_synonym memory = "uintptr \<Rightarrow> uint8 option"

definition addb :: "uintptr \<Rightarrow> uintptr \<Rightarrow> uintptr" where
  "addb p n = p + n"

definition uint32p :: "uintptr \<Rightarrow> uintptr \<Rightarrow> uintptr" where
  "uint32p b n = addb b (n * 4)"

text \<open>Negate \<open>k\<close> words from the \<open>i\<close>-th on.\<close>

fun negate_words :: "memory \<Rightarrow> uintptr \<Rightarrow> uintptr \<Rightarrow> nat \<Rightarrow> memory option" where
  "negate_words m b i 0 = Some m"
| "negate_words m b i (Suc k) = do {
     v \<leftarrow> load32 m (uint32p b i);
     m' \<leftarrow> store32 m (uint32p b i) (NOT v);
     negate_words m' b (i + 1) k
   }"

definition newMarkBits ::
  "os \<Rightarrow> uintptr \<Rightarrow> bool \<Rightarrow> 'a raw_pool_scheme \<Rightarrow> ((goerr + uintptr) \<times> 'a raw_pool_scheme) option" where
  "newMarkBits os nelems zero s =
     (let blocksNeeded = (nelems + 63) div 64;
          uint32Needed = blocksNeeded * 2;
          allocator = newXAllocator (4 * uint32Needed)
      in case xAllocator_alloc os allocator s of
           None \<Rightarrow> None
         | Some (Inl err, _, s1) \<Rightarrow> Some (Inl err, s1)
         | Some (Inr p, _, s1) \<Rightarrow>
             if zero then Some (Inr p, s1)
             else do {
               m \<leftarrow> negate_words (mem s1) p 0 (nat (sint uint32Needed));
               Some (Inr p, s1\<lparr>mem := m\<rparr>)
             })"

definition newAllocBits ::
  "os \<Rightarrow> uintptr \<Rightarrow> 'a raw_pool_scheme \<Rightarrow> ((goerr + uintptr) \<times> 'a raw_pool_scheme) option" where
  "newAllocBits os nelems s = newMarkBits os nelems False s"

definition invert :: "uintptr \<Rightarrow> uintptr \<Rightarrow> memory \<Rightarrow> memory option" where
  "invert b len m =
     (let num = len div 32 + 1;
          num = (if len mod 32 = 0 then num - 1 else num)
      in negate_words m b 0 (nat (sint num)))"

definition bitp :: "uintptr \<Rightarrow> uintptr \<Rightarrow> uintptr \<times> uint32" where
  "bitp b n = (uint32p b (n div 32), push_bit (unat (n mod 32)) 1)"

record markBits =
  mb_uint32p :: uintptr
  mb_mask :: uint32
  mb_index :: uintptr

definition isMarked :: "markBits \<Rightarrow> memory \<Rightarrow> bool option" where
  "isMarked mb m = do {
     v \<leftarrow> load32 m (mb_uint32p mb);
     Some (v AND mb_mask mb \<noteq> 0)
   }"

definition setMarked :: "markBits \<Rightarrow> memory \<Rightarrow> memory option" where
  "setMarked mb m = do {
     val \<leftarrow> load32 m (mb_uint32p mb);
     store32 m (mb_uint32p mb) (val XOR mb_mask mb)
   }"

definition setMarkedNonAtomic :: "markBits \<Rightarrow> memory \<Rightarrow> memory option" where
  "setMarkedNonAtomic mb m = do {
     val \<leftarrow> load32 m (mb_uint32p mb);
     store32 m (mb_uint32p mb) (val OR mb_mask mb)
   }"

definition clearMarked :: "markBits \<Rightarrow> memory \<Rightarrow> memory option" where
  "clearMarked mb m = do {
     val \<leftarrow> load32 m (mb_uint32p mb);
     store32 m (mb_uint32p mb) (val AND NOT (mb_mask mb))
   }"

definition advance :: "markBits \<Rightarrow> markBits" where
  "advance mb =
     (let mb1 = (if mb_mask mb = 128
                 then mb\<lparr>mb_uint32p := mb_uint32p mb + 1, mb_mask := 1\<rparr>
                 else mb\<lparr>mb_mask := push_bit 1 (mb_mask mb)\<rparr>)
      in mb1\<lparr>mb_index := mb_index mb1 + 1\<rparr>)"

definition markBitsForIndex :: "uintptr \<Rightarrow> uintptr \<Rightarrow> markBits" where
  "markBitsForIndex gcmarkBits objIndex =
     (let (p, mask) = bitp gcmarkBits objIndex
      in \<lparr>mb_uint32p = p, mb_mask = mask, mb_index = objIndex\<rparr>)"

subsection \<open>Bits in memory\<close>

text \<open>The \<open>i\<close>-th bit of the array at \<open>b\<close>, and the first \<open>n\<close> bytes of it being mapped.\<close>

definition membit :: "memory \<Rightarrow> uintptr \<Rightarrow> nat \<Rightarrow> bool" where
  "membit m b i = (case m (b + of_nat (i div 8)) of None \<Rightarrow> False | Some v \<Rightarrow> bit v (i mod 8))"

definition bytes_at :: "memory \<Rightarrow> uintptr \<Rightarrow> nat \<Rightarrow> bool" where
  "bytes_at m b n \<longleftrightarrow> (\<forall>k < n. m (b + of_nat k) \<noteq> None)"

lemma load32_Some:
  assumes "m a = Some b0" "m (a + 1) = Some b1" "m (a + 2) = Some b2" "m (a + 3) = Some b3"
  shows "\<exists>v. load32 m a = Some v \<and> (\<forall>j < 32. bit v j = membit m a j)"
proof -
  let ?v = "ucast b0 OR push_bit 8 (ucast b1) OR push_bit 16 (ucast b2) OR push_bit 24 (ucast b3) :: uint32"
  have "bit ?v j = membit m a j" if "j < 32" for j
  proof -
    have "j div 8 < 4" using that by simp
    then consider "j div 8 = 0" | "j div 8 = 1" | "j div 8 = 2" | "j div 8 = 3" by linarith
    then show ?thesis
    proof cases
      case 1
      then have "j < 8" by simp
      then show ?thesis using assms by (auto simp: membit_def bit_or_iff bit_push_bit_iff bit_unsigned_iff)
    next
      case 2
      then have "8 \<le> j" "j < 16" "j mod 8 = j - 8" using minus_div_mult_eq_mod [of j 8] by auto
      then show ?thesis using assms 2 that
        by (auto simp: membit_def bit_or_iff bit_push_bit_iff bit_unsigned_iff dest: bit_imp_le_length)
    next
      case 3
      then have "16 \<le> j" "j < 24" "j mod 8 = j - 16" using minus_div_mult_eq_mod [of j 8] by auto
      then show ?thesis using assms 3 that
        by (auto simp: membit_def bit_or_iff bit_push_bit_iff bit_unsigned_iff dest: bit_imp_le_length)
    next
      case 4
      then have "24 \<le> j" "j < 32" "j mod 8 = j - 24" using minus_div_mult_eq_mod [of j 8] by auto
      then show ?thesis using assms 4 that
        by (auto simp: membit_def bit_or_iff bit_push_bit_iff bit_unsigned_iff dest: bit_imp_le_length)
    qed
  qed
  then show ?thesis using assms by (simp add: load32_def)
qed

lemma bytes_at_4:
  "bytes_at m a 4 \<longleftrightarrow> m a \<noteq> None \<and> m (a + 1) \<noteq> None \<and> m (a + 2) \<noteq> None \<and> m (a + 3) \<noteq> None"
  by (auto simp: bytes_at_def numeral_eq_Suc All_less_Suc ac_simps)

lemma load32_iff:
  "load32 m a = Some v \<longleftrightarrow> bytes_at m a 4 \<and> (\<forall>j < 32. bit v j = membit m a j)"
proof
  assume l: "load32 m a = Some v"
  then obtain b0 b1 b2 b3 where b: "m a = Some b0" "m (a + 1) = Some b1" "m (a + 2) = Some b2" "m (a + 3) = Some b3"
    by (auto simp: load32_def)
  have "bytes_at m a 4" using b by (simp add: bytes_at_4)
  then show "bytes_at m a 4 \<and> (\<forall>j < 32. bit v j = membit m a j)"
    using load32_Some [OF b] l by auto
next
  assume r: "bytes_at m a 4 \<and> (\<forall>j < 32. bit v j = membit m a j)"
  then obtain b0 b1 b2 b3 where b: "m a = Some b0" "m (a + 1) = Some b1" "m (a + 2) = Some b2" "m (a + 3) = Some b3"
    by (auto simp: bytes_at_4)
  from load32_Some [OF b] obtain w where w: "load32 m a = Some w" "\<forall>j < 32. bit w j = membit m a j" by auto
  have "w = v" by (rule bit_word_eqI) (use w r in simp)
  then show "load32 m a = Some v" using w by simp
qed

text \<open>A store changes the 32 bits it covers and nothing else.\<close>

lemma store32_some:
  assumes "bytes_at m a 4"
  shows "\<exists>m'. store32 m a v = Some m' \<and> (\<forall>j < 32. membit m' a j = bit v j)
    \<and> (\<forall>x. x - a \<ge> 4 \<longrightarrow> m' x = m x) \<and> dom m' = dom m"
proof -
  obtain w where w: "load32 m a = Some w"
    using assms by (auto simp: load32_def bytes_at_4)
  let ?m = "m(a \<mapsto> ucast v, a + 1 \<mapsto> ucast (drop_bit 8 v), a + 2 \<mapsto> ucast (drop_bit 16 v), a + 3 \<mapsto> ucast (drop_bit 24 v))"
  have s: "store32 m a v = Some ?m" using w by (simp add: store32_def)
  have "membit ?m a j = bit v j" if "j < 32" for j
  proof -
    define q r where "q = j div 8" and "r = j mod 8"
    have j: "j = 8 * q + r" "r < 8" "j div 8 = q" "j mod 8 = r" by (simp_all add: q_def r_def)
    have "q < 4" using that by (simp add: q_def)
    then consider "q = 0" | "q = 1" | "q = 2" | "q = 3" by linarith
    then show ?thesis
      using j(2) unfolding membit_def j(3,4) by cases (auto simp: j(1) bit_simps)
  qed
  moreover have "?m x = m x" if "x - a \<ge> 4" for x
  proof -
    have "x \<noteq> a" "x \<noteq> a + 1" "x \<noteq> a + 2" "x \<noteq> a + 3" using that by (auto simp: word_le_nat_alt)
    then show ?thesis by simp
  qed
  moreover have "dom ?m = dom m" using w by (auto simp: load32_def)
  ultimately show ?thesis using s by blast
qed

lemma membit_shift: "membit m (b + of_nat (4 * i)) j = membit m b (32 * i + j)"
proof -
  have "(32 * i + j) div 8 = 4 * i + j div 8" by simp
  then have "b + of_nat (4 * i) + of_nat (j div 8) = b + of_nat ((32 * i + j) div 8)" by simp
  moreover have "(32 * i + j) mod 8 = j mod 8"
  proof -
    have "(j + 8 * (4 * i)) mod 8 = j mod 8" by (rule mod_mult_self2)
    then show ?thesis by (simp add: ac_simps)
  qed
  ultimately show ?thesis unfolding membit_def by (simp only:)
qed

lemma bytes_at_shift: "bytes_at m b n \<Longrightarrow> i + k \<le> n \<Longrightarrow> bytes_at m (b + of_nat i) k"
  unfolding bytes_at_def by (metis add.assoc add_less_cancel_left of_nat_add order_less_le_trans)

lemma bytes_at_dom: "dom m \<subseteq> dom m' \<Longrightarrow> bytes_at m b n \<Longrightarrow> bytes_at m' b n"
  unfolding bytes_at_def by (meson domIff subset_iff)

lemma bytes_at_mono: "bytes_at m b n \<Longrightarrow> k \<le> n \<Longrightarrow> bytes_at m b k"
  by (auto simp: bytes_at_def)

lemma uint32p_of_nat: "uint32p b (of_nat i) = b + of_nat (4 * i)"
  by (simp add: uint32p_def addb_def mult.commute)

text \<open>
  A bit map of \<open>n\<close> words at \<open>b\<close>; \<open>bits_upd m m' b n f\<close>: the memory changed in that
  bit map only, whose bits now are \<open>f\<close>.
\<close>

definition bitmap :: "memory \<Rightarrow> uintptr \<Rightarrow> nat \<Rightarrow> bool" where
  "bitmap m b n \<longleftrightarrow> n \<le> 2 ^ 50 \<and> bytes_at m b (4 * n)"

definition bits_upd :: "memory \<Rightarrow> memory \<Rightarrow> uintptr \<Rightarrow> nat \<Rightarrow> (nat \<Rightarrow> bool) \<Rightarrow> bool" where
  "bits_upd m m' b n f \<longleftrightarrow> dom m' = dom m \<and> (\<forall>x. \<not> x - b < of_nat (4 * n) \<longrightarrow> m' x = m x)
     \<and> (\<forall>k < 32 * n. membit m' b k = f k)"

lemma bits_upd_bitmap: "bits_upd m m' b n f \<Longrightarrow> bitmap m c k \<Longrightarrow> bitmap m' c k"
  unfolding bits_upd_def bitmap_def by (auto intro: bytes_at_dom)

lemma unat_of_nat62: "k \<le> 2 ^ 62 \<Longrightarrow> unat (of_nat k :: uintptr) = k"
  by (simp add: unat_of_nat)

lemma store_word:
  assumes "bitmap m b n" and "i < n"
  shows "\<exists>v. load32 m (uint32p b (of_nat i)) = Some v \<and> (\<forall>j < 32. bit v j = membit m b (32 * i + j)) \<and>
    (\<forall>w. \<exists>m'. store32 m (uint32p b (of_nat i)) w = Some m' \<and>
      bits_upd m m' b n (\<lambda>k. if k div 32 = i then bit w (k mod 32) else membit m b k))"
proof -
  let ?a = "b + of_nat (4 * i)"
  have n: "4 * n \<le> 2 ^ 62" using assms(1) by (simp add: bitmap_def)
  have at: "bytes_at m ?a 4" using assms by (intro bytes_at_shift [of m b "4 * n"]) (auto simp: bitmap_def)
  then obtain v where v: "load32 m ?a = Some v" by (auto simp: load32_def bytes_at_4)
  have vb: "\<forall>j < 32. bit v j = membit m b (32 * i + j)"
    using v by (simp add: load32_iff membit_shift del: of_nat_mult)
  have "\<exists>m'. store32 m ?a w = Some m' \<and>
      bits_upd m m' b n (\<lambda>k. if k div 32 = i then bit w (k mod 32) else membit m b k)" for w
  proof -
    from store32_some [OF at, of w] obtain m' where m': "store32 m ?a w = Some m'" "dom m' = dom m"
      and new: "\<forall>j < 32. membit m' ?a j = bit w j" and old: "\<forall>x. x - ?a \<ge> 4 \<longrightarrow> m' x = m x" by blast
    have far: "m' (b + of_nat k) = m (b + of_nat k)" if "k < 4 * n" "k div 4 \<noteq> i" for k
    proof -
      have uk: "unat (of_nat k :: uintptr) = k" "unat (of_nat (4 * i) :: uintptr) = 4 * i"
        using that assms n by (intro unat_of_nat62; simp)+
      have "4 \<le> unat (of_nat k - of_nat (4 * i) :: uintptr)"
        using that assms n by (simp only: unat_sub_if' uk) auto
      moreover have "b + of_nat k - ?a = of_nat k - of_nat (4 * i)" by simp
      ultimately have "4 \<le> b + of_nat k - ?a" by (simp only: word_le_nat_alt) simp
      then show ?thesis using old by blast
    qed
    have "membit m' b k = (if k div 32 = i then bit w (k mod 32) else membit m b k)" if "k < 32 * n" for k
    proof (cases "k div 32 = i")
      case True
      have "membit m' b (32 * i + k mod 32) = bit w (k mod 32)"
        using new by (simp add: membit_shift [symmetric] del: of_nat_mult)
      then show ?thesis using True by (simp add: mult_div_mod_eq) (metis mult_div_mod_eq)
    next
      case False
      have "k div 8 div 4 = k div 32" by (simp add: div_mult2_eq [symmetric])
      then have "k div 8 < 4 * n" "k div 8 div 4 \<noteq> i" using that False by auto
      then show ?thesis using far False by (simp add: membit_def)
    qed
    moreover have "m' x = m x" if "\<not> x - b < of_nat (4 * n)" for x
    proof -
      have un: "unat (of_nat (4 * n) :: uintptr) = 4 * n" "unat (of_nat (4 * i) :: uintptr) = 4 * i"
        using assms n by (intro unat_of_nat62; simp)+
      have "4 * n \<le> unat (x - b)" using that un by (simp add: word_less_nat_alt del: of_nat_mult)
      then have "4 \<le> unat (x - b - of_nat (4 * i))" using un(2) assms(2) by (simp add: unat_sub_noof)
      moreover have "x - b - of_nat (4 * i) = x - ?a" by simp
      ultimately have "4 \<le> x - ?a" by (simp only: word_le_nat_alt) simp
      then show ?thesis using old by blast
    qed
    ultimately show ?thesis using m' unfolding bits_upd_def by blast
  qed
  then show ?thesis using v vb by (simp add: uint32p_of_nat)
qed

lemma negate_words_ok:
  assumes "bitmap m b n" and "i + k \<le> n"
  shows "\<exists>m'. negate_words m b (of_nat i) k = Some m' \<and>
    bits_upd m m' b n (\<lambda>j. if 32 * i \<le> j \<and> j < 32 * (i + k) then \<not> membit m b j else membit m b j)"
  using assms
proof (induction k arbitrary: i m)
  case 0
  then show ?case by (auto simp: bits_upd_def)
next
  case (Suc k)
  then have i: "i < n" by simp
  from store_word [OF Suc.prems(1) i]
  obtain v m1 where v: "load32 m (uint32p b (of_nat i)) = Some v"
    and vb: "\<forall>j < 32. bit v j = membit m b (32 * i + j)"
    and m1: "store32 m (uint32p b (of_nat i)) (NOT v) = Some m1"
    and new: "bits_upd m m1 b n (\<lambda>k. if k div 32 = i then bit (NOT v) (k mod 32) else membit m b k)" by blast
  have bit1: "membit m1 b j = (if j div 32 = i then \<not> membit m b j else membit m b j)" if "j < 32 * n" for j
    using new vb that by (simp add: bits_upd_def bit_not_iff) (metis mult_div_mod_eq)
  have "Suc i + k \<le> n" using Suc.prems(2) by simp
  from Suc.IH [OF bits_upd_bitmap [OF new Suc.prems(1)] this]
  obtain m' where m': "negate_words m1 b (of_nat (Suc i)) k = Some m'"
    and new': "bits_upd m1 m' b n (\<lambda>j. if 32 * Suc i \<le> j \<and> j < 32 * (Suc i + k) then \<not> membit m1 b j else membit m1 b j)"
    by blast
  have "negate_words m b (of_nat i) (Suc k) = Some m'"
    using v m1 m'(1) by (simp add: add.commute)
  moreover have "membit m' b j = (if 32 * i \<le> j \<and> j < 32 * (i + Suc k) then \<not> membit m b j else membit m b j)"
    if "j < 32 * n" for j
  proof -
    have "j div 32 = i \<longleftrightarrow> 32 * i \<le> j \<and> j < 32 * i + 32" by auto
    then show ?thesis using new' bit1 [OF that] that by (auto simp: bits_upd_def)
  qed
  ultimately show ?case using new new' by (auto simp: bits_upd_def)
qed

text \<open>The mark of object \<open>i\<close>: its word and mask, and what each operation does to the bit map.\<close>

lemma markBitsForIndex_of_nat:
  assumes "i < 32 * n" and "n \<le> 2 ^ 50"
  shows "markBitsForIndex b (of_nat i) =
    \<lparr>mb_uint32p = uint32p b (of_nat (i div 32)), mb_mask = push_bit (i mod 32) 1, mb_index = of_nat i\<rparr>"
proof -
  have u: "unat (of_nat i :: uintptr) = i" "unat (of_nat (i div 32) :: uintptr) = i div 32"
    using assms by (intro unat_of_nat62; simp)+
  have "(of_nat i :: uintptr) div 32 = of_nat (i div 32)" "unat ((of_nat i :: uintptr) mod 32) = i mod 32"
    by (simp_all add: word_unat_eq_iff unat_div unat_mod u)
  then show ?thesis by (simp add: markBitsForIndex_def bitp_def)
qed

lemma word_mask_bits:
  assumes "\<forall>j < 32. bit (v :: uint32) j = membit m b (32 * (i div 32) + j)"
  shows "v AND push_bit (i mod 32) 1 \<noteq> 0 \<longleftrightarrow> membit m b i"
    and "k div 32 = i div 32 \<Longrightarrow> bit (v XOR push_bit (i mod 32) 1) (k mod 32) = (if k = i then \<not> membit m b k else membit m b k)"
    and "k div 32 = i div 32 \<Longrightarrow> bit (v OR push_bit (i mod 32) 1) (k mod 32) = (if k = i then True else membit m b k)"
    and "k div 32 = i div 32 \<Longrightarrow> bit (v AND NOT (push_bit (i mod 32) 1)) (k mod 32) = (if k = i then False else membit m b k)"
proof -
  have v: "bit v (i mod 32) = membit m b i" using assms by (metis mod_less_divisor mult_div_mod_eq zero_less_numeral)
  have p: "bit (push_bit (i mod 32) (1 :: uint32)) j \<longleftrightarrow> j = i mod 32" for j
    by (auto simp: bit_simps)
  have "v AND push_bit (i mod 32) 1 = 0 \<longleftrightarrow> \<not> bit v (i mod 32)"
  proof
    assume "v AND push_bit (i mod 32) 1 = 0"
    then have "\<not> bit (v AND push_bit (i mod 32) 1) (i mod 32)" by simp
    then show "\<not> bit v (i mod 32)" by (simp only: bit_and_iff p) simp
  next
    assume "\<not> bit v (i mod 32)"
    then show "v AND push_bit (i mod 32) 1 = 0" by (intro bit_word_eqI) (auto simp: bit_and_iff p simp del: push_bit_of_1)
  qed
  then show "v AND push_bit (i mod 32) 1 \<noteq> 0 \<longleftrightarrow> membit m b i" using v by simp
  assume k: "k div 32 = i div 32"
  then have kb: "bit v (k mod 32) = membit m b k" using assms by (metis mod_less_divisor mult_div_mod_eq zero_less_numeral)
  have ki: "k mod 32 = i mod 32 \<longleftrightarrow> k = i" using k by (metis mult_div_mod_eq)
  show "bit (v XOR push_bit (i mod 32) 1) (k mod 32) = (if k = i then \<not> membit m b k else membit m b k)"
    "bit (v OR push_bit (i mod 32) 1) (k mod 32) = (if k = i then True else membit m b k)"
    "bit (v AND NOT (push_bit (i mod 32) 1)) (k mod 32) = (if k = i then False else membit m b k)"
    using kb ki by (auto simp: bit_xor_iff bit_or_iff bit_and_iff bit_not_iff p simp del: push_bit_of_1)
qed

lemma mark_ops:
  assumes "bitmap m b n" and "i < 32 * n"
  shows "isMarked (markBitsForIndex b (of_nat i)) m = Some (membit m b i)"
    and "\<exists>m'. setMarked (markBitsForIndex b (of_nat i)) m = Some m' \<and>
      bits_upd m m' b n (\<lambda>k. if k = i then \<not> membit m b k else membit m b k)"
    and "\<exists>m'. setMarkedNonAtomic (markBitsForIndex b (of_nat i)) m = Some m' \<and>
      bits_upd m m' b n (\<lambda>k. if k = i then True else membit m b k)"
    and "\<exists>m'. clearMarked (markBitsForIndex b (of_nat i)) m = Some m' \<and>
      bits_upd m m' b n (\<lambda>k. if k = i then False else membit m b k)"
proof -
  have "i div 32 < n" using assms(2) by auto
  from store_word [OF assms(1) this] obtain v where v: "load32 m (uint32p b (of_nat (i div 32))) = Some v"
    and vb: "\<forall>j < 32. bit v j = membit m b (32 * (i div 32) + j)"
    and st: "\<forall>w. \<exists>m'. store32 m (uint32p b (of_nat (i div 32))) w = Some m' \<and>
      bits_upd m m' b n (\<lambda>k. if k div 32 = i div 32 then bit w (k mod 32) else membit m b k)" by blast
  have mb: "markBitsForIndex b (of_nat i) = \<lparr>mb_uint32p = uint32p b (of_nat (i div 32)),
      mb_mask = push_bit (i mod 32) 1, mb_index = of_nat i\<rparr>"
    using assms by (intro markBitsForIndex_of_nat) (auto simp: bitmap_def)
  note w = word_mask_bits [OF vb]
  show "isMarked (markBitsForIndex b (of_nat i)) m = Some (membit m b i)"
    using v w(1) by (simp add: mb isMarked_def)
  have upd: "\<exists>m'. store32 m (uint32p b (of_nat (i div 32))) x = Some m' \<and>
      bits_upd m m' b n (\<lambda>k. if k = i then f k else membit m b k)"
    if "\<And>k. k div 32 = i div 32 \<Longrightarrow> bit x (k mod 32) = (if k = i then f k else membit m b k)" for x f
  proof -
    from st obtain m' where "store32 m (uint32p b (of_nat (i div 32))) x = Some m'"
      "bits_upd m m' b n (\<lambda>k. if k div 32 = i div 32 then bit x (k mod 32) else membit m b k)" by blast
    then show ?thesis using that by (intro exI [of _ m']) (auto simp: bits_upd_def)
  qed
  show "\<exists>m'. setMarked (markBitsForIndex b (of_nat i)) m = Some m' \<and>
      bits_upd m m' b n (\<lambda>k. if k = i then \<not> membit m b k else membit m b k)"
    using upd [OF w(2)] v unfolding mb setMarked_def by (simp del: push_bit_of_1)
  show "\<exists>m'. setMarkedNonAtomic (markBitsForIndex b (of_nat i)) m = Some m' \<and>
      bits_upd m m' b n (\<lambda>k. if k = i then True else membit m b k)"
    using upd [OF w(3)] v unfolding mb setMarkedNonAtomic_def by (simp del: push_bit_of_1)
  show "\<exists>m'. clearMarked (markBitsForIndex b (of_nat i)) m = Some m' \<and>
      bits_upd m m' b n (\<lambda>k. if k = i then False else membit m b k)"
    using upd [OF w(4)] v unfolding mb clearMarked_def by (simp del: push_bit_of_1)
qed

lemma membit_zero: "m (b + of_nat (i div 8)) = Some 0 \<Longrightarrow> \<not> membit m b i"
  by (simp add: membit_def)

text \<open>
  What \<open>newMarkBits\<close> returns: a bit map over fresh memory with a bit for every element, all
  zero or all one; memory in use before is not touched.
\<close>

definition bitmap_words :: "uintptr \<Rightarrow> nat" where
  "bitmap_words n = 2 * ((unat n + 63) div 64)"

lemma newMarkBits_words:
  assumes "unat n \<le> 2 ^ 40"
  shows "bitmap_words n \<le> 2 ^ 40" and "(n + 63) div 64 * 2 = of_nat (bitmap_words n)"
    and "unat (of_nat (bitmap_words n) :: uintptr) = bitmap_words n"
    and "nat (sint (of_nat (bitmap_words n) :: uintptr)) = bitmap_words n"
    and "unat (of_nat (4 * bitmap_words n) :: uintptr) = 4 * bitmap_words n"
proof -
  let ?w = "bitmap_words n"
  have un: "unat (n + 63) = unat n + 63" using assms by (simp add: unat_add_noof)
  show wb: "?w \<le> 2 ^ 40" using assms by (simp add: bitmap_words_def)
  show b: "unat (of_nat ?w :: uintptr) = ?w" using wb by (intro unat_of_nat62) simp
  have "unat ((n + 63) div 64) = (unat n + 63) div 64" by (simp add: unat_div un)
  then have "unat ((n + 63) div 64 * 2) = ?w" using assms by (simp add: unat_mult_noof bitmap_words_def)
  then show "(n + 63) div 64 * 2 = of_nat ?w" using b by (simp add: word_unat_eq_iff)
  show "nat (sint (of_nat ?w :: uintptr)) = ?w"
    using wb by (simp only: sint_uint) (simp add: uint_nat b signed_take_bit_int_eq_self)
  show "unat (of_nat (4 * ?w) :: uintptr) = 4 * ?w" using wb by (intro unat_of_nat62) simp
qed

lemmas newMarkBits_unfold = newMarkBits_def xAllocator_alloc_def newXAllocator_def Let_def

lemma newMarkBits_sound:
  assumes inv: "pool_inv os s" "pool_clean s" and n: "unat n \<le> 2 ^ 40"
    and st: "newMarkBits os n z s = Some (Inr p, s')"
  defines "w \<equiv> bitmap_words n"
  shows "pool_inv os s'" "pool_clean s'" "bitmap (mem s') p w" "\<forall>i < 32 * w. membit (mem s') p i = (\<not> z)"
    "blk p (of_nat (4 * w)) \<inter> pool_used s = {}" "pool_used s \<union> blk p (of_nat (4 * w)) \<subseteq> pool_used s'"
    "\<forall>x \<in> pool_used s. mem s' x = mem s x" "unat p + 4 * w \<le> 2 ^ 47" "p \<noteq> 0"
    "dom (mem s) \<subseteq> dom (mem s')" "\<And>A. os_apart os A \<Longrightarrow> pool_moves os A s s'"
proof -
  note w = newMarkBits_words [OF n, folded w_def]
  have wb: "w \<le> 2 ^ 40" by (rule w)
  have sz: "unat (of_nat (4 * w) :: uintptr) = 4 * w" by (rule w)
  obtain s1 where al: "pool_alloc os (of_nat (4 * w)) s = Some (Inr p, s1)"
    and s': "(z \<and> s' = s1) \<or> (\<not> z \<and> (\<exists>m. negate_words (mem s1) p 0 w = Some m \<and> s' = s1\<lparr>mem := m\<rparr>))"
    using st unfolding newMarkBits_unfold w(2) w(4)
    by (simp only: xAllocator.simps xAllocator.update_convs) (auto split: option.splits sum.splits if_splits prod.splits)
  note sound = pool_alloc_sound [OF inv(1) al] and clean = pool_alloc_clean [OF inv al]
  have at: "mem s1 (p + of_nat k) = Some 0" if "k < 4 * w" for k
  proof -
    have "unat (of_nat k :: uintptr) = k" using that wb by (intro unat_of_nat62) simp
    then have "unat (p + of_nat k) = unat p + k" using sound(6) that sz by (simp add: unat_add_noof)
    then show ?thesis using clean(2) that sz by simp
  qed
  have bm: "bitmap (mem s1) p w" using wb at by (auto simp: bitmap_def bytes_at_def)
  have bits: "\<not> membit (mem s1) p i" if "i < 32 * w" for i
    using that by (intro membit_zero at) auto
  show "blk p (of_nat (4 * w)) \<inter> pool_used s = {}" "p \<noteq> 0" by (rule sound)+
  show "unat p + 4 * w \<le> 2 ^ 47" using sound(6) sz by simp
  have "pool_inv os s' \<and> pool_clean s' \<and> bitmap (mem s') p w \<and> (\<forall>i < 32 * w. membit (mem s') p i = (\<not> z))
    \<and> pool_used s' = pool_used s1 \<and> (\<forall>x \<in> pool_used s. mem s' x = mem s x) \<and> dom (mem s') = dom (mem s1)"
  proof (cases z)
    case True
    then show ?thesis using s' sound clean bm bits by simp
  next
    case False
    then obtain m where m: "negate_words (mem s1) p 0 w = Some m" "s' = s1\<lparr>mem := m\<rparr>" using s' by auto
    from negate_words_ok [OF bm, of 0 w] m(1)
    have upd: "bits_upd (mem s1) m p w (\<lambda>j. if j < 32 * w then \<not> membit (mem s1) p j else membit (mem s1) p j)"
      by simp
    have out: "m x = mem s1 x" if "x \<notin> blk p (of_nat (4 * w))" for x
    proof -
      have "\<not> x - p < of_nat (4 * w)"
        using that sound(6) by (subst diff_less_iff_blk) simp_all
      then show ?thesis using upd by (simp add: bits_upd_def)
    qed
    have d: "dom m = dom (mem s1)" using upd by (simp add: bits_upd_def)
    have "pool_clean s'" unfolding m(2) using sound(3) out by (intro pool_clean_write clean) blast
    moreover have "pool_inv os s'" using sound(1) d by (simp add: m(2) pool_inv_write)
    moreover have "bitmap (mem s') p w" using bits_upd_bitmap [OF upd bm] by (simp add: m(2))
    moreover have "\<forall>i < 32 * w. membit (mem s') p i" using upd bits by (simp add: m(2) bits_upd_def)
    moreover have "\<forall>x \<in> pool_used s. mem s' x = mem s x" using out clean(3) sound(2) unfolding m(2) by (simp del: mem_blk) (metis disjoint_iff)
    ultimately show ?thesis using False d by (simp add: m(2))
  qed
  then show "pool_inv os s'" "pool_clean s'" "bitmap (mem s') p w" "\<forall>i < 32 * w. membit (mem s') p i = (\<not> z)"
    "pool_used s \<union> blk p (of_nat (4 * w)) \<subseteq> pool_used s'"
    "\<forall>x \<in> pool_used s. mem s' x = mem s x" "dom (mem s) \<subseteq> dom (mem s')" using sound(3,8) by auto
  fix A assume A: "os_apart os A"
  have "\<forall>x \<in> A. mem s' x = mem s1 x"
  proof (cases z)
    case False
    then obtain m where m: "negate_words (mem s1) p 0 w = Some m" "s' = s1\<lparr>mem := m\<rparr>" using s' by auto
    from negate_words_ok [OF bm, of 0 w] m(1) have "\<forall>x. \<not> x - p < of_nat (4 * w) \<longrightarrow> m x = mem s1 x" by (simp add: bits_upd_def)
    moreover have "x - p < of_nat (4 * w) \<longleftrightarrow> x \<in> blk p (of_nat (4 * w))" for x
      using sound(6) by (subst diff_less_iff_blk) simp_all
    moreover have "blk p (of_nat (4 * w)) \<inter> A = {}" using os_apart_used [OF sound(1) A] sound(3) by blast
    ultimately show ?thesis unfolding m(2) by (auto simp del: mem_blk)
  qed (use s' in simp)
  then show "pool_moves os A s s'"
    using \<open>pool_inv os s' \<and> _\<close> sound(3,8) pool_alloc_moves [OF inv A al] unfolding pool_moves_def by auto
qed


lemma newMarkBits_safe:
  assumes inv: "pool_inv os s" "pool_clean s" and n: "unat n \<le> 2 ^ 40"
  shows "newMarkBits os n z s \<noteq> None"
proof
  assume st: "newMarkBits os n z s = None"
  let ?w = "bitmap_words n"
  note w = newMarkBits_words [OF n]
  obtain p s1 where al: "pool_alloc os (4 * of_nat ?w) s = Some (Inr p, s1)"
    and neg: "\<not> z" "negate_words (mem s1) p 0 ?w = None"
    using st pool_alloc_safe [OF inv(1), of "4 * of_nat ?w"]
    unfolding newMarkBits_unfold w(2) w(4)
    by (simp only: xAllocator.simps xAllocator.update_convs)
      (auto simp: bind_eq_None_conv split: option.splits sum.splits if_splits prod.splits)
  have "newMarkBits os n True s = Some (Inr p, s1)"
    using al unfolding newMarkBits_unfold w(2) w(4) by (simp only: xAllocator.simps xAllocator.update_convs) simp
  from newMarkBits_sound(3) [OF inv n this] have "bitmap (mem s1) p ?w" .
  from negate_words_ok [OF this, of 0 ?w] neg(2) show False by simp
qed

text \<open>The bits of at most 32768 objects fit in a page.\<close>

lemma newMarkBits_within:
  assumes inv: "pool_inv os s" and n: "unat n \<le> 32768" and st: "newMarkBits os n z s = Some (r, s')"
  shows "within_meta 1 s r s'"
proof -
  let ?w = "bitmap_words n"
  have n40: "unat n \<le> 2 ^ 40" using n by simp
  note w = newMarkBits_words [OF n40]
  have "?w \<le> 1024" using n by (simp add: bitmap_words_def)
  then have sz: "unat (of_nat (4 * ?w) :: uintptr) \<le> 4096" using w(5) by simp
  obtain s1 where al: "pool_alloc os (of_nat (4 * ?w)) s = Some (r, s1)" and e: "pool_xrm s' = pool_xrm s1" "pool_index s' = pool_index s1"
    using st unfolding newMarkBits_unfold w(2) w(4)
    by (simp only: xAllocator.simps xAllocator.update_convs) (auto split: option.splits sum.splits if_splits prod.splits)
  show ?thesis by (rule within_meta_same [OF pool_alloc_within [OF inv sz al]]) (simp_all add: e)
qed

subsection \<open>Properties\<close>

text \<open>
  C38: newAllocBits does not panic, and when it succeeds the bit of every element is set, so every
  object of a new span is free; the bit map lies in memory nobody held, and no byte handed out
  before is written.
\<close>
theorem newAllocBits_all_free:
  assumes "pool_inv os s" and "pool_clean s" and "unat n \<le> 2 ^ 40"
  shows "\<exists>r s'. newAllocBits os n s = Some (r, s') \<and>
    (\<forall>p. r = Inr p \<longrightarrow>
       (\<forall>i < unat n. isMarked (markBitsForIndex p (of_nat i)) (mem s') = Some True) \<and>
       blk p (of_nat (4 * bitmap_words n)) \<inter> pool_used s = {} \<and>
       (\<forall>x \<in> pool_used s. mem s' x = mem s x))"
proof -
  obtain r s' where st: "newAllocBits os n s = Some (r, s')"
    using newMarkBits_safe [OF assms] by (fastforce simp: newAllocBits_def)
  have "isMarked (markBitsForIndex p (of_nat i)) (mem s') = Some True"
    if "r = Inr p" "i < unat n" for p i
  proof -
    have "newMarkBits os n False s = Some (Inr p, s')" using st that by (simp add: newAllocBits_def)
    note s = newMarkBits_sound [OF assms this]
    have "i < 32 * bitmap_words n" using that(2) by (simp add: bitmap_words_def)
    then show ?thesis using s(4) mark_ops(1) [OF s(3)] by simp
  qed
  moreover have "blk p (of_nat (4 * bitmap_words n)) \<inter> pool_used s = {}" "\<forall>x \<in> pool_used s. mem s' x = mem s x"
    if "r = Inr p" for p
    using newMarkBits_sound(5,7) [OF assms, of False p s'] st that by (simp_all add: newAllocBits_def)
  ultimately show ?thesis using st by blast
qed

theorem newAllocBits_all_free_witness:
  "\<exists>r s'. newAllocBits demo_os 100 pool_init = Some (r, s') \<and>
    (\<forall>p. r = Inr p \<longrightarrow> (\<forall>i < 100. isMarked (markBitsForIndex p (of_nat i)) (mem s') = Some True))"
  using newAllocBits_all_free [OF pool_init_inv [OF demo_os_fresh] pool_init_clean, of 100] by auto

text \<open>
  setMarked inverts the mark of its object and nothing else, so marking an object twice
  (freeing it twice) leaves it unmarked: the second free cancels the first.
\<close>
lemma setMarked_twice_unmarks:
  assumes "bitmap m b n" and "i < 32 * n"
  shows "\<exists>m1 m2. setMarked (markBitsForIndex b (of_nat i)) m = Some m1 \<and>
    isMarked (markBitsForIndex b (of_nat i)) m1 = Some (\<not> membit m b i) \<and>
    (\<forall>k < 32 * n. k \<noteq> i \<longrightarrow> membit m1 b k = membit m b k) \<and>
    setMarked (markBitsForIndex b (of_nat i)) m1 = Some m2 \<and>
    (\<forall>k < 32 * n. membit m2 b k = membit m b k)"
proof -
  from mark_ops(2) [OF assms] obtain m1 where m1: "setMarked (markBitsForIndex b (of_nat i)) m = Some m1"
    and u1: "bits_upd m m1 b n (\<lambda>k. if k = i then \<not> membit m b k else membit m b k)" by blast
  note b1 = bits_upd_bitmap [OF u1 assms(1)]
  from mark_ops(2) [OF b1 assms(2)] obtain m2 where m2: "setMarked (markBitsForIndex b (of_nat i)) m1 = Some m2"
    and u2: "bits_upd m1 m2 b n (\<lambda>k. if k = i then \<not> membit m1 b k else membit m1 b k)" by blast
  have "isMarked (markBitsForIndex b (of_nat i)) m1 = Some (\<not> membit m b i)"
    using mark_ops(1) [OF b1 assms(2)] u1 assms(2) by (simp add: bits_upd_def)
  moreover have "membit m2 b k = membit m b k" if "k < 32 * n" for k
    using u1 u2 that by (auto simp: bits_upd_def)
  ultimately show ?thesis using m1 m2 u1 by (auto simp: bits_upd_def)
qed

end
