(* ===== verification/Span.thy ===== *)
theory Span
  imports BitMap
begin

text \<open>
  span.go: a span is a run of pages cut into objects of one size. \<open>allocBits\<close> has a one for
  every free object; \<open>allocCache\<close> holds the next bits of it, shifted so that its lowest bit
  belongs to \<open>freeIndex\<close>. The mutex and the pointer to the (only) heap are left out of the
  record. Objects are found by their index; the bit maps are read from memory.
\<close>

unbundle bit_operations_syntax

subsection \<open>Definitions\<close>

record xSpan =
  classIndex :: nat
  classSize :: uintptr
  startAddr :: uintptr
  npages :: uintptr
  freeIndex :: uintptr
  extensionPoint :: uintptr
  nelems :: uintptr
  allocCache :: uint64
  allocBits :: uintptr
  gcmarkBits :: uintptr
  span_baseMask :: uint16
  divMul :: uint16
  divShift :: uint8
  divShift2 :: uint8
  allocCount :: uintptr
  next_span :: uintptr

text \<open>
  A positive \<open>float32\<close> is \<open>m / 2 ^ e\<close> for naturals \<open>m < 2 ^ 24\<close> and \<open>e\<close>;
  \<open>round24\<close> rounds a natural to 24 significant bits, ties to even.
\<close>

type_synonym float32 = "nat \<times> nat"

fun bit_length :: "nat \<Rightarrow> nat" where
  "bit_length n = (if n = 0 then 0 else Suc (bit_length (n div 2)))"

definition round24 :: "nat \<Rightarrow> nat" where
  "round24 n =
     (let k = 2 ^ (bit_length n - 24);
          q = n div k;
          r = n mod k
      in (if 2 * r > k \<or> (2 * r = k \<and> odd q) then q + 1 else q) * k)"

definition span_layout :: "xSpan \<Rightarrow> uintptr \<times> uintptr \<times> uintptr" where
  "span_layout s =
     (let total = push_bit 12 (npages s);
          size = classSize s
      in (size, if size > 0 then total div size else 0, total))"

text \<open>\<open>uintptr(float32(n) * fact)\<close>.\<close>

definition extension :: "uintptr \<Rightarrow> float32 \<Rightarrow> uintptr" where
  "extension n f = of_nat (round24 (round24 (unat n) * fst f) div 2 ^ snd f)"

definition setDivMagic :: "xSpan \<Rightarrow> xSpan option" where
  "setDivMagic s =
     (if classIndex s = 0 then Some (s\<lparr>divShift := 0, divMul := 0, divShift2 := 0, span_baseMask := 0\<rparr>)
      else if classIndex s < NumSizeClasses
      then let m = class_to_divmagic ! classIndex s
           in Some (s\<lparr>divShift := shift m, divMul := mul m, divShift2 := shift2 m, span_baseMask := baseMask m\<rparr>)
      else None)"

definition span_Init ::
  "os \<Rightarrow> float32 \<Rightarrow> xSpan \<Rightarrow> 'a raw_pool_scheme \<Rightarrow> ((goerr + unit) \<times> xSpan \<times> 'a raw_pool_scheme) option" where
  "span_Init os f s p =
     (let (_, n, _) = span_layout s;
          s = s\<lparr>extensionPoint := extension n f, freeIndex := 0, allocCache := NOT 0, nelems := n\<rparr>
      in case newMarkBits os (nelems s) True p of
           None \<Rightarrow> None
         | Some (Inl err, p) \<Rightarrow> Some (Inl err, s\<lparr>gcmarkBits := 0\<rparr>, p)
         | Some (Inr g, p) \<Rightarrow>
             (case newAllocBits os (nelems s) p of
                None \<Rightarrow> None
              | Some (r, p) \<Rightarrow>
                  map_option
                    (\<lambda>s. (case r of Inl err \<Rightarrow> Inl err | Inr _ \<Rightarrow> Inr (), s, p))
                    (setDivMagic (s\<lparr>gcmarkBits := g,
                       allocBits := (case r of Inl _ \<Rightarrow> 0 | Inr a \<Rightarrow> a)\<rparr>))))"

definition needGrow :: "xSpan \<Rightarrow> bool" where
  "needGrow s = (extensionPoint s \<le> allocCount s)"

definition isFull :: "xSpan \<Rightarrow> bool" where
  "isFull s = ((allocCount s + 1) * classSize s \<ge> PageSize * npages s)"

text \<open>One round of the loop of \<open>getFree\<close>, whose swap nobody disturbs.\<close>

definition getFree :: "uintptr \<Rightarrow> xSpan \<Rightarrow> uintptr \<times> bool \<times> xSpan" where
  "getFree bitSize s =
     (let oldVal = freeIndex s;
          aligned = round_up oldVal PageSize - oldVal;
          bitSize = (if aligned < bitSize then bitSize + aligned else bitSize)
      in if oldVal + bitSize > PageSize * npages s then (0, False, s)
         else (oldVal, True, s\<lparr>freeIndex := oldVal + bitSize\<rparr>))"

definition objIndex :: "xSpan \<Rightarrow> uintptr \<Rightarrow> uintptr" where
  "objIndex s p =
     (let byteOffset = p - startAddr s
      in if byteOffset = 0 then 0
         else if span_baseMask s \<noteq> 0 then drop_bit (unat (divShift s)) byteOffset
         else drop_bit (unat (divShift2 s)) (drop_bit (unat (divShift s)) byteOffset * ucast (divMul s)))"

definition nextFreeFast :: "xSpan \<Rightarrow> uintptr \<times> xSpan" where
  "nextFreeFast s =
     (if freeIndex s \<ge> nelems s then (0, s)
      else
        let theBit = Ctz64 (allocCache s)
        in if theBit < 64
           then let result = freeIndex s + of_int theBit
                in if result < nelems s
                   then let freeidx = result + 1
                        in if freeidx mod 64 = 0 \<and> freeidx \<noteq> nelems s then (0, s)
                           else (result * classSize s + startAddr s,
                                 s\<lparr>allocCache := drop_bit (nat (theBit + 1)) (allocCache s),
                                   freeIndex := freeidx, allocCount := allocCount s + 1\<rparr>)
                   else (0, s)
           else (0, s))"

text \<open>The eight bytes of the bit map from word \<open>whichByte\<close> on.\<close>

definition refillAllocCache :: "memory \<Rightarrow> uintptr \<Rightarrow> xSpan \<Rightarrow> xSpan option" where
  "refillAllocCache m whichByte s =
     (let p = uint32p (allocBits s) whichByte
      in do {
        b0 \<leftarrow> m p;
        b1 \<leftarrow> m (p + 1);
        b2 \<leftarrow> m (p + 2);
        b3 \<leftarrow> m (p + 3);
        b4 \<leftarrow> m (p + 4);
        b5 \<leftarrow> m (p + 5);
        b6 \<leftarrow> m (p + 6);
        b7 \<leftarrow> m (p + 7);
        Some (s\<lparr>allocCache := ucast b0 OR push_bit 8 (ucast b1) OR push_bit 16 (ucast b2)
          OR push_bit 24 (ucast b3) OR push_bit 32 (ucast b4) OR push_bit 40 (ucast b5)
          OR push_bit 48 (ucast b6) OR push_bit 56 (ucast b7)\<rparr>)
      })"

text \<open>
  The loop of \<open>nextFreeIndex\<close>: move to the next 64 bits while the cache is empty. The result
  is the index the cache belongs to, or \<open>None\<close> inside when the span is exhausted.
\<close>

partial_function (option) scanCache :: "memory \<Rightarrow> uintptr \<Rightarrow> xSpan \<Rightarrow> (uintptr option \<times> xSpan) option" where
  "scanCache m sfreeindex s =
     (if Ctz64 (allocCache s) = 64
      then let sfreeindex = (sfreeindex + 64) AND NOT (64 - 1)
           in if sfreeindex \<ge> nelems s then Some (None, s\<lparr>freeIndex := nelems s\<rparr>)
              else Option.bind (refillAllocCache m (sfreeindex div 32) s) (scanCache m sfreeindex)
      else Some (Some sfreeindex, s))"

definition nextFreeIndex :: "memory \<Rightarrow> xSpan \<Rightarrow> (uintptr \<times> bool \<times> xSpan) option" where
  "nextFreeIndex m s =
     (if freeIndex s \<ge> nelems s then Some (freeIndex s, False, s)
      else case scanCache m (freeIndex s) s of
             None \<Rightarrow> None
           | Some (None, s) \<Rightarrow> Some (nelems s, False, s)
           | Some (Some sfreeindex, s) \<Rightarrow>
               (let bitIndex = Ctz64 (allocCache s);
                    result = sfreeindex + of_int bitIndex
                in if result \<ge> nelems s then Some (nelems s, False, s\<lparr>freeIndex := nelems s\<rparr>)
                   else
                     let s = s\<lparr>allocCache := drop_bit (nat (bitIndex + 1)) (allocCache s)\<rparr>;
                         sfreeindex = result + 1
                     in do {
                       s \<leftarrow> (if sfreeindex mod 64 = 0 \<and> sfreeindex \<noteq> nelems s
                             then refillAllocCache m (sfreeindex div 32) s else Some s);
                       Some (result, True, s\<lparr>freeIndex := sfreeindex\<rparr>)
                     }))"

definition nextFree :: "memory \<Rightarrow> xSpan \<Rightarrow> (uintptr \<times> bool \<times> xSpan) option" where
  "nextFree m s = do {
     (offset, has, s) \<leftarrow> nextFreeIndex m s;
     Some (if has then (offset * classSize s + startAddr s, True, s\<lparr>allocCount := allocCount s + 1\<rparr>)
           else (0, False, s))
   }"

definition freeOffset :: "memory \<Rightarrow> xSpan \<Rightarrow> (uintptr \<times> bool \<times> xSpan) option" where
  "freeOffset m s =
     (let (ptr, s) = nextFreeFast s
      in if ptr = 0 then nextFree m s else Some (ptr, True, s))"

text \<open>The ones of four bytes, and the marked objects of a span.\<close>

definition ones32 :: "uint32 \<Rightarrow> uintptr" where
  "ones32 v = ucast (oneBitCount ! unat (ucast v :: uint8)) + ucast (oneBitCount ! unat (ucast (drop_bit 8 v) :: uint8))
     + ucast (oneBitCount ! unat (ucast (drop_bit 16 v) :: uint8)) + ucast (oneBitCount ! unat (ucast (drop_bit 24 v) :: uint8))"

fun countWords :: "memory \<Rightarrow> uintptr \<Rightarrow> uintptr \<Rightarrow> nat \<Rightarrow> uintptr \<Rightarrow> uintptr option" where
  "countWords m b i 0 count = Some count"
| "countWords m b i (Suc k) count = do {
     v \<leftarrow> load32 m (uint32p b i);
     countWords m b (i + 1) k (count + ones32 v)
   }"

definition countGcMarkBits :: "memory \<Rightarrow> xSpan \<Rightarrow> uintptr option" where
  "countGcMarkBits m s =
     (let maxIndex = nelems s div 32
      in do {
        count \<leftarrow> countWords m (gcmarkBits s) 0 (unat maxIndex) 0;
        (let bitsInLastByte = nelems s mod 32
         in if bitsInLastByte \<noteq> 0
            then do {
              mrkBits \<leftarrow> load32 m (uint32p (gcmarkBits s) maxIndex);
              Some (count + ones32 (mrkBits AND (push_bit (unat bitsInLastByte) 1 - 1)))
            }
            else Some count)
      })"

subsection \<open>The free objects of a span\<close>

text \<open>
  \<open>cache_at m s k\<close>: the cache holds the alloc bits from \<open>k\<close> to the end of its group of 64.
\<close>

definition cache_at :: "memory \<Rightarrow> xSpan \<Rightarrow> nat \<Rightarrow> bool" where
  "cache_at m s k \<longleftrightarrow> (\<forall>j < 64. bit (allocCache s) j \<longleftrightarrow> k mod 64 + j < 64 \<and> membit m (allocBits s) (k + j))"

definition span_free :: "memory \<Rightarrow> xSpan \<Rightarrow> nat set" where
  "span_free m s = {i. unat (freeIndex s) \<le> i \<and> i < unat (nelems s) \<and> membit m (allocBits s) i}"

definition span_ok :: "memory \<Rightarrow> xSpan \<Rightarrow> bool" where
  "span_ok m s \<longleftrightarrow>
     unat (nelems s) \<le> 2 ^ 40 \<and> freeIndex s \<le> nelems s \<and>
     bitmap m (allocBits s) (bitmap_words (nelems s)) \<and>
     (freeIndex s < nelems s \<longrightarrow> cache_at m s (unat (freeIndex s))) \<and>
     0 < startAddr s \<and> 0 < classSize s \<and>
     unat (startAddr s) + unat (nelems s) * unat (classSize s) \<le> 2 ^ 47"

lemma refill_ok:
  assumes b: "bitmap m (allocBits s) n" and i: "2 * i + 2 \<le> n"
  shows "\<exists>c. refillAllocCache m (of_nat (2 * i)) s = Some (s\<lparr>allocCache := c\<rparr>) \<and>
    (\<forall>j < 64. bit c j = membit m (allocBits s) (64 * i + j))"
proof -
  let ?p = "allocBits s + of_nat (4 * (2 * i))"
  have p: "uint32p (allocBits s) (of_nat (2 * i)) = ?p" by (rule uint32p_of_nat)
  have at: "bytes_at m ?p 8"
    using b i by (intro bytes_at_shift [of m _ "4 * n"]) (auto simp: bitmap_def)
  then have ex: "m (?p + of_nat k) \<noteq> None" if "k < 8" for k using that by (simp add: bytes_at_def)
  obtain b0 b1 b2 b3 b4 b5 b6 b7 where bs: "m ?p = Some b0" "m (?p + 1) = Some b1" "m (?p + 2) = Some b2"
    "m (?p + 3) = Some b3" "m (?p + 4) = Some b4" "m (?p + 5) = Some b5" "m (?p + 6) = Some b6" "m (?p + 7) = Some b7"
    using ex [of 0] ex [of 1] ex [of 2] ex [of 3] ex [of 4] ex [of 5] ex [of 6] ex [of 7] by auto
  let ?c = "ucast b0 OR push_bit 8 (ucast b1) OR push_bit 16 (ucast b2)
          OR push_bit 24 (ucast b3) OR push_bit 32 (ucast b4) OR push_bit 40 (ucast b5)
          OR push_bit 48 (ucast b6) OR push_bit 56 (ucast b7) :: uint64"
  have "bit ?c j = membit m ?p j" if "j < 64" for j
  proof -
    define q r where "q = j div 8" and "r = j mod 8"
    have j: "j = 8 * q + r" "r < 8" "j div 8 = q" "j mod 8 = r" by (simp_all add: q_def r_def)
    have big: "\<not> bit (x :: uint8) k" if "8 \<le> k" for x k using that bit_imp_le_length [of x k] by auto
    have "q < 8" using that by (simp add: q_def)
    then consider "q = 0" | "q = 1" | "q = 2" | "q = 3" | "q = 4" | "q = 5" | "q = 6" | "q = 7" by linarith
    then show ?thesis
      using j(2) bs unfolding membit_def j(3,4)
      by cases (simp_all add: j(1) bit_or_iff bit_push_bit_iff bit_unsigned_iff big)
  qed
  moreover have "membit m ?p j = membit m (allocBits s) (64 * i + j)" for j
    using membit_shift [of m "allocBits s" "2 * i" j] by simp
  moreover have "refillAllocCache m (of_nat (2 * i)) s = Some (s\<lparr>allocCache := ?c\<rparr>)"
    using bs unfolding refillAllocCache_def p by (simp add: Let_def del: of_nat_mult)
  ultimately show ?thesis by (intro exI [of _ ?c]) simp
qed

lemma bitmap_words_room: "k < unat n \<Longrightarrow> 2 * (k div 64) + 2 \<le> bitmap_words n"
proof -
  assume "k < unat n"
  then have "(k + 64) div 64 \<le> (unat n + 63) div 64" by (intro div_le_mono) simp
  moreover have "(k + 64) div 64 = k div 64 + 1" by simp
  ultimately show ?thesis unfolding bitmap_words_def by linarith
qed

text \<open>The rounding of the scan: the next multiple of 64.\<close>

lemma next_group:
  shows "unat (sf :: uintptr) \<le> 2 ^ 40 \<Longrightarrow> (sf + 64) AND NOT (64 - 1) = of_nat (64 * (unat sf div 64 + 1))"
    and "k \<le> 2 ^ 40 \<Longrightarrow> (of_nat (64 * k) :: uintptr) div 32 = of_nat (2 * k)"
proof -
  assume assms: "unat (sf :: uintptr) \<le> 2 ^ 40"
  have a: "(64 :: uintptr) - 1 = 2 ^ 6 - 1" by simp
  have u: "unat (sf + 64) = unat sf + 64" using assms by (simp add: unat_add_noof)
  have "unat ((sf + 64) AND NOT (64 - 1)) = unat sf + 64 - (unat sf + 64) mod 64"
    unfolding a and_not_mask64 by (simp add: unat_sub_noof unat_mod u)
  also have "\<dots> = 64 * (unat sf div 64 + 1)"
    by (simp add: minus_mod_eq_mult_div [symmetric])
  finally have e: "unat ((sf + 64) AND NOT (64 - 1)) = 64 * (unat sf div 64 + 1)" .
  have "unat (of_nat (64 * (unat sf div 64 + 1)) :: uintptr) = 64 * (unat sf div 64 + 1)"
    using assms by (intro unat_of_nat62) auto
  then show "(sf + 64) AND NOT (64 - 1) = of_nat (64 * (unat sf div 64 + 1))"
    using e by (simp only: word_unat_eq_iff)
next
  assume "k \<le> 2 ^ 40"
  then have "unat (of_nat (64 * k) :: uintptr) = 64 * k" "unat (of_nat (2 * k) :: uintptr) = 2 * k"
    by (intro unat_of_nat62; simp)+
  then show "(of_nat (64 * k) :: uintptr) div 32 = of_nat (2 * k)"
    by (simp only: word_unat_eq_iff unat_div) simp
qed

lemma cache_empty: "cache_at m s k \<Longrightarrow> allocCache s = 0 \<Longrightarrow> k \<le> i \<Longrightarrow> i < 64 * (k div 64 + 1)
   \<Longrightarrow> \<not> membit m (allocBits s) i"
proof -
  assume c: "cache_at m s k" "allocCache s = 0" and i: "k \<le> i" "i < 64 * (k div 64 + 1)"
  define q r where "q = k div 64" and "r = k mod 64"
  have "k = 64 * q + r" unfolding q_def r_def by simp
  moreover obtain d where d: "i = k + d" using i(1) le_Suc_ex by blast
  ultimately have "r + d < 64" using i(2) unfolding q_def [symmetric] by simp
  then have "k mod 64 + d < 64" by (simp only: r_def)
  then show "\<not> membit m (allocBits s) i" using c by (auto simp: cache_at_def d)
qed

lemma scanCache_ok:
  assumes "unat (nelems s) \<le> 2 ^ 40" and "bitmap m (allocBits s) (bitmap_words (nelems s))"
    and "sf < nelems s" and "cache_at m s (unat sf)"
  shows "\<exists>r c. scanCache m sf s = Some (r, (case r of None \<Rightarrow> s\<lparr>allocCache := c, freeIndex := nelems s\<rparr>
        | Some _ \<Rightarrow> s\<lparr>allocCache := c\<rparr>)) \<and>
    (case r of
       None \<Rightarrow> \<forall>i. unat sf \<le> i \<and> i < unat (nelems s) \<longrightarrow> \<not> membit m (allocBits s) i
     | Some k \<Rightarrow> sf \<le> k \<and> k < nelems s \<and> c \<noteq> 0 \<and> cache_at m (s\<lparr>allocCache := c\<rparr>) (unat k) \<and>
         (\<forall>i. unat sf \<le> i \<and> i < unat k \<longrightarrow> \<not> membit m (allocBits s) i))"
  using assms
proof (induction "unat (nelems s) - unat sf" arbitrary: sf s rule: less_induct)
  case less
  note prems = less.prems
  show ?case
  proof (cases "allocCache s = 0")
    case False
    then have "scanCache m sf s = Some (Some sf, s)"
      by (simp add: scanCache.simps [of m sf] Ctz64_eq_64_iff)
    then show ?thesis using prems False
      by (intro exI [of _ "Some sf"] exI [of _ "allocCache s"]) auto
  next
    case True
    define g where "g = 64 * (unat sf div 64 + 1)"
    have sf: "unat sf < unat (nelems s)" "unat sf \<le> 2 ^ 40" using prems by (simp_all add: word_less_nat_alt)
    have g: "(sf + 64) AND NOT (64 - 1) = of_nat g" unfolding g_def by (rule next_group(1) [OF sf(2)])
    have ug: "unat (of_nat g :: uintptr) = g" unfolding g_def using sf(2) by (intro unat_of_nat62) auto
    have empty: "\<not> membit m (allocBits s) i" if "unat sf \<le> i" "i < g" for i
      using cache_empty [OF prems(4) True] that unfolding g_def by blast
    have gt: "unat sf < g" unfolding g_def by simp
    have unf: "scanCache m sf s = (if of_nat g \<ge> nelems s then Some (None, s\<lparr>freeIndex := nelems s\<rparr>)
        else Option.bind (refillAllocCache m (of_nat g div 32) s) (scanCache m (of_nat g)))"
      using True by (simp only: scanCache.simps [of m sf] Let_def g Ctz64_zero if_True simp_thms)
    show ?thesis
    proof (cases "nelems s \<le> of_nat g")
      case out: True
      then have "scanCache m sf s = Some (None, s\<lparr>freeIndex := nelems s\<rparr>)"
        by (simp only: unf if_True)
      moreover have "unat (nelems s) \<le> g" using out by (simp only: word_le_nat_alt ug)
      ultimately show ?thesis using empty
        by (intro exI [of _ None] exI [of _ "allocCache s"]) simp
    next
      case False
      then have gn: "g < unat (nelems s)" by (simp only: word_le_nat_alt ug not_le)
      have gd: "(of_nat g :: uintptr) div 32 = of_nat (2 * (unat sf div 64 + 1))"
        unfolding g_def using sf(2) by (intro next_group(2)) simp
      have "2 * (unat sf div 64 + 1) + 2 \<le> bitmap_words (nelems s)"
        using bitmap_words_room [OF gn] by (simp add: g_def)
      from refill_ok [of m s, OF prems(2) this] obtain c where
        c: "refillAllocCache m (of_nat (2 * (unat sf div 64 + 1))) s = Some (s\<lparr>allocCache := c\<rparr>)"
          "\<forall>j < 64. bit c j = membit m (allocBits s) (g + j)" unfolding g_def by blast
      have st: "scanCache m sf s = scanCache m (of_nat g) (s\<lparr>allocCache := c\<rparr>)"
        using False by (simp only: unf gd c(1) Option.bind.simps if_False)
      let ?s = "s\<lparr>allocCache := c\<rparr>"
      have "cache_at m ?s (unat (of_nat g :: uintptr))"
        using c(2) unfolding cache_at_def ug by (simp add: g_def)
      moreover have "unat (nelems ?s) - unat (of_nat g :: uintptr) < unat (nelems s) - unat sf"
        using gt gn unfolding ug by simp
      moreover have "unat (nelems ?s) \<le> 2 ^ 40" "bitmap m (allocBits ?s) (bitmap_words (nelems ?s))" "of_nat g < nelems ?s"
        using prems False by simp_all
      ultimately obtain r d where r: "scanCache m (of_nat g) ?s = Some (r, (case r of None \<Rightarrow> ?s\<lparr>allocCache := d, freeIndex := nelems ?s\<rparr>
        | Some _ \<Rightarrow> ?s\<lparr>allocCache := d\<rparr>))"
        "case r of
           None \<Rightarrow> \<forall>i. g \<le> i \<and> i < unat (nelems ?s) \<longrightarrow> \<not> membit m (allocBits ?s) i
         | Some k \<Rightarrow> of_nat g \<le> k \<and> k < nelems ?s \<and> d \<noteq> 0 \<and> cache_at m (?s\<lparr>allocCache := d\<rparr>) (unat k) \<and>
             (\<forall>i. g \<le> i \<and> i < unat k \<longrightarrow> \<not> membit m (allocBits ?s) i)"
        using less.hyps [of ?s "of_nat g"] unfolding ug by blast
      have "sf \<le> k" if "of_nat g \<le> k" for k :: uintptr
        using that gt unfolding word_le_nat_alt ug by linarith
      then show ?thesis using st r empty
        by (intro exI [of _ r] exI [of _ d]) (cases r; simp; metis not_le)
    qed
  qed
qed

lemma scanCache_None_or_Some:
  assumes "span_ok m s" and "freeIndex s < nelems s"
  obtains (empty) c where "scanCache m (freeIndex s) s = Some (None, s\<lparr>allocCache := c, freeIndex := nelems s\<rparr>)"
      "span_free m s = {}"
  | (found) c k where "scanCache m (freeIndex s) s = Some (Some k, s\<lparr>allocCache := c\<rparr>)"
      "freeIndex s \<le> k" "k < nelems s" "c \<noteq> 0" "cache_at m (s\<lparr>allocCache := c\<rparr>) (unat k)"
      "\<forall>i. unat (freeIndex s) \<le> i \<and> i < unat k \<longrightarrow> \<not> membit m (allocBits s) i"
proof -
  have "cache_at m s (unat (freeIndex s))" "unat (nelems s) \<le> 2 ^ 40" "bitmap m (allocBits s) (bitmap_words (nelems s))"
    using assms by (simp_all add: span_ok_def)
  from scanCache_ok [OF this(2,3) assms(2) this(1)] obtain r c where
    st: "scanCache m (freeIndex s) s = Some (r, (case r of None \<Rightarrow> s\<lparr>allocCache := c, freeIndex := nelems s\<rparr>
        | Some _ \<Rightarrow> s\<lparr>allocCache := c\<rparr>))"
    and r: "case r of
       None \<Rightarrow> \<forall>i. unat (freeIndex s) \<le> i \<and> i < unat (nelems s) \<longrightarrow> \<not> membit m (allocBits s) i
     | Some k \<Rightarrow> freeIndex s \<le> k \<and> k < nelems s \<and> c \<noteq> 0 \<and> cache_at m (s\<lparr>allocCache := c\<rparr>) (unat k) \<and>
         (\<forall>i. unat (freeIndex s) \<le> i \<and> i < unat k \<longrightarrow> \<not> membit m (allocBits s) i)" by blast
  show thesis
  proof (cases r)
    case None
    then show ?thesis using st r by (intro empty [of c]) (auto simp: span_free_def)
  next
    case (Some k)
    then show ?thesis using st r by (intro found [of k c]) auto
  qed
qed

text \<open>
  Taking the lowest bit of the cache that belongs to \<open>k\<close>: the object it stands for, and the
  cache left, which is the one of the next object unless that starts a new group.
\<close>

lemma cache_take:
  assumes c: "cache_at m s k" and nz: "allocCache s \<noteq> 0"
  defines "b \<equiv> nat (Ctz64 (allocCache s))"
  shows "membit m (allocBits s) (k + b)" and "k \<le> i \<Longrightarrow> i < k + b \<Longrightarrow> \<not> membit m (allocBits s) i"
    and "b < 64" and "int b = Ctz64 (allocCache s)" and "k mod 64 + b < 64"
    and "(k + b + 1) mod 64 \<noteq> 0 \<Longrightarrow>
      cache_at m (s\<lparr>allocCache := drop_bit (nat (Ctz64 (allocCache s) + 1)) (allocCache s)\<rparr>) (k + b + 1)"
proof -
  note z = Ctz64_nonzero [OF nz]
  show ib: "int b = Ctz64 (allocCache s)" and b: "b < 64" using z by (simp_all add: b_def)
  have "bit (allocCache s) b" using z(3) by (simp add: b_def)
  then have "k mod 64 + b < 64 \<and> membit m (allocBits s) (k + b)"
    by (rule iffD1 [OF c [unfolded cache_at_def, rule_format, OF b]])
  then show "membit m (allocBits s) (k + b)" and kb: "k mod 64 + b < 64" by simp_all
  show "\<not> membit m (allocBits s) i" if i: "k \<le> i" "i < k + b"
  proof -
    obtain d where d: "i = k + d" using i(1) le_Suc_ex by blast
    then have db: "d < b" using i(2) by simp
    then have "\<not> bit (allocCache s) d" by (intro z(4)) (simp only: b_def)
    moreover have "d < 64" "k mod 64 + d < 64" using db b kb by linarith+
    ultimately show ?thesis using c unfolding cache_at_def d by blast
  qed
  assume m: "(k + b + 1) mod 64 \<noteq> 0"
  have "(k mod 64 + (b + 1)) mod 64 = (k + b + 1) mod 64"
    using mod_add_left_eq [of k 64 "b + 1"] by (simp only: add.assoc)
  then have lt: "k mod 64 + (b + 1) < 64" and km: "(k + b + 1) mod 64 = k mod 64 + b + 1"
    using m kb by (cases "k mod 64 + (b + 1) = 64"; simp)+
  have n: "nat (Ctz64 (allocCache s) + 1) = b + 1" using ib by simp
  have "bit (drop_bit (b + 1) (allocCache s)) j \<longleftrightarrow> (k + b + 1) mod 64 + j < 64 \<and> membit m (allocBits s) (k + b + 1 + j)"
    if "j < 64" for j
  proof (cases "b + 1 + j < 64")
    case True
    then show ?thesis using c unfolding cache_at_def km by (simp add: bit_drop_bit_eq add.assoc)
  next
    case False
    then have "\<not> bit (allocCache s) (b + 1 + j)" using bit_imp_le_length [of "allocCache s" "b + 1 + j"] by auto
    then show ?thesis using False km by (simp add: bit_drop_bit_eq)
  qed
  then show "cache_at m (s\<lparr>allocCache := drop_bit (nat (Ctz64 (allocCache s) + 1)) (allocCache s)\<rparr>) (k + b + 1)"
    unfolding n cache_at_def by simp
qed

text \<open>Object \<open>i\<close> is the first free one, and \<open>c\<close> the cache for what follows it.\<close>

definition taken :: "memory \<Rightarrow> xSpan \<Rightarrow> nat \<Rightarrow> uint64 \<Rightarrow> bool" where
  "taken m s i c \<longleftrightarrow> i \<in> span_free m s \<and> (\<forall>j < i. j \<notin> span_free m s)
     \<and> (i + 1 < unat (nelems s) \<longrightarrow> cache_at m (s\<lparr>allocCache := c\<rparr>) (i + 1))"

lemma span_index_bound:
  assumes "span_ok m s" and "i < unat (nelems s)"
  shows "i \<le> 2 ^ 40" "unat (of_nat i :: uintptr) = i" "unat (of_nat (i + 1) :: uintptr) = i + 1"
    "(of_nat i :: uintptr) < nelems s" "unat (of_nat i * classSize s + startAddr s) = i * unat (classSize s) + unat (startAddr s)"
proof -
  show i: "i \<le> 2 ^ 40" using assms by (simp add: span_ok_def)
  show u: "unat (of_nat i :: uintptr) = i" "unat (of_nat (i + 1) :: uintptr) = i + 1"
    using i by (intro unat_of_nat62; simp)+
  show "(of_nat i :: uintptr) < nelems s" using assms(2) by (simp only: word_less_nat_alt u)
  have "i * unat (classSize s) \<le> unat (nelems s) * unat (classSize s)" using assms(2) by simp
  then have b: "i * unat (classSize s) + unat (startAddr s) \<le> 2 ^ 47" using assms(1) unfolding span_ok_def by linarith
  then show "unat (of_nat i * classSize s + startAddr s) = i * unat (classSize s) + unat (startAddr s)"
    by (simp add: unat_add_noof unat_mult_noof u)
qed

lemma taken_ok:
  assumes "span_ok m s" and "taken m s i c"
    and s': "s' = s\<lparr>allocCache := c, freeIndex := of_nat (i + 1), allocCount := k\<rparr>"
  shows "span_ok m s'" and "span_free m s' = span_free m s - {i}"
proof -
  have i: "i < unat (nelems s)" "unat (freeIndex s) \<le> i" using assms(2) by (auto simp: taken_def span_free_def)
  note b = span_index_bound [OF assms(1) i(1)]
  have "cache_at m s' (i + 1)" if "i + 1 < unat (nelems s)"
    using assms(2) that by (simp add: taken_def s' cache_at_def)
  moreover have "of_nat (i + 1) \<le> nelems s" using i(1) by (simp only: word_le_nat_alt b)
  moreover have "unat (freeIndex s') = i + 1" using b(3) by (simp add: s')
  ultimately show "span_ok m s'" using assms(1) by (auto simp: span_ok_def s' word_less_nat_alt)
  show "span_free m s' = span_free m s - {i}"
    using assms(2) i \<open>unat (freeIndex s') = i + 1\<close>
    by (auto simp: span_free_def taken_def s' not_less [symmetric] less_Suc_eq)
qed

lemma cache_taken:
  assumes ok: "span_ok m s" and c: "cache_at m (s\<lparr>allocCache := c\<rparr>) (unat k)" "c \<noteq> 0" and k: "freeIndex s \<le> k" "k < nelems s"
    and none: "\<forall>i. unat (freeIndex s) \<le> i \<and> i < unat k \<longrightarrow> \<not> membit m (allocBits s) i"
  defines "i \<equiv> unat k + nat (Ctz64 c)"
  shows "k + of_int (Ctz64 c) = of_nat i" and "i \<le> 2 ^ 41"
    and "unat (nelems s) \<le> i \<Longrightarrow> span_free m s = {}"
    and "i < unat (nelems s) \<Longrightarrow> i \<in> span_free m s \<and> (\<forall>j < i. j \<notin> span_free m s)"
    and "(i + 1) mod 64 \<noteq> 0 \<Longrightarrow> cache_at m (s\<lparr>allocCache := drop_bit (nat (Ctz64 c + 1)) c\<rparr>) (i + 1)"
proof -
  note t = cache_take [of m "s\<lparr>allocCache := c\<rparr>", simplified, OF c]
  have kn: "unat k \<le> 2 ^ 40" "unat k < unat (nelems s)" "unat (freeIndex s) \<le> unat k"
    using ok k by (simp_all add: span_ok_def word_less_nat_alt word_le_nat_alt)
  then show "i \<le> 2 ^ 41" using t(3) by (simp add: i_def)
  have "(of_int (Ctz64 c) :: uintptr) = of_nat (nat (Ctz64 c))" using Ctz64_nonzero(1) [OF c(2)] by simp
  then show "k + of_int (Ctz64 c) = of_nat i" by (simp add: i_def)
  have n: "\<not> membit m (allocBits s) j" if "unat (freeIndex s) \<le> j" "j < i" for j
    using that none t(2) [of j] by (cases "j < unat k") (auto simp: i_def)
  show "span_free m s = {}" if "unat (nelems s) \<le> i"
    using n that by (auto simp: span_free_def)
  show "i \<in> span_free m s \<and> (\<forall>j < i. j \<notin> span_free m s)" if "i < unat (nelems s)"
    using n that t(1) kn by (auto simp: span_free_def i_def)
  show "cache_at m (s\<lparr>allocCache := drop_bit (nat (Ctz64 c + 1)) c\<rparr>) (i + 1)" if "(i + 1) mod 64 \<noteq> 0"
    using t(6) that by (simp add: i_def)
qed

lemma of_nat_mod64: "i \<le> 2 ^ 62 \<Longrightarrow> (of_nat i :: uintptr) mod 64 = 0 \<longleftrightarrow> i mod 64 = 0"
  by (simp add: word_unat_eq_iff unat_mod unat_of_nat62)

lemma nextFreeFast_cases:
  assumes ok: "span_ok m s"
  obtains (slow) "nextFreeFast s = (0, s)"
  | (fast) i c where "taken m s i c"
      "nextFreeFast s = (of_nat i * classSize s + startAddr s,
         s\<lparr>allocCache := c, freeIndex := of_nat (i + 1), allocCount := allocCount s + 1\<rparr>)"
proof (cases "nextFreeFast s = (0, s)")
  case False
  let ?i = "unat (freeIndex s) + nat (Ctz64 (allocCache s))"
  have f: "freeIndex s < nelems s" "allocCache s \<noteq> 0"
    "freeIndex s + of_int (Ctz64 (allocCache s)) < nelems s"
    using False by (auto simp: nextFreeFast_def Let_def not_le [symmetric] split: if_splits)
  have c: "cache_at m (s\<lparr>allocCache := allocCache s\<rparr>) (unat (freeIndex s))" using ok f(1) by (simp add: span_ok_def)
  have "\<forall>i. unat (freeIndex s) \<le> i \<and> i < unat (freeIndex s) \<longrightarrow> \<not> membit m (allocBits s) i" by auto
  note t = cache_taken [OF ok c f(2) order_refl f(1) this]
  have i: "unat (of_nat ?i :: uintptr) = ?i" "unat (of_nat (?i + 1) :: uintptr) = ?i + 1" using t(2) by (intro unat_of_nat62; simp)+
  then have lt: "?i < unat (nelems s)" using f(3) t(1) by (simp add: word_less_nat_alt)
  have "nextFreeFast s = (if (of_nat (?i + 1) :: uintptr) mod 64 = 0 \<and> of_nat (?i + 1) \<noteq> nelems s then (0, s)
      else (of_nat ?i * classSize s + startAddr s,
         s\<lparr>allocCache := drop_bit (nat (Ctz64 (allocCache s) + 1)) (allocCache s),
           freeIndex := of_nat (?i + 1), allocCount := allocCount s + 1\<rparr>))"
    using f not_le [THEN iffD2, OF f(1)] Ctz64_nonzero(2) [OF f(2)] t(1) by (simp add: nextFreeFast_def Let_def add.commute)
  moreover from this have "(?i + 1) mod 64 \<noteq> 0 \<or> of_nat (?i + 1) = nelems s"
    using False of_nat_mod64 [of "?i + 1"] t(2) by (auto split: if_splits)
  moreover have "taken m s ?i (drop_bit (nat (Ctz64 (allocCache s) + 1)) (allocCache s))"
    using t(4) [OF lt] t(5) calculation(2) i unfolding taken_def by auto
  ultimately show ?thesis using False by (intro fast) (auto split: if_splits)
qed (rule slow)

lemma nextFreeIndex_cases:
  assumes ok: "span_ok m s"
  obtains (full) c where "span_free m s = {}"
      "nextFreeIndex m s = Some (nelems s, False, s\<lparr>allocCache := c, freeIndex := nelems s\<rparr>)"
  | (object) i c where "taken m s i c"
      "nextFreeIndex m s = Some (of_nat i, True, s\<lparr>allocCache := c, freeIndex := of_nat (i + 1)\<rparr>)"
proof (cases "nelems s \<le> freeIndex s")
  case True
  then have e: "freeIndex s = nelems s" using ok by (simp add: span_ok_def)
  then have "s\<lparr>allocCache := allocCache s, freeIndex := nelems s\<rparr> = s" by simp
  then show ?thesis using e by (intro full [of "allocCache s"]) (simp_all add: span_free_def nextFreeIndex_def)
next
  case False
  then have lt: "freeIndex s < nelems s" by simp
  have bm: "unat (nelems s) \<le> 2 ^ 40" "bitmap m (allocBits s) (bitmap_words (nelems s))"
    using ok by (simp_all add: span_ok_def)
  show ?thesis
    using ok lt
  proof (cases rule: scanCache_None_or_Some)
    case (empty c)
    then show ?thesis using False by (intro full [of c]) (simp_all add: nextFreeIndex_def)
  next
    case (found c k)
    let ?i = "unat k + nat (Ctz64 c)" and ?c = "drop_bit (nat (Ctz64 c + 1)) c"
    note t = cache_taken [OF ok found(5,4,2,3,6)]
    have i: "unat (of_nat ?i :: uintptr) = ?i" "unat (of_nat (?i + 1) :: uintptr) = ?i + 1"
      using t(2) by (intro unat_of_nat62; simp)+
    show ?thesis
    proof (cases "nelems s \<le> of_nat ?i")
      case out: True
      then have "span_free m s = {}" using t(3) i by (simp only: word_le_nat_alt)
      moreover have "nextFreeIndex m s = Some (nelems s, False, s\<lparr>allocCache := c, freeIndex := nelems s\<rparr>)"
        using False found(1) t(1) out by (simp add: nextFreeIndex_def Let_def)
      ultimately show ?thesis by (rule full)
    next
      case inside: False
      then have lt: "?i < unat (nelems s)" by (simp only: word_le_nat_alt i not_le)
      let ?s = "s\<lparr>allocCache := ?c\<rparr>"
      have st: "nextFreeIndex m s = do {
          s \<leftarrow> (if (of_nat (?i + 1) :: uintptr) mod 64 = 0 \<and> of_nat (?i + 1) \<noteq> nelems s
                then refillAllocCache m (of_nat (?i + 1) div 32) ?s else Some ?s);
          Some (of_nat ?i, True, s\<lparr>freeIndex := of_nat (?i + 1)\<rparr>) }"
        using False found(1) t(1) inside by (simp add: nextFreeIndex_def Let_def add.commute)
      show ?thesis
      proof (cases "(of_nat (?i + 1) :: uintptr) mod 64 = 0 \<and> of_nat (?i + 1) \<noteq> nelems s")
        case True
        define g where "g = (?i + 1) div 64"
        have g: "?i + 1 = 64 * g" "g \<le> 2 ^ 40" using True t(2) of_nat_mod64 [of "?i + 1"] by (auto simp: g_def)
        have "?i + 1 < unat (nelems s)" using True lt i by (cases "?i + 1 = unat (nelems s)") (auto simp: word_unat_eq_iff)
        from bitmap_words_room [OF this] have "2 * g + 2 \<le> bitmap_words (nelems s)" by (simp add: g_def)
        moreover have "bitmap m (allocBits ?s) (bitmap_words (nelems s))" using bm(2) by simp
        ultimately obtain d where d: "refillAllocCache m (of_nat (2 * g)) ?s = Some (?s\<lparr>allocCache := d\<rparr>)"
            "\<forall>j < 64. bit d j = membit m (allocBits ?s) (64 * g + j)" using refill_ok by blast
        have gd: "(of_nat (?i + 1) :: uintptr) div 32 = of_nat (2 * g)" unfolding g(1) by (rule next_group(2) [OF g(2)])
        have "nextFreeIndex m s = Some (of_nat ?i, True, s\<lparr>allocCache := d, freeIndex := of_nat (?i + 1)\<rparr>)"
          unfolding st gd using True d(1) by simp
        moreover have "taken m s ?i d" using t(4) [OF lt] d(2) unfolding taken_def cache_at_def g(1) by simp
        ultimately show ?thesis using object by blast
      next
        case same: False
        then have "nextFreeIndex m s = Some (of_nat ?i, True, ?s\<lparr>freeIndex := of_nat (?i + 1)\<rparr>)"
          unfolding st by (simp only: if_False Option.bind.simps)
        moreover have "(?i + 1) mod 64 \<noteq> 0 \<or> of_nat (?i + 1) = nelems s"
          using same of_nat_mod64 [of "?i + 1"] t(2) by auto
        then have "taken m s ?i ?c" using t(4) [OF lt] t(5) i unfolding taken_def by auto
        ultimately show ?thesis using object by blast
      qed
    qed
  qed
qed

text \<open>\<open>freeOffset\<close> hands out the first free object, or reports that there is none.\<close>

lemma taken_Min: "taken m s i c \<Longrightarrow> Min (span_free m s) = i \<and> span_free m s \<noteq> {}"
proof -
  assume t: "taken m s i c"
  have "finite (span_free m s)" by (rule finite_subset [of _ "{..< unat (nelems s)}"]) (auto simp: span_free_def)
  then have "Min (span_free m s) = i" using t by (intro Min_eqI) (auto simp: taken_def not_less [symmetric])
  then show ?thesis using t by (auto simp: taken_def)
qed

text \<open>The fields a search may change.\<close>

definition same_geometry :: "xSpan \<Rightarrow> xSpan \<Rightarrow> bool" where
  "same_geometry s s' \<longleftrightarrow> s' = s\<lparr>allocCache := allocCache s', freeIndex := freeIndex s', allocCount := allocCount s', next_span := next_span s'\<rparr>"

lemma same_geometryD:
  assumes "same_geometry s s'"
  shows "gcmarkBits s' = gcmarkBits s" "allocBits s' = allocBits s" "classIndex s' = classIndex s" "nelems s' = nelems s"
    "startAddr s' = startAddr s" "classSize s' = classSize s" and "setDivMagic s = Some s \<Longrightarrow> setDivMagic s' = Some s'"
proof -
  obtain c f a n where e: "s' = s\<lparr>allocCache := c, freeIndex := f, allocCount := a, next_span := n\<rparr>"
    using assms unfolding same_geometry_def by blast
  show "gcmarkBits s' = gcmarkBits s" "allocBits s' = allocBits s" "classIndex s' = classIndex s" "nelems s' = nelems s"
    "startAddr s' = startAddr s" "classSize s' = classSize s" by (simp_all add: e)
  show "setDivMagic s' = Some s'" if "setDivMagic s = Some s"
  proof -
    have "setDivMagic (s\<lparr>allocCache := c, freeIndex := f, allocCount := a, next_span := n\<rparr>) =
      map_option (\<lambda>s. s\<lparr>allocCache := c, freeIndex := f, allocCount := a, next_span := n\<rparr>) (setDivMagic s)"
      by (simp add: setDivMagic_def Let_def)
    then show ?thesis using that by (simp add: e)
  qed
qed

lemma freeOffset_cases:
  assumes ok: "span_ok m s"
  obtains (full) s' where "span_free m s = {}" "span_free m s' = {}" "span_ok m s'"
      "freeOffset m s = Some (0, False, s')" "allocCount s' = allocCount s" "nelems s' = nelems s"
      "startAddr s' = startAddr s" "classSize s' = classSize s" "allocBits s' = allocBits s"
      "extensionPoint s' = extensionPoint s" "same_geometry s s'"
  | (object) i s' where "i \<in> span_free m s" "Min (span_free m s) = i" "span_free m s' = span_free m s - {i}"
      "span_ok m s'" "freeOffset m s = Some (of_nat i * classSize s + startAddr s, True, s')"
      "allocCount s' = allocCount s + 1" "nelems s' = nelems s"
      "startAddr s' = startAddr s" "classSize s' = classSize s" "allocBits s' = allocBits s" "extensionPoint s' = extensionPoint s"
      "same_geometry s s'"
proof -
  note none = full and one = object
  have nz: "of_nat i * classSize s + startAddr s \<noteq> 0" if "taken m s i c" for i c
  proof -
    have "i < unat (nelems s)" using that by (auto simp: taken_def span_free_def)
    from span_index_bound(5) [OF ok this] have "unat (of_nat i * classSize s + startAddr s) \<noteq> 0"
      using ok by (simp add: span_ok_def word_less_nat_alt)
    then show ?thesis by auto
  qed
  show ?thesis
    using ok
  proof (cases rule: nextFreeFast_cases)
    case (fast i c)
    let ?s = "s\<lparr>allocCache := c, freeIndex := of_nat (i + 1), allocCount := allocCount s + 1\<rparr>"
    have "freeOffset m s = Some (of_nat i * classSize s + startAddr s, True, ?s)"
      using nz [OF fast(1)] by (simp only: freeOffset_def fast(2) Let_def prod.case if_False)
    then show ?thesis using taken_ok [OF ok fast(1) refl] taken_Min [OF fast(1)] fast(1)
      by (intro object [of i ?s]) (auto simp: taken_def same_geometry_def)
  next
    case slow
    then have fo: "freeOffset m s = nextFree m s" by (simp add: freeOffset_def)
    show ?thesis
      using ok
    proof (cases rule: nextFreeIndex_cases)
      case (full c)
      let ?s = "s\<lparr>allocCache := c, freeIndex := nelems s\<rparr>"
      have "freeOffset m s = Some (0, False, ?s)" using full(2) by (simp add: fo nextFree_def)
      moreover have "span_ok m ?s" using ok by (simp add: span_ok_def)
      moreover have "span_free m ?s = {}" by (auto simp: span_free_def)
      ultimately show ?thesis using full(1) by (intro none [of ?s]) (simp_all add: same_geometry_def)
    next
      case (object i c)
      let ?s = "s\<lparr>allocCache := c, freeIndex := of_nat (i + 1), allocCount := allocCount s + 1\<rparr>"
      have "freeOffset m s = Some (of_nat i * classSize s + startAddr s, True, ?s)"
        using object(2) by (simp add: fo nextFree_def)
      then show ?thesis using taken_ok [OF ok object(1) refl] taken_Min [OF object(1)] object(1)
        by (intro one [of i ?s]) (auto simp: taken_def same_geometry_def)
    qed
  qed
qed

text \<open>A span as a layer that hands out blocks; the state is the span, memory does not change.\<close>

definition span_step :: "memory \<Rightarrow> unit \<Rightarrow> xSpan \<Rightarrow> ((goerr + uintptr \<times> uintptr) \<times> xSpan) option" where
  "span_step m _ s =
     map_option (\<lambda>(ptr, has, s'). (if has then Inr (ptr, classSize s) else Inl EmptyError, s')) (freeOffset m s)"

text \<open>The addresses of object \<open>i\<close>, and those no free object covers.\<close>

definition obj_addrs :: "xSpan \<Rightarrow> nat \<Rightarrow> uintptr set" where
  "obj_addrs s i = {x. unat (startAddr s) + i * unat (classSize s) \<le> unat x
     \<and> unat x < unat (startAddr s) + (i + 1) * unat (classSize s)}"

definition span_used :: "memory \<Rightarrow> xSpan \<Rightarrow> uintptr set" where
  "span_used m s = - (\<Union>i \<in> span_free m s. obj_addrs s i)"

lemma obj_addrs_blk:
  assumes "span_ok m s" and "i < unat (nelems s)"
  shows "blk (of_nat i * classSize s + startAddr s) (classSize s) = obj_addrs s i"
  using span_index_bound(5) [OF assms] by (auto simp: obj_addrs_def)

lemma obj_addrs_disjoint: "i \<noteq> j \<Longrightarrow> obj_addrs s i \<inter> obj_addrs s j = {}"
proof -
  assume "i \<noteq> j"
  then have "i + 1 \<le> j \<or> j + 1 \<le> i" by arith
  then have "(i + 1) * unat (classSize s) \<le> j * unat (classSize s) \<or> (j + 1) * unat (classSize s) \<le> i * unat (classSize s)"
    using mult_le_mono1 by blast
  then show ?thesis unfolding obj_addrs_def by auto
qed

lemma span_step_Inr:
  assumes "span_ok m s" and "span_step m u s = Some (Inr b, s')"
  shows "span_ok m s' \<and> blk (fst b) (snd b) \<inter> span_used m s = {} \<and>
    span_used m s \<union> blk (fst b) (snd b) \<subseteq> span_used m s'"
  using assms(1)
proof (cases rule: freeOffset_cases)
  case (object i t)
  have ts: "s' = t" "b = (of_nat i * classSize s + startAddr s, classSize s)"
    using assms(2) object(5) by (auto simp: span_step_def)
  have i: "i < unat (nelems s)" using object(1) by (simp add: span_free_def)
  have b: "blk (fst b) (snd b) = obj_addrs s i" using obj_addrs_blk [OF assms(1) i] by (simp add: ts(2))
  have same: "obj_addrs s' = obj_addrs s" by (intro ext) (simp add: obj_addrs_def ts(1) object)
  have "blk (fst b) (snd b) \<inter> span_used m s = {}" using object(1) unfolding b span_used_def by blast
  moreover have "obj_addrs s i \<inter> obj_addrs s j = {}" if "j \<in> span_free m s'" for j
    using that object(3) by (intro obj_addrs_disjoint) (auto simp: ts(1))
  then have "span_used m s \<union> blk (fst b) (snd b) \<subseteq> span_used m s'"
    using object(3) unfolding b span_used_def same by (auto simp: ts(1))
  ultimately show ?thesis using object(4) by (simp only: ts(1) simp_thms)
next
  case (full t)
  then show ?thesis using assms(2) by (simp add: span_step_def)
qed

interpretation span: fresh_blocks "\<lambda>_. True" "span_step m" "span_ok m" "span_used m" for m
proof
  fix s r assume "span_ok m s"
  then show "span_step m r s \<noteq> None"
    by (cases rule: freeOffset_cases) (simp_all add: span_step_def)
next
  fix s r b s' assume "span_ok m s" and "span_step m r s = Some (Inr b, s')"
  note st = span_step_Inr [OF this]
  show "span_ok m s'" and "blk (fst b) (snd b) \<inter> span_used m s = {}"
    and "span_used m s \<union> blk (fst b) (snd b) \<subseteq> span_used m s'" using st by blast+
qed

text \<open>A run of as many requests as there are free objects is served to the end.\<close>

lemma span_run_all:
  "span_ok m s \<Longrightarrow> n \<le> card (span_free m s) \<Longrightarrow>
    \<exists>bs s'. alloc_run (span_step m) (replicate n ()) s = Some (bs, s') \<and> length bs = n \<and> span_ok m s'
      \<and> card (span_free m s') = card (span_free m s) - n \<and> allocCount s' = allocCount s + of_nat n"
proof (induction n arbitrary: s)
  case (Suc n)
  have fin: "finite (span_free m s)" by (rule finite_subset [of _ "{..< unat (nelems s)}"]) (auto simp: span_free_def)
  from Suc.prems(1) show ?case
  proof (cases rule: freeOffset_cases)
    case (full s')
    then show ?thesis using Suc.prems(2) by simp
  next
    case (object i s')
    have st: "span_step m () s = Some (Inr (of_nat i * classSize s + startAddr s, classSize s), s')"
      using object(5) by (simp add: span_step_def)
    have c: "card (span_free m s') = card (span_free m s) - 1" using object(1,3) fin by simp
    then have "n \<le> card (span_free m s')" using Suc.prems(2) by simp
    from Suc.IH [OF object(4) this] show ?thesis using st c object(6) by auto
  qed
qed auto

lemma membit_same:
  assumes "\<forall>x \<in> blk b (of_nat (4 * w)). m' x = m x" and "unat b + 4 * w \<le> 2 ^ 47" and "i < 32 * w"
  shows "membit m' b i = membit m b i"
proof -
  have "unat (of_nat (i div 8) :: uintptr) = i div 8" "unat (of_nat (4 * w) :: uintptr) = 4 * w"
    using assms by (intro unat_of_nat62; simp)+
  moreover have "i div 8 < 4 * w" using assms(3) by auto
  ultimately have "b + of_nat (i div 8) \<in> blk b (of_nat (4 * w))" using assms(2) by (simp add: unat_add_noof)
  then show ?thesis using assms(1) by (simp add: membit_def)
qed

text \<open>What \<open>Init\<close> needs of the pages and the size class written to the span before.\<close>

definition span_fresh :: "xSpan \<Rightarrow> bool" where
  "span_fresh s \<longleftrightarrow> 0 < startAddr s \<and> 0 < classSize s \<and> unat (npages s) \<le> 2 ^ 26 \<and>
     unat (startAddr s) + unat (npages s) * 4096 \<le> 2 ^ 47 \<and> classIndex s < NumSizeClasses"

definition span_objects :: "xSpan \<Rightarrow> nat" where
  "span_objects s = unat (npages s) * 4096 div unat (classSize s)"

lemma span_layout_objects:
  assumes "span_fresh s"
  shows "unat (fst (snd (span_layout s))) = span_objects s" and "span_objects s \<le> 2 ^ 40"
    and "span_objects s * unat (classSize s) \<le> unat (npages s) * 4096"
proof -
  have np: "unat (npages s) \<le> 2 ^ 26" using assms by (simp add: span_fresh_def)
  then have "unat (push_bit 12 (npages s)) = unat (npages s) * 4096"
    by (simp add: push_bit_eq_mult unat_mult_noof)
  then show "unat (fst (snd (span_layout s))) = span_objects s"
    using assms by (simp add: span_layout_def span_objects_def Let_def unat_div span_fresh_def)
  have "span_objects s \<le> unat (npages s) * 4096" by (simp add: span_objects_def)
  then show "span_objects s \<le> 2 ^ 40" using np by simp
  show "span_objects s * unat (classSize s) \<le> unat (npages s) * 4096" by (simp add: span_objects_def)
qed

lemma span_Init_sound:
  assumes inv: "pool_inv os p" "pool_clean p" and fr: "span_fresh s"
  shows "\<exists>r s' p'. span_Init os f s p = Some (r, s', p') \<and>
    (r = Inr () \<longrightarrow> pool_inv os p' \<and> pool_clean p' \<and> span_ok (mem p') s' \<and> span_free (mem p') s' = {..< span_objects s} \<and>
       unat (nelems s') = span_objects s \<and> allocCount s' = allocCount s \<and> startAddr s' = startAddr s \<and> classSize s' = classSize s \<and>
       bitmap (mem p') (gcmarkBits s') (bitmap_words (nelems s')) \<and>
       (\<forall>i < span_objects s. \<not> membit (mem p') (gcmarkBits s') i) \<and>
       pool_used p \<subseteq> pool_used p' \<and> (\<forall>x \<in> pool_used p. mem p' x = mem p x) \<and>
       extensionPoint s' = extension (nelems s') f \<and> (\<forall>k < 4 * bitmap_words (nelems s'). allocBits s' + of_nat k \<in> pool_used p') \<and>
       (\<forall>A. os_apart os A \<longrightarrow> pool_moves os A p p'))"
proof -
  define n where "n = fst (snd (span_layout s))"
  have un: "unat n = span_objects s" "unat n \<le> 2 ^ 40" unfolding n_def using span_layout_objects [OF fr] by simp_all
  let ?w = "bitmap_words n"
  let ?s = "s\<lparr>extensionPoint := extension n f, freeIndex := 0, allocCache := NOT 0, nelems := n\<rparr>"
  have I: "span_Init os f s p = (case newMarkBits os n True p of
           None \<Rightarrow> None
         | Some (Inl err, p) \<Rightarrow> Some (Inl err, ?s\<lparr>gcmarkBits := 0\<rparr>, p)
         | Some (Inr g, p) \<Rightarrow>
             (case newAllocBits os n p of
                None \<Rightarrow> None
              | Some (r, p) \<Rightarrow>
                  map_option (\<lambda>s. (case r of Inl err \<Rightarrow> Inl err | Inr _ \<Rightarrow> Inr (), s, p))
                    (setDivMagic (?s\<lparr>gcmarkBits := g, allocBits := (case r of Inl _ \<Rightarrow> 0 | Inr a \<Rightarrow> a)\<rparr>))))"
  proof -
    obtain x t where "span_layout s = (x, n, t)" by (cases "span_layout s") (simp add: n_def)
    moreover have "nelems ?s = n" by simp
    ultimately show ?thesis by (simp only: span_Init_def Let_def prod.case xSpan.simps xSpan.update_convs)
  qed
  obtain r1 p1 where r1: "newMarkBits os n True p = Some (r1, p1)"
    using newMarkBits_safe [OF inv un(2)] by fastforce
  show ?thesis
  proof (cases r1)
    case (Inl e)
    then show ?thesis using I r1 by simp
  next
    case (Inr g)
    note m = newMarkBits_sound [OF inv un(2) r1 [unfolded Inr]]
    obtain r2 p2 where r2: "newAllocBits os n p1 = Some (r2, p2)"
      using newMarkBits_safe [OF m(1,2) un(2)] unfolding newAllocBits_def by fastforce
    have dm: "\<exists>s'. setDivMagic t = Some s' \<and> s' = t\<lparr>divShift := divShift s', divMul := divMul s', divShift2 := divShift2 s',
        span_baseMask := span_baseMask s'\<rparr>" if "classIndex t = classIndex s" for t
      using that fr by (auto simp: setDivMagic_def Let_def span_fresh_def)
    show ?thesis
    proof (cases r2)
      case (Inl e)
      then show ?thesis
        using I r1 Inr r2 dm [of "?s\<lparr>gcmarkBits := g, allocBits := 0\<rparr>"] by auto
    next
      case R: (Inr a)
      note al = newMarkBits_sound [OF m(1,2) un(2) r2 [unfolded R newAllocBits_def]]
      let ?t = "?s\<lparr>gcmarkBits := g, allocBits := a\<rparr>"
      obtain s' where s': "setDivMagic ?t = Some s'"
        and e: "s' = ?t\<lparr>divShift := divShift s', divMul := divMul s', divShift2 := divShift2 s', span_baseMask := span_baseMask s'\<rparr>"
        using dm [of ?t] by auto
      have st: "span_Init os f s p = Some (Inr (), s', p2)" using I r1 Inr r2 R s' by simp
      have f: "nelems s' = n" "freeIndex s' = 0" "allocCache s' = NOT 0" "allocBits s' = a" "gcmarkBits s' = g"
        "startAddr s' = startAddr s" "classSize s' = classSize s" "allocCount s' = allocCount s"
        "extensionPoint s' = extension n f"
        by (subst e; simp)+
      have abits: "membit (mem p2) a i" if "i < 32 * ?w" for i using al(4) that by simp
      have nw: "unat n \<le> 32 * ?w" unfolding bitmap_words_def by simp
      have gbits: "\<not> membit (mem p2) g i" if "i < 32 * ?w" for i
      proof -
        have "\<forall>x \<in> blk g (of_nat (4 * ?w)). mem p2 x = mem p1 x" using al(7) m(6) by blast
        from membit_same [OF this m(8) that] show ?thesis using m(4) that by simp
      qed
      have "cache_at (mem p2) s' (unat (freeIndex s'))" if "0 < n"
      proof -
        have "0 < unat n" using that by (simp add: word_less_nat_alt)
        from bitmap_words_room [OF this] have "64 \<le> 32 * ?w" by simp
        then have "membit (mem p2) a j" if "j < 64" for j using abits that by simp
        then show ?thesis by (simp add: cache_at_def f)
      qed
      moreover have "unat n * unat (classSize s) \<le> unat (npages s) * 4096"
        using span_layout_objects(3) [OF fr] by (simp only: un(1))
      ultimately have ok: "span_ok (mem p2) s'"
        using al(3) un(2) fr by (auto simp: span_ok_def f span_fresh_def)
      have "span_free (mem p2) s' = {..< span_objects s}"
        using abits nw un(1) by (auto simp: span_free_def f)
      moreover have "bitmap (mem p2) g ?w" using m(3) al(10) by (auto simp: bitmap_def intro: bytes_at_dom)
      moreover have "pool_used p \<subseteq> pool_used p2" "\<forall>x \<in> pool_used p. mem p2 x = mem p x"
        using m(6,7) al(6,7) by auto
      moreover have "pool_moves os A p p2" if "os_apart os A" for A
        using pool_moves_trans m(11) al(11) that by blast
      moreover have "a + of_nat k \<in> pool_used p2" if "k < 4 * ?w" for k
      proof -
        note w = newMarkBits_words [OF un(2)]
        have u: "unat (of_nat k :: uintptr) = k" using that w(1) by (intro unat_of_nat62) simp
        then have "unat (a + of_nat k) = unat a + k" using al(8) that by (simp add: unat_add_noof)
        then have "a + of_nat k \<in> blk a (of_nat (4 * ?w))" unfolding mem_blk w(5) using that by simp
        then show ?thesis using al(6) by blast
      qed
      ultimately show ?thesis using st ok al(1,2) un(1) gbits nw by (intro exI [of _ "Inr ()"] exI [of _ s'] exI [of _ p2]) (simp add: f)
    qed
  qed
qed

lemma span_Init_within:
  assumes inv: "pool_inv os p" "pool_clean p" and fr: "span_fresh s" and n: "span_objects s \<le> 32768"
    and st: "span_Init os f s p = Some (r, s', p')"
  shows "within_meta 2 p r p'"
proof -
  define n where "n = fst (snd (span_layout s))"
  have un: "unat n = span_objects s" "unat n \<le> 2 ^ 40" unfolding n_def using span_layout_objects [OF fr] by simp_all
  then have le: "unat n \<le> 32768" using assms(4) by simp
  obtain r1 p1 where r1: "newMarkBits os n True p = Some (r1, p1)"
    using newMarkBits_safe [OF inv un(2)] by fastforce
  note w1 = newMarkBits_within [OF inv(1) le r1]
  show ?thesis
  proof (cases r1)
    case (Inl e)
    then have "\<not> meta_room (1 + k) p" for k using w1 by (auto simp: within_meta_def)
    then have "\<not> meta_room (2 + k) p" for k using meta_room_mono [of "2 + k" p "1 + k"] by auto
    then show ?thesis by (simp add: within_meta_def)
  next
    case (Inr g)
    note m = newMarkBits_sound [OF inv un(2) r1 [unfolded Inr]]
    obtain r2 p2 where r2: "newMarkBits os n False p1 = Some (r2, p2)"
      using newMarkBits_safe [OF m(1,2) un(2)] by fastforce
    obtain x t where "span_layout s = (x, n, t)" by (cases "span_layout s") (simp add: n_def)
    then have "p' = p2 \<and> (\<forall>y. r2 = Inr y \<longrightarrow> r = Inr ())" using st r1 r2 Inr
      by (auto simp: span_Init_def Let_def newAllocBits_def split: sum.splits)
    then have "within_meta 1 p1 r p'" using newMarkBits_within [OF m(1) le r2] by (auto simp: within_meta_def)
    then show ?thesis using within_meta_trans [OF w1, of 1 r p'] by (simp add: numeral_2_eq_2)
  qed
qed

text \<open>The bytes of a bit map, and that the two bit maps of a new span are new memory.\<close>

definition map_bytes :: "uintptr \<Rightarrow> uintptr \<Rightarrow> uintptr set" where
  "map_bytes b n = (\<lambda>k. b + of_nat k) ` {..< 4 * bitmap_words n}"

lemma map_bytes_blk:
  assumes "unat n \<le> 2 ^ 40" and "unat b + 4 * bitmap_words n \<le> 2 ^ 47"
  shows "map_bytes b n \<subseteq> blk b (of_nat (4 * bitmap_words n))"
proof
  fix y assume "y \<in> map_bytes b n"
  then obtain k where k: "k < 4 * bitmap_words n" "y = b + of_nat k" by (auto simp: map_bytes_def)
  note w = newMarkBits_words [OF assms(1)]
  have "unat (of_nat k :: uintptr) = k" using k(1) w(1) by (intro unat_of_nat62) simp
  then have "unat y = unat b + k" using assms(2) k by (simp add: unat_add_noof)
  then show "y \<in> blk b (of_nat (4 * bitmap_words n))" unfolding mem_blk w(5) using k(1) by simp
qed

lemma setDivMagic_fields:
  assumes "setDivMagic t = Some s"
  shows "setDivMagic s = Some s" "classIndex s = classIndex t" "nelems s = nelems t" "gcmarkBits s = gcmarkBits t" "allocBits s = allocBits t"
proof -
  have "\<exists>a b c d. s = t\<lparr>divShift := a, divMul := b, divShift2 := c, span_baseMask := d\<rparr>"
    using assms by (auto simp: setDivMagic_def Let_def split: if_splits)
  then obtain a b c d where e: "s = t\<lparr>divShift := a, divMul := b, divShift2 := c, span_baseMask := d\<rparr>" by blast
  show "classIndex s = classIndex t" "nelems s = nelems t" "gcmarkBits s = gcmarkBits t" "allocBits s = allocBits t" by (simp_all add: e)
  have "setDivMagic s = setDivMagic t" by (simp add: e setDivMagic_def Let_def)
  then show "setDivMagic s = Some s" using assms by simp
qed

lemma span_Init_maps:
  assumes inv: "pool_inv os p" "pool_clean p" and fr: "span_fresh s" and st: "span_Init os f s p = Some (Inr u, s', p')"
  shows "classIndex s' = classIndex s" "setDivMagic s' = Some s'"
    and "map_bytes (gcmarkBits s') (nelems s') \<union> map_bytes (allocBits s') (nelems s') \<subseteq> pool_used p' - pool_used p"
    and "map_bytes (gcmarkBits s') (nelems s') \<inter> map_bytes (allocBits s') (nelems s') = {}"
proof -
  define n where "n = fst (snd (span_layout s))"
  have un: "unat n \<le> 2 ^ 40" unfolding n_def using span_layout_objects [OF fr] by simp
  let ?w = "bitmap_words n"
  obtain x t where lay: "span_layout s = (x, n, t)" by (cases "span_layout s") (simp add: n_def)
  obtain g p1 where r1: "newMarkBits os n True p = Some (Inr g, p1)"
    using st lay by (cases "newMarkBits os n True p") (auto simp: span_Init_def Let_def split: sum.splits)
  note m = newMarkBits_sound [OF inv un r1]
  obtain a where r2: "newMarkBits os n False p1 = Some (Inr a, p')"
    using st lay r1 by (cases "newMarkBits os n False p1") (auto simp: span_Init_def Let_def newAllocBits_def split: sum.splits)
  note al = newMarkBits_sound [OF m(1,2) un r2]
  let ?t = "s\<lparr>extensionPoint := extension n f, freeIndex := 0, allocCache := NOT 0, nelems := n, gcmarkBits := g, allocBits := a\<rparr>"
  have s': "setDivMagic ?t = Some s'" using st lay r1 r2 by (simp add: span_Init_def Let_def newAllocBits_def)
  note sd = setDivMagic_fields [OF s']
  have f: "nelems s' = n" "gcmarkBits s' = g" "allocBits s' = a" using sd by simp_all
  show "classIndex s' = classIndex s" "setDivMagic s' = Some s'" using sd by simp_all
  have b: "map_bytes g n \<subseteq> blk g (of_nat (4 * ?w))" "map_bytes a n \<subseteq> blk a (of_nat (4 * ?w))"
    by (rule map_bytes_blk [OF un m(8)] map_bytes_blk [OF un al(8)])+
  show "map_bytes (gcmarkBits s') (nelems s') \<union> map_bytes (allocBits s') (nelems s') \<subseteq> pool_used p' - pool_used p"
    using b m(5,6) al(5,6) unfolding f by blast
  show "map_bytes (gcmarkBits s') (nelems s') \<inter> map_bytes (allocBits s') (nelems s') = {}" using b m(6) al(5) unfolding f by blast
qed

text \<open>The object an address belongs to, by the magic numbers \<open>Init\<close> copies from the table.\<close>

lemma objIndex_div_magic:
  assumes "setDivMagic s0 = Some s" and "0 < classIndex s0" and "p \<noteq> startAddr s0"
  shows "objIndex s p = div_magic (class_to_divmagic ! classIndex s0) (p - startAddr s0)"
  using assms by (auto simp: setDivMagic_def objIndex_def div_magic_def Let_def split: if_splits)

lemma objIndex_sound:
  assumes "setDivMagic s0 = Some s" and c: "0 < classIndex s0" and p: "unat (startAddr s0) \<le> unat p"
    and off: "unat p - unat (startAddr s0) < unat (class_pages (classIndex s0)) * 4096"
  shows "unat (objIndex s p) = (unat p - unat (startAddr s0)) div class_size (classIndex s0)"
proof (cases "p = startAddr s0")
  case True
  have "startAddr s = startAddr s0" using assms(1,2) by (auto simp: setDivMagic_def Let_def split: if_splits)
  then show ?thesis using True by (simp add: objIndex_def)
next
  case False
  have lt: "classIndex s0 < 67" using assms(1,2) by (auto simp: setDivMagic_def split: if_splits)
  have u: "unat (p - startAddr s0) = unat p - unat (startAddr s0)" using p by (simp add: unat_sub_noof)
  show ?thesis
    using div_magic_correct [OF c lt, of "p - startAddr s0"] off
    by (simp add: objIndex_div_magic [OF assms(1) c False] u)
qed

text \<open>The count of marked objects.\<close>

lemma card_bits_sum: "card {i :: nat. i < n \<and> P i} = (\<Sum>i<n. of_bool (P i))"
proof -
  have "{i. i < n \<and> P i} = {..<n} \<inter> Collect P" by auto
  then show ?thesis by (simp add: sum_of_bool_eq)
qed

lemma eq_of_nat_unat: "unat x = n \<Longrightarrow> x = of_nat n"
  by auto

lemma sum_split8: "(\<Sum>i<32. f i) = (\<Sum>i<8. f i) + (\<Sum>i<8. f (8 + i)) + (\<Sum>i<8. f (16 + i)) + (\<Sum>i<8. f (24 + i :: nat) :: nat)"
  by (simp add: lessThan_nat_numeral lessThan_Suc)

lemma ones32_card: "unat (ones32 v) = card {j. j < 32 \<and> bit v j}"
proof -
  let ?b = "\<lambda>k. ucast (drop_bit k v) :: uint8"
  have b: "unat (ucast (oneBitCount ! unat x) :: uintptr) = (\<Sum>i<8. of_bool (bit x i))" for x :: uint8
    by (simp add: unat_ucast_8_64 oneBitCount_correct card_bits_sum)
  have bd: "bit (?b k) i = bit v (k + i)" if "i < 8" for k i
    using that by (simp add: bit_unsigned_iff bit_drop_bit_eq)
  have le: "(\<Sum>i<8. of_bool (bit (x :: uint8) i)) \<le> (8 :: nat)" for x
    using sum_mono [of "{..<8}" "\<lambda>i. of_bool (bit x i)" "\<lambda>i. 1 :: nat"] by simp
  have "unat (ones32 v) = (\<Sum>i<8. of_bool (bit (?b 0) i)) + (\<Sum>i<8. of_bool (bit (?b 8) i))
      + (\<Sum>i<8. of_bool (bit (?b 16) i)) + (\<Sum>i<8. of_bool (bit (?b 24) i))"
    using b le [of "?b 0"] le [of "?b 8"] le [of "?b 16"] le [of "?b 24"]
    by (simp add: ones32_def unat_add_noof)
  also have "\<dots> = (\<Sum>i<8. of_bool (bit v i)) + (\<Sum>i<8. of_bool (bit v (8 + i)))
      + (\<Sum>i<8. of_bool (bit v (16 + i))) + (\<Sum>i<8. of_bool (bit v (24 + i)))"
    using bd [of _ 0] bd [of _ 8] bd [of _ 16] bd [of _ 24]
    by (intro arg_cong2 [of _ _ _ _ "(+)"] sum.cong) (simp_all only: lessThan_iff add_0)
  also have "\<dots> = card {j. j < 32 \<and> bit v j}" by (simp only: card_bits_sum sum_split8)
  finally show ?thesis .
qed

definition marked_below :: "memory \<Rightarrow> uintptr \<Rightarrow> nat \<Rightarrow> nat" where
  "marked_below m b n = card {j. j < n \<and> membit m b j}"

lemma marked_below_add:
  "marked_below m b (n + k) = marked_below m b n + card {j. j < k \<and> membit m b (n + j)}"
proof -
  have "(\<Sum>i<n + k. of_bool (membit m b i)) = (\<Sum>i<n. of_bool (membit m b i)) + (\<Sum>i<k. of_bool (membit m b (n + i)) :: nat)"
    by (induction k) simp_all
  then show ?thesis by (simp only: marked_below_def card_bits_sum)
qed

lemma marked_below_le: "marked_below m b n \<le> n"
proof -
  have "card {j. j < n \<and> membit m b j} \<le> card {..<n}" by (intro card_mono) auto
  then show ?thesis by (simp add: marked_below_def)
qed

lemma load_count:
  assumes "bitmap m b n" and "i < n"
  shows "\<exists>v. load32 m (uint32p b (of_nat i)) = Some v \<and> (\<forall>k \<le> 32.
    card {j. j < 32 \<and> bit (v AND (push_bit k 1 - 1)) j} = card {j. j < k \<and> membit m b (32 * i + j)})"
proof -
  from store_word [OF assms] obtain v where v: "load32 m (uint32p b (of_nat i)) = Some v"
    and vb: "\<forall>j < 32. bit v j = membit m b (32 * i + j)" by blast
  have "{j. j < 32 \<and> bit (v AND (push_bit k 1 - 1)) j} = {j. j < k \<and> membit m b (32 * i + j)}" if "k \<le> 32" for k
    using that vb by (auto simp: bit_and_iff bit_mask_iff push_bit_of_1 simp flip: mask_eq_exp_minus_1)
  then show ?thesis using v by auto
qed

lemma countWords_ok:
  "bitmap m b n \<Longrightarrow> i + k \<le> n \<Longrightarrow>
    countWords m b (of_nat i) k (of_nat (marked_below m b (32 * i))) = Some (of_nat (marked_below m b (32 * (i + k))))"
proof (induction k arbitrary: i)
  case (Suc k)
  have "i < n" using Suc.prems(2) by simp
  from load_count [OF Suc.prems(1) this] obtain v where v: "load32 m (uint32p b (of_nat i)) = Some v"
    and c: "card {j. j < 32 \<and> bit (v AND (push_bit 32 1 - 1)) j} = card {j. j < 32 \<and> membit m b (32 * i + j)}"
    by auto
  have "push_bit 32 1 = (0 :: uint32)" by (rule bit_word_eqI) (simp add: bit_push_bit_iff del: push_bit_of_1)
  then have "v AND (push_bit 32 1 - 1) = v" by (simp only: diff_0 and_minus_numerals bit.conj_one_right)
  then have "unat (ones32 v) = card {j. j < 32 \<and> membit m b (32 * i + j)}" using c by (simp only: ones32_card)
  then have "ones32 v = of_nat (card {j. j < 32 \<and> membit m b (32 * i + j)})" by (rule eq_of_nat_unat)
  then have "of_nat (marked_below m b (32 * i)) + ones32 v = of_nat (marked_below m b (32 * Suc i))"
    using marked_below_add [of m b "32 * i" 32] by (simp add: add.commute)
  then show ?case using v Suc.IH [of "Suc i"] Suc.prems by (simp add: add.commute)
qed simp

lemma bitmap_words_ge: "unat n \<le> 32 * bitmap_words n"
  unfolding bitmap_words_def by simp

lemma countGcMarkBits_ok:
  assumes bm: "bitmap m (gcmarkBits s) (bitmap_words (nelems s))" and n: "unat (nelems s) \<le> 2 ^ 40"
  shows "countGcMarkBits m s = Some (of_nat (marked_below m (gcmarkBits s) (unat (nelems s))))"
proof -
  let ?b = "gcmarkBits s" and ?n = "unat (nelems s)" and ?q = "unat (nelems s) div 32" and ?r = "unat (nelems s) mod 32"
  have q: "unat (nelems s div 32) = ?q" "unat (nelems s mod 32) = ?r" by (simp_all add: unat_div unat_mod)
  have qw: "nelems s div 32 = of_nat ?q" by (rule eq_of_nat_unat) (rule q)
  have le: "?q \<le> bitmap_words (nelems s)" using bitmap_words_ge [of "nelems s"] by linarith
  have cw: "countWords m ?b 0 ?q 0 = Some (of_nat (marked_below m ?b (32 * ?q)))"
    using countWords_ok [OF bm, of 0 ?q] le by (simp add: marked_below_def)
  show ?thesis
  proof (cases "?r = 0")
    case True
    then have "32 * ?q = ?n" by auto
    moreover have "nelems s mod 32 = 0" using True q(2) by (metis unat_eq_zero)
    ultimately show ?thesis using cw by (simp add: countGcMarkBits_def Let_def q(1))
  next
    case False
    then have "32 * ?q < ?n" using mult_div_mod_eq [of 32 ?n] by linarith
    also have "?n \<le> 32 * bitmap_words (nelems s)" by (rule bitmap_words_ge)
    finally have "?q < bitmap_words (nelems s)" by simp
    from load_count [OF bm this] obtain v where v: "load32 m (uint32p ?b (of_nat ?q)) = Some v"
      and c: "\<forall>k \<le> 32. card {j. j < 32 \<and> bit (v AND (push_bit k 1 - 1)) j} = card {j. j < k \<and> membit m ?b (32 * ?q + j)}"
      by auto
    have "unat (ones32 (v AND (push_bit ?r 1 - 1))) = card {j. j < ?r \<and> membit m ?b (32 * ?q + j)}"
      using c by (simp add: ones32_card)
    then have "ones32 (v AND (push_bit ?r 1 - 1)) = of_nat (card {j. j < ?r \<and> membit m ?b (32 * ?q + j)})"
      by (rule eq_of_nat_unat)
    then have "of_nat (marked_below m ?b (32 * ?q)) + ones32 (v AND (push_bit ?r 1 - 1)) = of_nat (marked_below m ?b ?n)"
      using marked_below_add [of m ?b "32 * ?q" ?r] by simp
    moreover have "nelems s mod 32 \<noteq> 0" using False q(2) unat_0 by metis
    moreover have "load32 m (uint32p ?b (nelems s div 32)) = Some v" using v by (simp only: qw)
    ultimately show ?thesis using cw by (simp add: countGcMarkBits_def Let_def q)
  qed
qed

lemma obj_addrs_in_pages:
  assumes "i < span_objects s" and "startAddr s' = startAddr s" and "classSize s' = classSize s"
  shows "obj_addrs s' i \<subseteq> {x. unat (startAddr s) \<le> unat x \<and> unat x < unat (startAddr s) + unat (npages s) * 4096}"
proof -
  have "(i + 1) * unat (classSize s) \<le> span_objects s * unat (classSize s)" using assms(1) by (intro mult_le_mono1) simp
  also have "\<dots> \<le> unat (npages s) * 4096" by (simp add: span_objects_def)
  finally show ?thesis unfolding obj_addrs_def assms(2,3) by auto
qed

lemma newMarkBits_Inl:
  assumes "newMarkBits os n z s = Some (Inl e, s')" and "unat n \<le> 2 ^ 40"
  shows "pool_alloc os (4 * of_nat (bitmap_words n)) s = Some (Inl e, s')"
  using assms(1) newMarkBits_words [OF assms(2)] unfolding newMarkBits_unfold
  by (auto split: option.splits sum.splits if_splits)

definition demo_span :: xSpan where
  "demo_span = \<lparr>classIndex = 1, classSize = 8, startAddr = 0x20000000, npages = 1, freeIndex = 0,
     extensionPoint = 0, nelems = 0, allocCache = 0, allocBits = 0, gcmarkBits = 0, span_baseMask = 0,
     divMul = 0, divShift = 0, divShift2 = 0, allocCount = 0, next_span = 0\<rparr>"

lemma demo_span_fresh: "span_fresh demo_span" "span_objects demo_span = 512" "startAddr demo_span = 0x20000000"
  by (simp_all add: span_fresh_def span_objects_def demo_span_def)

lemma demo_Init: "\<exists>s' p'. span_Init demo_os (3, 2) demo_span pool_init = Some (Inr (), s', p')"
proof -
  note inv = pool_init_inv [OF demo_os_fresh] pool_init_clean
  have w: "4 * of_nat (bitmap_words 512) = (64 :: uintptr)" by (simp add: bitmap_words_def)
  have a1: "pool_alloc demo_os 64 pool_init = Some (Inr (word_of_nat (2 ^ 30)),
     \<lparr>mem = map_zero Map.empty (word_of_nat (2 ^ 30)) 0x10000000, calls = 1, pool_frees = [],
      pool_xrm = [\<lparr>xrm_addr = word_of_nat (2 ^ 30), xrm_down = False, xrm_len = 2 ^ 28\<rparr>], pool_index = 64\<rparr>)" (is "_ = Some (_, ?p1)")
    by (simp add: pool_alloc_def alignOf_def pool_init_def newXRawMemory_def demo_os_def Align_def Let_def)
  have m1: "newMarkBits demo_os 512 True pool_init = Some (Inr (word_of_nat (2 ^ 30)), ?p1)"
    using a1 w unfolding newMarkBits_unfold by simp
  note i1 = newMarkBits_sound(1,2) [OF inv _ m1]
  have a2: "pool_alloc demo_os 64 ?p1 = Some (Inr (word_of_nat (2 ^ 30) + 64), ?p1\<lparr>pool_index := 64 + 64\<rparr>)"
    using pool_alloc_fits [of ?p1 _ "[]" 64 demo_os] by simp
  obtain r p2 where m2: "newMarkBits demo_os 512 False ?p1 = Some (r, p2)"
    using newMarkBits_safe [OF i1, of 512 False] by auto
  have "\<exists>a. r = Inr a"
  proof (cases r)
    case (Inl e)
    then show ?thesis using newMarkBits_Inl [of demo_os 512 False ?p1 e p2] m2 a2 w by simp
  qed simp
  moreover have "fst (snd (span_layout demo_span)) = 512" by (simp add: span_layout_def demo_span_def)
  ultimately show ?thesis using m1 m2
    by (auto simp: span_Init_def demo_span_def span_layout_def newAllocBits_def setDivMagic_def Let_def)
qed

subsection \<open>Properties\<close>

text \<open>
  C7: A span that Init accepted serves as many requests as objects fit in its pages, each with a
  block of the class size inside the pages, all blocks disjoint; the next request is refused.
\<close>
theorem span_serves_all:
  assumes "pool_inv os p" and "pool_clean p" and "span_fresh s" and init: "span_Init os f s p = Some (Inr (), s', p')"
  shows "\<exists>bs t t'. alloc_run (span_step (mem p')) (replicate (span_objects s) ()) s' = Some (bs, t) \<and>
    length bs = span_objects s \<and> disjoint_blocks bs \<and>
    (\<forall>b \<in> set bs. blk (fst b) (snd b) \<subseteq>
      {x. unat (startAddr s) \<le> unat x \<and> unat x < unat (startAddr s) + unat (npages s) * 4096}) \<and>
    freeOffset (mem p') t = Some (0, False, t')"
proof -
  have ok: "span_ok (mem p') s'" "span_free (mem p') s' = {..< span_objects s}"
    "startAddr s' = startAddr s" "classSize s' = classSize s"
    using span_Init_sound [OF assms(1-3), of f] init by auto
  obtain bs t where run: "alloc_run (span_step (mem p')) (replicate (span_objects s) ()) s' = Some (bs, t)"
    and bs: "length bs = span_objects s" "span_ok (mem p') t" "card (span_free (mem p') t) = 0"
    using span_run_all [OF ok(1), of "span_objects s"] ok(2) by auto
  have valid: "list_all (\<lambda>_. True) (replicate (span_objects s) ())" by (simp add: list.pred_True)
  have "blk (fst b) (snd b) \<subseteq> (\<Union>i < span_objects s. obj_addrs s' i)" if "b \<in> set bs" for b
    using span.run_fresh [OF valid ok(1) run] that unfolding span_used_def ok(2) by blast
  then have "blk (fst b) (snd b) \<subseteq> {x. unat (startAddr s) \<le> unat x \<and> unat x < unat (startAddr s) + unat (npages s) * 4096}"
    if "b \<in> set bs" for b
    using that obj_addrs_in_pages [OF _ ok(3,4)] by blast
  moreover have "span_free (mem p') t = {}"
    using bs(3) finite_subset [of "span_free (mem p') t" "{..< unat (nelems t)}"] by (auto simp: span_free_def)
  with bs(2) have "\<exists>t'. freeOffset (mem p') t = Some (0, False, t')"
    by (cases rule: freeOffset_cases) auto
  ultimately show ?thesis using run bs(1) span.run_fresh [OF valid ok(1) run] by blast
qed

theorem span_serves_all_witness:
  "\<exists>(p' :: raw_pool) s' bs t. alloc_run (span_step (mem p')) (replicate 512 ()) s' = Some (bs, t) \<and> length bs = 512 \<and> disjoint_blocks bs"
proof -
  obtain s' p' where "span_Init demo_os (3, 2) demo_span pool_init = Some (Inr (), s', p')" using demo_Init by blast
  from span_serves_all [OF pool_init_inv [OF demo_os_fresh] pool_init_clean demo_span_fresh(1) this]
  show ?thesis unfolding demo_span_fresh(2) by blast
qed

text \<open>
  C19: freeOffset never panics on a well-formed span: it returns the address of the first free
  object and takes just that object, or reports that none is left; the span stays well-formed.
\<close>
theorem freeOffset_first_free:
  assumes "span_ok m s"
  shows "\<exists>p has s'. freeOffset m s = Some (p, has, s') \<and> span_ok m s' \<and> (has \<longleftrightarrow> span_free m s \<noteq> {}) \<and>
    (has \<longrightarrow> p = of_nat (Min (span_free m s)) * classSize s + startAddr s \<and>
       span_free m s' = span_free m s - {Min (span_free m s)} \<and> allocCount s' = allocCount s + 1)"
  using assms by (cases rule: freeOffset_cases) auto

theorem freeOffset_first_free_witness:
  "\<exists>m s s'. freeOffset m s = Some (0x20000000, True, s') \<and> span_free m s' = {..< 512} - {0}"
proof -
  obtain s' p' where "span_Init demo_os (3, 2) demo_span pool_init = Some (Inr (), s', p')" using demo_Init by blast
  then have ok: "span_ok (mem p') s'" and free: "span_free (mem p') s' = {..< 512}" and "startAddr s' = 0x20000000"
    using span_Init_sound [OF pool_init_inv [OF demo_os_fresh] pool_init_clean demo_span_fresh(1), of "(3, 2)"]
    by (auto simp: demo_span_fresh(2,3))
  moreover have min: "Min (span_free (mem p') s') = 0" unfolding free by (intro Min_eqI) auto
  moreover from freeOffset_first_free [OF ok] obtain q has t where
    t: "freeOffset (mem p') s' = Some (q, has, t)" "has \<longleftrightarrow> span_free (mem p') s' \<noteq> {}"
    "has \<Longrightarrow> q = of_nat (Min (span_free (mem p') s')) * classSize s' + startAddr s' \<and>
       span_free (mem p') t = span_free (mem p') s' - {Min (span_free (mem p') s')}" by blast
  moreover have "0 \<in> span_free (mem p') s'" unfolding free by simp
  then have has unfolding t(2) by blast
  ultimately have "freeOffset (mem p') s' = Some (0x20000000, True, t)" "span_free (mem p') t = {..< 512} - {0}"
    by simp_all
  then show ?thesis by blast
qed

text \<open>
  C31: objIndex finds the object of every address of the span's pages by multiplying and shifting,
  without a division, with the numbers Init copied from the table of its class.
\<close>
theorem objIndex_is_division:
  assumes "setDivMagic s0 = Some s" and "0 < classIndex s0" and "unat (startAddr s0) \<le> unat p"
    and "unat p - unat (startAddr s0) < unat (class_pages (classIndex s0)) * 4096"
  shows "unat (objIndex s p) = (unat p - unat (startAddr s0)) div class_size (classIndex s0)"
  by (rule objIndex_sound [OF assms])

theorem objIndex_is_division_witness:
  "\<exists>s. setDivMagic (demo_span\<lparr>classIndex := 5\<rparr>) = Some s \<and> unat (objIndex s (0x20000000 + 1000)) = 1000 div class_size 5"
proof -
  obtain s where s: "setDivMagic (demo_span\<lparr>classIndex := 5\<rparr>) = Some s" by (simp add: setDivMagic_def Let_def)
  have "unat (class_pages 5) * 4096 > 1000" by (simp add: class_pages_def class_to_size_def class_to_allocnpages_def Align_def Let_def)
  then show ?thesis using s objIndex_is_division [OF s, of "0x20000000 + 1000"] by (simp add: demo_span_def)
qed

text \<open>
  When the class size divides the pages, isFull already holds while one object is still free:
  with one allocation left it compares the bytes after that allocation with the whole span.
\<close>
theorem isFull_one_early:
  assumes "span_fresh s" and "unat (classSize s) dvd unat (npages s) * 4096"
    and "unat (allocCount s) + 1 = span_objects s"
  shows "isFull s"
proof -
  have "(unat (allocCount s) + 1) * unat (classSize s) = unat (npages s) * 4096"
    using assms(2,3) by (simp add: span_objects_def)
  moreover have "unat (npages s) \<le> 2 ^ 26" using assms(1) by (simp add: span_fresh_def)
  moreover have "span_objects s \<le> 2 ^ 40" by (rule span_layout_objects(2) [OF assms(1)])
  moreover from this have u: "unat (allocCount s + 1) = unat (allocCount s) + 1"
    using assms(3) unat_add_noof [of "allocCount s" 1] by simp
  ultimately have "unat ((allocCount s + 1) * classSize s) = unat (npages s) * 4096"
    by (subst unat_mult_noof) (simp_all only: u, simp)
  moreover have "unat (PageSize * npages s) = 4096 * unat (npages s)"
    using \<open>unat (npages s) \<le> 2 ^ 26\<close> by (simp add: unat_mult_noof)
  ultimately show ?thesis by (simp add: isFull_def word_le_nat_alt)
qed

theorem isFull_one_early_witness: "isFull (demo_span\<lparr>allocCount := 511\<rparr>)"
  by (rule isFull_one_early) (simp_all add: span_fresh_def span_objects_def demo_span_def)

end
