(* ===== verification/SpanList.thy ===== *)
theory SpanList
  imports Span
begin

text \<open>
  common.go, \<open>mSpanList\<close>: the intrusive lists of spans of a size class. Spans live in a store
  from addresses to records; a list is the address of its first span, and the links are the
  \<open>next\<close> fields, so a span can be in one list only. \<open>None\<close> is a nil dereference, or a loop that
  never ends. The compare-and-swap of each loop is modelled in the round nobody disturbs; when it
  fails in such a round it fails for ever, as in \<open>move\<close> of an absent span.
\<close>

subsection \<open>Definitions\<close>

type_synonym span_store = "uintptr \<Rightarrow> xSpan option"

definition set_next :: "uintptr \<Rightarrow> uintptr \<Rightarrow> span_store \<Rightarrow> span_store option" where
  "set_next a n st = map_option (\<lambda>s. st(a \<mapsto> s\<lparr>next_span := n\<rparr>)) (st a)"

definition list_insert :: "uintptr \<Rightarrow> uintptr \<times> span_store \<Rightarrow> (uintptr \<times> span_store) option" where
  "list_insert span fs =
     (if span = 0 then Some fs
      else do {
        st \<leftarrow> set_next span 0 (snd fs);
        (let first = fst fs
         in if first = 0 then Some (span, st)
            else do {
              st \<leftarrow> set_next span first st;
              Some (span, st)
            })
      })"

definition list_moveHead :: "uintptr \<times> span_store \<Rightarrow> (uintptr \<times> uintptr \<times> span_store) option" where
  "list_moveHead fs =
     (let (first, st) = fs
      in if first \<noteq> 0 then do {
           s \<leftarrow> st first;
           Some (first, next_span s, st)
         }
         else Some (0, first, st))"

text \<open>The inner loop of \<open>move\<close>: the node before \<open>span\<close> (the last one when absent) and the one after it.\<close>

partial_function (option) list_scan :: "span_store \<Rightarrow> uintptr \<Rightarrow> uintptr \<Rightarrow> uintptr \<Rightarrow> (uintptr \<times> uintptr) option" where
  "list_scan st span pre node =
     (if node = 0 then Some (pre, 0)
      else if node = span then Option.bind (st span) (\<lambda>s. Some (pre, next_span s))
      else Option.bind (st node) (\<lambda>s. list_scan st span node (next_span s)))"

partial_function (option) list_move :: "uintptr \<Rightarrow> uintptr \<times> span_store \<Rightarrow> (uintptr \<times> span_store) option" where
  "list_move span fs =
     Option.bind (list_scan (snd fs) span 0 (fst fs)) (\<lambda>(pre, next).
       if pre \<noteq> 0
       then Option.bind (snd fs pre) (\<lambda>p.
         if next_span p = span
         then Some (fst fs, (snd fs)(pre \<mapsto> p\<lparr>next_span := next\<rparr>))
         else list_move span fs)
       else if fst fs = span then Some (next, snd fs)
       else list_move span fs)"

partial_function (option) list_foreach :: "(uintptr \<Rightarrow> 's \<Rightarrow> 's option) \<Rightarrow> span_store \<Rightarrow> uintptr \<Rightarrow> 's \<Rightarrow> 's option" where
  "list_foreach consumer st node s =
     (if node = 0 then Some s
      else Option.bind (consumer node s) (\<lambda>s. Option.bind (st node) (\<lambda>x. list_foreach consumer st (next_span x) s)))"

subsection \<open>Lists as sequences\<close>

text \<open>\<open>linked st a xs\<close>: following the links from \<open>a\<close> visits the distinct spans \<open>xs\<close>.\<close>

fun chain :: "span_store \<Rightarrow> uintptr \<Rightarrow> uintptr list \<Rightarrow> bool" where
  "chain st a [] = (a = 0)"
| "chain st a (x # xs) = (a = x \<and> x \<noteq> 0 \<and> (case st x of None \<Rightarrow> False | Some s \<Rightarrow> chain st (next_span s) xs))"

definition linked :: "uintptr \<times> span_store \<Rightarrow> uintptr list \<Rightarrow> bool" where
  "linked fs xs \<longleftrightarrow> chain (snd fs) (fst fs) xs \<and> distinct xs"

lemma chain_nonzero: "chain st a xs \<Longrightarrow> 0 \<notin> set xs"
  by (induction xs arbitrary: a) (auto split: option.splits)

lemma chain_mapped: "chain st a xs \<Longrightarrow> x \<in> set xs \<Longrightarrow> st x \<noteq> None"
  by (induction xs arbitrary: a) (auto split: option.splits)

lemma chain_upd: "x \<notin> set xs \<Longrightarrow> chain (st(x \<mapsto> s)) a xs = chain st a xs"
  by (induction xs arbitrary: a) (auto split: option.splits)

lemma chain_zero [simp]: "chain st 0 xs \<longleftrightarrow> xs = []"
  by (cases xs) auto

lemma chain_append:
  "chain st a (xs @ y # ys) \<Longrightarrow> y \<notin> set xs \<Longrightarrow> st y = Some s \<Longrightarrow> chain (st(y \<mapsto> s\<lparr>next_span := b\<rparr>)) b zs \<Longrightarrow>
    chain (st(y \<mapsto> s\<lparr>next_span := b\<rparr>)) a (xs @ y # zs)"
  by (induction xs arbitrary: a) (auto split: option.splits)

lemma chain_tail: "chain st a (xs @ y # ys) \<Longrightarrow> \<exists>s. st y = Some s \<and> chain st (next_span s) ys"
  by (induction xs arbitrary: a) (auto split: option.splits)

lemma set_next_Some: "st a = Some s \<Longrightarrow> set_next a n st = Some (st(a \<mapsto> s\<lparr>next_span := n\<rparr>))"
  by (simp add: set_next_def)

text \<open>Inserting puts the span in front, whatever its link was.\<close>

lemma list_insert_ok:
  assumes "linked (f, st) xs" and "st a = Some s" and "a \<noteq> 0" and "a \<notin> set xs"
  shows "list_insert a (f, st) = Some (a, st(a \<mapsto> s\<lparr>next_span := f\<rparr>))"
    and "linked (a, st(a \<mapsto> s\<lparr>next_span := f\<rparr>)) (a # xs)"
  using assms by (auto simp: list_insert_def set_next_def linked_def chain_upd)

lemma list_moveHead_ok:
  "linked (f, st) xs \<Longrightarrow>
    (case xs of
       [] \<Rightarrow> list_moveHead (f, st) = Some (0, 0, st)
     | x # ys \<Rightarrow> \<exists>g. list_moveHead (f, st) = Some (x, g, st) \<and> linked (g, st) ys)"
  by (cases xs) (auto simp: list_moveHead_def linked_def split: option.splits)

lemma list_scan_found:
  "chain st node (xs @ a # ys) \<Longrightarrow> a \<notin> set xs \<Longrightarrow> st a = Some s \<Longrightarrow>
    list_scan st a pre node = Some (if xs = [] then pre else last xs, next_span s)"
proof (induction xs arbitrary: pre node)
  case Nil
  then show ?case by (simp add: list_scan.simps [of st])
next
  case (Cons x xs)
  then obtain t where t: "node = x" "x \<noteq> 0" "st x = Some t" "chain st (next_span t) (xs @ a # ys)"
    by (auto split: option.splits)
  have "list_scan st a pre node = list_scan st a x (next_span t)"
    using t Cons.prems(2) by (auto simp: list_scan.simps [of st a pre])
  then show ?case using Cons.IH [OF t(4)] Cons.prems by simp
qed

lemma list_scan_absent:
  "chain st node xs \<Longrightarrow> a \<notin> set xs \<Longrightarrow> list_scan st a pre node = Some (if xs = [] then pre else last xs, 0)"
proof (induction xs arbitrary: pre node)
  case Nil
  then show ?case by (simp add: list_scan.simps [of st])
next
  case (Cons x xs)
  then obtain t where t: "node = x" "x \<noteq> 0" "st x = Some t" "chain st (next_span t) xs"
    by (auto split: option.splits)
  have "list_scan st a pre node = list_scan st a x (next_span t)"
    using t Cons.prems(2) by (auto simp: list_scan.simps [of st a pre])
  then show ?case using Cons.IH [OF t(4)] Cons.prems by simp
qed

lemma chain_last_next: "chain st a (xs @ y # ys) \<Longrightarrow> xs \<noteq> [] \<Longrightarrow> \<exists>p. st (last xs) = Some p \<and> next_span p = y"
proof (induction xs arbitrary: a)
  case (Cons x xs)
  then show ?case by (cases xs) (auto split: option.splits)
qed simp

text \<open>Removing a member takes just it out.\<close>

lemma list_move_ok:
  assumes "linked (f, st) (xs @ a # ys)"
  shows "\<exists>g st'. list_move a (f, st) = Some (g, st') \<and> linked (g, st') (xs @ ys) \<and>
    (\<forall>x. x \<notin> set xs \<longrightarrow> st' x = st x)"
proof -
  have c: "chain st f (xs @ a # ys)" and d: "distinct (xs @ a # ys)" using assms by (auto simp: linked_def)
  obtain s where s: "st a = Some s" "chain st (next_span s) ys" using chain_tail [OF c] by blast
  have scan: "list_scan st a 0 f = Some (if xs = [] then 0 else last xs, next_span s)"
    using list_scan_found [OF c _ s(1)] d by simp
  show ?thesis
  proof (cases "xs = []")
    case True
    then have "f = a" using c by simp
    then have "list_move a (f, st) = Some (next_span s, st)" using scan True by (simp add: list_move.simps [of a])
    then show ?thesis using True s(2) d by (simp add: linked_def)
  next
    case False
    then obtain us p where us: "xs = us @ [p]" using rev_exhaust by blast
    obtain r where r: "st p = Some r" "next_span r = a" using chain_last_next [OF c False] us by auto
    have "p \<noteq> 0" using chain_nonzero [OF c] us by auto
    then have m: "list_move a (f, st) = Some (f, st(p \<mapsto> r\<lparr>next_span := next_span s\<rparr>))"
      using scan r False us by (simp add: list_move.simps [of a])
    have "chain (st(p \<mapsto> r\<lparr>next_span := next_span s\<rparr>)) (next_span s) ys" using s(2) d us by (simp add: chain_upd)
    then have "chain (st(p \<mapsto> r\<lparr>next_span := next_span s\<rparr>)) f (us @ p # ys)"
      using c d us r(1) by (intro chain_append [of st f us p "a # ys"]) auto
    then show ?thesis using m d us by (auto simp: linked_def)
  qed
qed

text \<open>Removing an absent span: every round scans the list in vain and the swap fails.\<close>

lemma list_move_absent:
  assumes "linked fs xs" and "a \<notin> set xs" and "a \<noteq> 0"
  shows "list_move a fs = None"
proof (rule ccontr)
  assume "list_move a fs \<noteq> None"
  then obtain r where r: "list_move a fs = Some r" by auto
  have "linked fs xs \<longrightarrow> a \<notin> set xs \<longrightarrow> a \<noteq> 0 \<longrightarrow> False"
  proof (rule list_move.raw_induct [OF _ r])
    fix move a fs r
    assume IH: "\<And>a fs r. move a fs = Some r \<Longrightarrow> linked fs xs \<longrightarrow> a \<notin> set xs \<longrightarrow> a \<noteq> 0 \<longrightarrow> False"
      and body: "list_scan (snd fs) a 0 (fst fs) \<bind> (\<lambda>(pre, next).
        if pre \<noteq> 0
        then snd fs pre \<bind> (\<lambda>p. if next_span p = a then Some (fst fs, (snd fs)(pre \<mapsto> p\<lparr>next_span := next\<rparr>)) else move a fs)
        else if fst fs = a then Some (next, snd fs) else move a fs) = Some r"
    show "linked fs xs \<longrightarrow> a \<notin> set xs \<longrightarrow> a \<noteq> 0 \<longrightarrow> False"
    proof (intro impI)
      assume l: "linked fs xs" and a: "a \<notin> set xs" "a \<noteq> 0"
      have c: "chain (snd fs) (fst fs) xs" using l by (simp add: linked_def)
      have scan: "list_scan (snd fs) a 0 (fst fs) = Some (if xs = [] then 0 else last xs, 0)"
        using list_scan_absent [OF c a(1)] by simp
      have "move a fs = Some r"
      proof (cases xs rule: rev_cases)
        case Nil
        then show ?thesis using body scan c a(2) by simp
      next
        case (snoc us p)
        have "p \<noteq> 0" using chain_nonzero [OF c] snoc by auto
        moreover obtain s where s: "snd fs p = Some s" "chain (snd fs) (next_span s) []"
          using chain_tail [of "snd fs" "fst fs" us p "[]"] c snoc by auto
        ultimately show ?thesis using body scan snoc a(2) by (auto split: if_splits)
      qed
      then show False using IH l a by blast
    qed
  qed
  then show False using assms by blast
qed

lemma list_foreach_ok:
  assumes "chain st a xs"
  shows "list_foreach f st a s = foldl (\<lambda>r x. Option.bind r (f x)) (Some s) xs"
  using assms
proof (induction xs arbitrary: a s)
  case Nil
  then show ?case by (simp add: list_foreach.simps [of f])
next
  case (Cons x xs)
  then obtain t where t: "a = x" "x \<noteq> 0" "st x = Some t" "chain st (next_span t) xs" by (auto split: option.splits)
  have none: "foldl (\<lambda>r x. Option.bind r (f x)) None ys = None" for ys by (induction ys) simp_all
  show ?case using t Cons.IH [OF t(4)] none by (cases "f x s") (simp_all add: list_foreach.simps [of f])
qed

text \<open>Push all elements of a list; pop \<open>n\<close> elements.\<close>

fun push_all :: "('a \<Rightarrow> 's \<Rightarrow> 's option) \<Rightarrow> 'a list \<Rightarrow> 's \<Rightarrow> 's option" where
  "push_all push [] s = Some s"
| "push_all push (x # xs) s = Option.bind (push x s) (push_all push xs)"

fun pop_n :: "('s \<Rightarrow> ('a \<times> 's) option) \<Rightarrow> nat \<Rightarrow> 's \<Rightarrow> ('a list \<times> 's) option" where
  "pop_n pop 0 s = Some ([], s)"
| "pop_n pop (Suc n) s = Option.bind (pop s) (\<lambda>(x, s). map_option (\<lambda>(xs, s). (x # xs, s)) (pop_n pop n s))"

text \<open>The list as a stack: what \<open>insert\<close> pushes, \<open>moveHead\<close> pops, last in first out.\<close>

locale stack =
  fixes rep :: "'s \<Rightarrow> 'a list \<Rightarrow> bool"
    and can_push :: "'a \<Rightarrow> 's \<Rightarrow> 'a list \<Rightarrow> bool"
    and push :: "'a \<Rightarrow> 's \<Rightarrow> 's option"
    and pop :: "'s \<Rightarrow> ('a \<times> 's) option"
  assumes push_ok: "rep s xs \<Longrightarrow> can_push x s xs \<Longrightarrow> \<exists>s'. push x s = Some s' \<and> rep s' (x # xs)"
    and pop_ok: "rep s (x # xs) \<Longrightarrow> \<exists>s'. pop s = Some (x, s') \<and> rep s' xs"
    and push_stays: "rep s xs \<Longrightarrow> can_push y s xs \<Longrightarrow> push x s = Some s' \<Longrightarrow> x \<noteq> y \<Longrightarrow> can_push y s' (x # xs)"
begin

lemma push_all_ok:
  "rep s ys \<Longrightarrow> distinct xs \<Longrightarrow> (\<And>x. x \<in> set xs \<Longrightarrow> can_push x s ys) \<Longrightarrow>
    \<exists>s'. push_all push xs s = Some s' \<and> rep s' (rev xs @ ys)"
proof (induction xs arbitrary: s ys)
  case (Cons x xs)
  then obtain s1 where s1: "push x s = Some s1" "rep s1 (x # ys)" using push_ok [of s ys x] by auto
  have "can_push y s1 (x # ys)" if "y \<in> set xs" for y
    using push_stays [OF Cons.prems(1) Cons.prems(3) s1(1)] that Cons.prems(2) by auto
  from Cons.IH [OF s1(2) _ this] Cons.prems(2) show ?case using s1(1) by auto
qed simp

lemma pop_n_ok: "rep s (xs @ ys) \<Longrightarrow> \<exists>s'. pop_n pop (length xs) s = Some (xs, s') \<and> rep s' ys"
proof (induction xs arbitrary: s)
  case (Cons x xs)
  then obtain s1 where "pop s = Some (x, s1)" "rep s1 (xs @ ys)" using pop_ok [of s x "xs @ ys"] by auto
  with Cons.IH show ?case by force
qed simp

text \<open>What is pushed comes back in the opposite order.\<close>

lemma lifo:
  assumes "rep s ys" and "distinct xs" and "\<And>x. x \<in> set xs \<Longrightarrow> can_push x s ys"
  shows "\<exists>s1 s2. push_all push xs s = Some s1 \<and> pop_n pop (length xs) s1 = Some (rev xs, s2) \<and> rep s2 ys"
proof -
  obtain s1 where s1: "push_all push xs s = Some s1" "rep s1 (rev xs @ ys)" using push_all_ok [OF assms] by blast
  then show ?thesis using pop_n_ok [OF s1(2)] by auto
qed

end

interpretation span_list: stack linked "\<lambda>a fs xs. a \<noteq> 0 \<and> snd fs a \<noteq> None \<and> a \<notin> set xs" list_insert list_moveHead
proof
  fix s :: "uintptr \<times> span_store" and xs x
  assume l: "linked s xs" and x: "x \<noteq> 0 \<and> snd s x \<noteq> None \<and> x \<notin> set xs"
  then obtain t where "snd s x = Some t" by auto
  then show "\<exists>s'. list_insert x s = Some s' \<and> linked s' (x # xs)"
    using list_insert_ok [of "fst s" "snd s" xs x t] l x by auto
next
  fix s :: "uintptr \<times> span_store" and xs x
  assume "linked s (x # xs)"
  then show "\<exists>s'. list_moveHead s = Some (x, s') \<and> linked s' xs"
    using list_moveHead_ok [of "fst s" "snd s" "x # xs"] by auto
next
  fix s s' :: "uintptr \<times> span_store" and xs x y
  assume "linked s xs" and y: "y \<noteq> 0 \<and> snd s y \<noteq> None \<and> y \<notin> set xs" and p: "list_insert x s = Some s'" and "x \<noteq> y"
  have "snd s' y = snd s y"
    using p \<open>x \<noteq> y\<close> by (auto simp: list_insert_def set_next_def Let_def split: if_splits)
  then show "y \<noteq> 0 \<and> snd s' y \<noteq> None \<and> y \<notin> set (x # xs)" using y \<open>x \<noteq> y\<close> by simp
qed

subsection \<open>Properties\<close>

text \<open>
  Spans inserted one after the other come back from moveHead in the opposite order, and the
  list is then as it was.
\<close>
theorem span_list_lifo:
  assumes "linked fs ys" and "distinct xs" and "\<And>x. x \<in> set xs \<Longrightarrow> x \<noteq> 0 \<and> snd fs x \<noteq> None \<and> x \<notin> set ys"
  shows "\<exists>s1 s2. push_all list_insert xs fs = Some s1 \<and> pop_n list_moveHead (length xs) s1 = Some (rev xs, s2) \<and> linked s2 ys"
  using span_list.lifo [OF assms] by blast

theorem span_list_lifo_witness:
  "\<exists>s1 s2. push_all list_insert [16, 32, 48] (0, \<lambda>a. Some demo_span) = Some s1 \<and>
    pop_n list_moveHead 3 s1 = Some ([48, 32, 16], s2) \<and> linked s2 []"
proof -
  let ?fs = "(0, \<lambda>a. Some demo_span) :: uintptr \<times> span_store" and ?xs = "[16, 32, 48] :: uintptr list"
  have "linked ?fs []" "distinct ?xs" by (simp_all add: linked_def)
  moreover have "x \<noteq> 0 \<and> snd ?fs x \<noteq> None \<and> x \<notin> set []" if "x \<in> set ?xs" for x using that by auto
  moreover have "length ?xs = 3" "rev ?xs = [48, 32, 16]" by simp_all
  ultimately show ?thesis using span_list_lifo [of ?fs "[]" ?xs] by metis
qed

text \<open>C36: move takes just the given span out of the list, and changes no span that was behind it.\<close>
theorem list_move_removes:
  assumes "linked (f, st) (xs @ a # ys)"
  shows "\<exists>g st'. list_move a (f, st) = Some (g, st') \<and> linked (g, st') (xs @ ys) \<and> (\<forall>x. x \<notin> set xs \<longrightarrow> st' x = st x)"
  by (rule list_move_ok [OF assms])

theorem list_move_removes_witness:
  "\<exists>g st'. list_move 32 (16, (\<lambda>a. Some demo_span)(16 \<mapsto> demo_span\<lparr>next_span := 32\<rparr>)) = Some (g, st') \<and> linked (g, st') [16]"
proof -
  have "linked (16, (\<lambda>a. Some demo_span)(16 \<mapsto> demo_span\<lparr>next_span := 32\<rparr>)) ([16] @ 32 # [])"
    by (simp add: linked_def demo_span_def)
  from list_move_removes [OF this] show ?thesis by auto
qed

text \<open>
  move of a span that is not in the list never returns: each round the swap compares the link
  behind the last span, which is nil, with the span, and tries again.
\<close>
lemma list_move_absent_diverges:
  assumes "linked fs xs" and "a \<notin> set xs" and "a \<noteq> 0"
  shows "list_move a fs = None"
  by (rule list_move_absent [OF assms])

text \<open>
  C37: The order the sweep uses, insert into the free list and then move out of the full list,
  follows the link that insert has just overwritten: the full list loses every span behind the
  swept one and continues with the free list, so both lists share spans from then on.
\<close>
theorem insert_then_move_shares:
  assumes full: "linked (f, st) (xs @ a # ys)" and free: "linked (g, st) zs"
    and disj: "a \<notin> set zs" "set xs \<inter> set zs = {}"
  shows "\<exists>st1 f' st2. list_insert a (g, st) = Some (a, st1) \<and> list_move a (f, st1) = Some (f', st2) \<and>
    linked (a, st2) (a # zs) \<and> linked (f', st2) (xs @ zs)"
proof -
  have c: "chain st f (xs @ a # ys)" and d: "distinct (xs @ a # ys)" using full by (auto simp: linked_def)
  obtain s where s: "st a = Some s" using chain_tail [OF c] by blast
  have a0: "a \<noteq> 0" using chain_nonzero [OF c] by auto
  let ?st = "st(a \<mapsto> s\<lparr>next_span := g\<rparr>)"
  note ins = list_insert_ok [OF free s a0 disj(1)]
  have "chain ?st g zs" using free disj(1) by (simp add: linked_def chain_upd)
  then have "chain ?st f (xs @ a # zs)" using c d s by (intro chain_append [of st f xs a ys]) auto
  then have "linked (f, ?st) (xs @ a # zs)" using d disj free by (auto simp: linked_def)
  from list_move_ok [OF this] obtain f' st2 where mv: "list_move a (f, ?st) = Some (f', st2)" "linked (f', st2) (xs @ zs)"
    "\<forall>x. x \<notin> set xs \<longrightarrow> st2 x = ?st x" by blast
  have same: "chain st2 x ws = chain ?st x ws" if "set ws \<inter> set xs = {}" for x ws
    using that mv(3) by (induction ws arbitrary: x) (auto split: option.splits)
  have "linked (a, st2) (a # zs)"
    using ins(2) same [of "a # zs" a] disj d by (auto simp: linked_def)
  then show ?thesis using ins(1) mv(1,2) by blast
qed

theorem insert_then_move_shares_witness:
  "\<exists>st1 f' st2. list_insert 16 (64, (\<lambda>a. Some demo_span)(16 \<mapsto> demo_span\<lparr>next_span := 32\<rparr>)) = Some (16, st1) \<and>
    list_move 16 (16, st1) = Some (f', st2) \<and> linked (f', st2) [64] \<and> linked (16, st2) [16, 64]"
proof -
  let ?st = "(\<lambda>a. Some demo_span)(16 \<mapsto> demo_span\<lparr>next_span := 32\<rparr>) :: span_store"
  have "linked (16, ?st) ([] @ 16 # [32])" "linked (64, ?st) [64]" by (simp_all add: linked_def demo_span_def)
  from insert_then_move_shares [OF this] show ?thesis by auto
qed

end
