(* ===== verification/Heap.thy ===== *)
theory Heap
  imports TreapSpec LinearAlloc SpanList
begin

text \<open>
  heap.go: the heap takes runs of pages from the linear address space, keeps the free runs in the
  treap, cuts chunks off them for spans, and maps every page to its span. One record holds the
  whole state; spans, chunks, nodes and the page tables live in stores of it, all addresses of
  which come from the metadata pool. The heap lock is held by each operation, so operations run
  one after the other. The state of \<open>rand\<close> is the number of draws; the counts of the allocators are
  never read and left out.
\<close>

subsection \<open>State\<close>

text \<open>\<open>pageInUse\<close> and \<open>pageMarks\<close> of \<open>xRawLinearMemory\<close> are never used.\<close>

record xRawLinearMemory =
  rlm_spans :: "uintptr \<Rightarrow> uintptr"

record xHeap = treap_state +
  lin :: linearAlloc
  addrMap :: "(uintptr \<Rightarrow> uintptr) option"
  rawLinear :: "uintptr \<Rightarrow> xRawLinearMemory option"
  allChunk :: "uintptr list option"
  allChunkCap :: nat
  allChunkAllocator :: xSliceAllocator
  spans :: span_store
  classFree :: "nat \<Rightarrow> uintptr"
  classFull :: "nat \<Rightarrow> uintptr"
  totalCapacity :: uint64
  freeCapacity :: uint64
  sweepIndex :: uint32
  sweepCtl :: uint32
  sweepLastTime :: int
  draws :: nat

abbreviation xChunkSize :: uintptr where "xChunkSize \<equiv> 0x10"

abbreviation xSpanSize :: uintptr where "xSpanSize \<equiv> 120"

abbreviation xRawLinearMemorySize :: uintptr where "xRawLinearMemorySize \<equiv> 540672"

abbreviation RawMemoryL2 :: uintptr where "RawMemoryL2 \<equiv> 0x100000"

text \<open>The zero value of a span, as it is in fresh metadata memory.\<close>

definition zero_span :: xSpan where
  "zero_span =
     \<lparr>classIndex = 0, classSize = 0, startAddr = 0, npages = 0, freeIndex = 0, extensionPoint = 0, nelems = 0,
      allocCache = 0, allocBits = 0, gcmarkBits = 0, span_baseMask = 0, divMul = 0, divShift = 0, divShift2 = 0,
      allocCount = 0, next_span = 0\<rparr>"

text \<open>\<open>xAllocator.alloc\<close> of a struct of the given size.\<close>

definition new_struct :: "os \<Rightarrow> uintptr \<Rightarrow> 'a raw_pool_scheme \<Rightarrow> ((goerr + uintptr) \<times> 'a raw_pool_scheme) option" where
  "new_struct os sz s = map_option (\<lambda>(r, _, s). (r, s)) (xAllocator_alloc os (newXAllocator sz) s)"

subsection \<open>Page tables\<close>

definition RawMemoryIndex :: "uintptr \<Rightarrow> uintptr" where
  "RawMemoryIndex p = (p + RawMemoryBaseOffset) div heapRawMemoryBytes"

definition RawMemoryBase :: "uintptr \<Rightarrow> uintptr" where
  "RawMemoryBase i = i * heapRawMemoryBytes - RawMemoryBaseOffset"

text \<open>\<open>addrMap[ai.l1()][ai.l2()]\<close>: there is one first-level entry, so \<open>l1\<close> is 0 and \<open>l2\<close> the index.\<close>

definition idx_l1 :: "uintptr \<Rightarrow> uintptr" where "idx_l1 i = 0"

definition idx_l2 :: "uintptr \<Rightarrow> uintptr" where "idx_l2 i = i"

definition addr_entry :: "uintptr \<Rightarrow> 'a xHeap_scheme \<Rightarrow> uintptr option" where
  "addr_entry i h = do {
     l2 \<leftarrow> addrMap h;
     (if idx_l2 i < RawMemoryL2 then Some (l2 (idx_l2 i)) else None)
   }"

text \<open>\<open>ha.spans[i] = s\<close>, a panic when \<open>ha\<close> is nil.\<close>

definition set_page :: "uintptr \<Rightarrow> uintptr \<Rightarrow> uintptr \<Rightarrow> 'a xHeap_scheme \<Rightarrow> 'a xHeap_scheme option" where
  "set_page ha i s h = map_option
     (\<lambda>r. h\<lparr>rawLinear := (rawLinear h)(ha \<mapsto> r\<lparr>rlm_spans := (rlm_spans r)(i := s)\<rparr>)\<rparr>) (rawLinear h ha)"

fun setSpansLoop ::
  "uintptr \<Rightarrow> uintptr \<Rightarrow> nat \<Rightarrow> uintptr \<Rightarrow> uintptr \<Rightarrow> 'a xHeap_scheme \<Rightarrow> 'a xHeap_scheme option" where
  "setSpansLoop base s 0 n ha h = Some h"
| "setSpansLoop base s (Suc k) n ha h =
     (let i = (base div PageSize + n) mod pagesPerRawMemory
      in do {
        ha \<leftarrow> (if i = 0 then addr_entry (RawMemoryIndex (base + n * PageSize)) h else Some ha);
        h \<leftarrow> set_page ha i s h;
        setSpansLoop base s k (n + 1) ha h
      })"

definition setSpans :: "uintptr \<Rightarrow> uintptr \<Rightarrow> uintptr \<Rightarrow> 'a xHeap_scheme \<Rightarrow> 'a xHeap_scheme option" where
  "setSpans base npage s h = do {
     ha \<leftarrow> addr_entry (RawMemoryIndex base) h;
     setSpansLoop base s (unat npage) 0 ha h
   }"

definition spanOf :: "uintptr \<Rightarrow> 'a xHeap_scheme \<Rightarrow> (goerr + uintptr) option" where
  "spanOf p h =
     (let ri = RawMemoryIndex p
      in if idx_l2 ri \<ge> RawMemoryL2 then Some (Inl ErrL2)
         else do {
           ha \<leftarrow> addr_entry ri h;
           (if ha = 0 then Some (Inl ErrL2Nil)
            else do {
              r \<leftarrow> rawLinear h ha;
              Some (Inr (rlm_spans r ((p div PageSize) mod pagesPerRawMemory)))
            })
         })"

subsection \<open>Growth\<close>

definition addFreeCapacity :: "uint64 \<Rightarrow> 'a xHeap_scheme \<Rightarrow> 'a xHeap_scheme" where
  "addFreeCapacity sz h = h\<lparr>freeCapacity := freeCapacity h + sz\<rparr>"

text \<open>
  \<open>addChunks\<close>: \<open>allChunk\<close> is a log nobody reads, kept as the list of its elements. The callback
  moves it to the new array; the built-in \<open>append\<close> goes to an array of its own when it is full.
\<close>

definition go_append_cap :: "nat \<Rightarrow> nat \<Rightarrow> nat" where
  "go_append_cap len cap = (if len \<le> cap then cap else max len (2 * cap))"

definition addChunks :: "os \<Rightarrow> uintptr list \<Rightarrow> 'a xHeap_scheme \<Rightarrow> ((goerr + unit) \<times> 'a xHeap_scheme) option" where
  "addChunks os xs h = do {
     (r, h) \<leftarrow> (let old = (case allChunk h of None \<Rightarrow> [] | Some ys \<Rightarrow> ys)
       in if allChunk h = None \<or> length xs + length old > allChunkCap h
          then let cap = allChunkCap h * 2
               in map_option (\<lambda>(r, xa, h). (r, h\<lparr>allChunkAllocator := xa\<rparr>))
                    (slice_grow os (of_nat cap) (\<lambda>ptr h. (None, h\<lparr>allChunk := Some old, allChunkCap := cap\<rparr>))
                       (allChunkAllocator h) h)
          else Some (Inr (), h));
     (case r of
        Inl e \<Rightarrow> Some (Inl e, h)
      | Inr _ \<Rightarrow>
          let ys = (case allChunk h of None \<Rightarrow> [] | Some ys \<Rightarrow> ys) @ xs
          in Some (Inr (), h\<lparr>allChunk := Some ys, allChunkCap := go_append_cap (length ys) (allChunkCap h)\<rparr>))
   }"

text \<open>The draw of a priority, and the treap operation with it.\<close>

definition heap_insert ::
  "os \<Rightarrow> (nat \<Rightarrow> uint32) \<Rightarrow> uintptr \<Rightarrow> 'a xHeap_scheme \<Rightarrow> ((goerr + unit) \<times> 'a xHeap_scheme) option" where
  "heap_insert os rnd c h = treap_insert os (rnd (draws h)) c (h\<lparr>draws := draws h + 1\<rparr>)"

text \<open>The last loop of \<open>grow2\<close>: a page table for each region of 256 MB.\<close>

fun mapRegions :: "os \<Rightarrow> nat \<Rightarrow> uintptr \<Rightarrow> 'a xHeap_scheme \<Rightarrow> ((goerr + unit) \<times> 'a xHeap_scheme) option" where
  "mapRegions os 0 offset h = Some (Inr (), h)"
| "mapRegions os (Suc k) offset h =
     Option.bind (new_struct os xRawLinearMemorySize h) (\<lambda>(r, h).
       case r of
         Inl e \<Rightarrow> Some (Inl e, h)
       | Inr rlm \<Rightarrow>
           (let h = h\<lparr>rawLinear := (rawLinear h)(rlm \<mapsto> \<lparr>rlm_spans = (\<lambda>_. 0)\<rparr>)\<rparr>;
                index = RawMemoryIndex offset;
                addrs = (case addrMap h of None \<Rightarrow> (\<lambda>_. 0) | Some a \<Rightarrow> a)
            in if idx_l2 index < RawMemoryL2
               then mapRegions os k (offset + heapRawMemoryBytes) (h\<lparr>addrMap := Some (addrs(idx_l2 index := rlm))\<rparr>)
               else None))"

text \<open>What \<open>grow2\<close> does with the address it got.\<close>

definition addRegion ::
  "os \<Rightarrow> (nat \<Rightarrow> uint32) \<Rightarrow> uintptr \<Rightarrow> uintptr \<Rightarrow> 'a xHeap_scheme \<Rightarrow> ((goerr + unit) \<times> 'a xHeap_scheme) option" where
  "addRegion os rnd p sz h =
     Option.bind (new_struct os xChunkSize h) (\<lambda>(r, h).
       case r of
         Inl e \<Rightarrow> Some (Inl e, h)
       | Inr c \<Rightarrow>
           Option.bind (heap_insert os rnd c (h\<lparr>chunks := (chunks h)(c \<mapsto> \<lparr>chunk_start = p, chunk_npages = sz div PageSize\<rparr>)\<rparr>))
             (\<lambda>(_, h).
               Option.bind (addChunks os [c] h) (\<lambda>(r, h).
                 case r of
                   Inl e \<Rightarrow> Some (Inl e, h)
                 | Inr _ \<Rightarrow> mapRegions os (unat (Align sz heapRawMemoryBytes div heapRawMemoryBytes)) p h)))"

definition growSize :: "uintptr \<Rightarrow> uintptr" where
  "growSize pageNum = (let sz = pageNum * PageSize in if sz < heapRawMemoryBytes then heapRawMemoryBytes else sz)"

text \<open>The expansion of the address space when it has no room; errors of the second try are lost.\<close>

definition expandHeap :: "os \<Rightarrow> 'a xHeap_scheme \<Rightarrow> 'a xHeap_scheme option" where
  "expandHeap os h = do {
     ((er, l), h) \<leftarrow> expand os 0 heapRawMemoryBytes (lin h) h;
     (if er \<noteq> None
      then do {
        ((_, la), h) \<leftarrow> expand os 0 heapRawMemoryBytes \<lparr>lin_next = 0, lin_mapped = 0, lin_end = 0\<rparr> h;
        Some (h\<lparr>lin := la\<rparr>)
      }
      else Some (h\<lparr>lin := l\<rparr>))
   }"

definition reserveRegion :: "os \<Rightarrow> uintptr \<Rightarrow> 'a xHeap_scheme \<Rightarrow> (goerr + uintptr) \<times> 'a xHeap_scheme" where
  "reserveRegion os sz h =
     (let (r, l, h) = lin_alloc os sz heapRawMemoryBytes (lin h) h
      in (r, h\<lparr>lin := l, totalCapacity := totalCapacity h + sz\<rparr>))"

partial_function (option) grow2 ::
  "os \<Rightarrow> (nat \<Rightarrow> uint32) \<Rightarrow> uintptr \<Rightarrow> 'a xHeap_scheme \<Rightarrow> ((goerr + unit) \<times> 'a xHeap_scheme) option" where
  "grow2 os rnd pageNum h =
     (case reserveRegion os (growSize pageNum) h of
        (Inl e, h) \<Rightarrow>
          if e \<noteq> LackOfMemoryErr then Some (Inl e, h)
          else Option.bind (expandHeap os h) (grow2 os rnd pageNum)
      | (Inr p, h) \<Rightarrow> addRegion os rnd p (growSize pageNum) h)"

text \<open>
  The older \<open>grow\<close>, which nothing calls: one region, whose table it enters again for each page,
  at an \<open>offset\<close> that never moves.
\<close>

definition addRegion1 ::
  "os \<Rightarrow> (nat \<Rightarrow> uint32) \<Rightarrow> uintptr \<Rightarrow> 'a xHeap_scheme \<Rightarrow> ((goerr + unit) \<times> 'a xHeap_scheme) option" where
  "addRegion1 os rnd p h =
     Option.bind (new_struct os xChunkSize h) (\<lambda>(r, h).
       case r of
         Inl e \<Rightarrow> Some (Inl e, h)
       | Inr c \<Rightarrow>
           Option.bind (heap_insert os rnd c (h\<lparr>chunks := (chunks h)(c \<mapsto> \<lparr>chunk_start = p, chunk_npages = pagesPerRawMemory\<rparr>)\<rparr>))
             (\<lambda>(_, h).
               Option.bind (addChunks os [c] h) (\<lambda>(r, h).
                 case r of
                   Inl e \<Rightarrow> Some (Inl e, h)
                 | Inr _ \<Rightarrow> mapRegions os 1 p h)))"

partial_function (option) heap_grow ::
  "os \<Rightarrow> (nat \<Rightarrow> uint32) \<Rightarrow> 'a xHeap_scheme \<Rightarrow> ((goerr + unit) \<times> 'a xHeap_scheme) option" where
  "heap_grow os rnd h =
     (case reserveRegion os heapRawMemoryBytes h of
        (Inl e, h) \<Rightarrow>
          if e \<noteq> LackOfMemoryErr then Some (Inl e, h)
          else Option.bind (expandHeap os h) (heap_grow os rnd)
      | (Inr p, h) \<Rightarrow> addRegion1 os rnd p h)"

subsection \<open>Chunks and spans\<close>

text \<open>\<open>find\<close>, with one growth when no chunk is large enough.\<close>

definition findOrGrow ::
  "os \<Rightarrow> (nat \<Rightarrow> uint32) \<Rightarrow> uintptr \<Rightarrow> 'a xHeap_scheme \<Rightarrow> ((goerr + uintptr) \<times> 'a xHeap_scheme) option" where
  "findOrGrow os rnd pageNum h = do {
     node \<leftarrow> treap_find pageNum h;
     (if node = Inl EmptyError
      then do {
        (g, h) \<leftarrow> grow2 os rnd pageNum h;
        (case g of
           Inl e \<Rightarrow> Some (Inl e, h)
         | Inr _ \<Rightarrow> map_option (\<lambda>node. (node, h)) (treap_find pageNum h))
      }
      else Some (node, h))
   }"

text \<open>Take the first pages of the chunk of a node, and put the rest back under its new key.\<close>

definition carve ::
  "os \<Rightarrow> (nat \<Rightarrow> uint32) \<Rightarrow> uintptr \<Rightarrow> uintptr \<Rightarrow> 'a xHeap_scheme \<Rightarrow> ((goerr + xChunk) \<times> 'a xHeap_scheme) option" where
  "carve os rnd pageNum node h = do {
     n \<leftarrow> treap_nodes h node;
     (if node_chunk n = 0 then Some (Inl ErrNodeNil, h)
      else if npagesKey n < pageNum then Some (Inl ErrNodeSmall, h)
      else do {
        ch \<leftarrow> chunks h (node_chunk n);
        (r, h) \<leftarrow> removeNode node h;
        (case r of
           Inl e \<Rightarrow> Some (Inl e, h)
         | Inr _ \<Rightarrow>
             (let got = \<lparr>chunk_start = chunk_start ch, chunk_npages = pageNum\<rparr>
              in if npagesKey n = pageNum then Some (Inr got, h)
                 else
                   let rest = \<lparr>chunk_start = chunk_start ch + pageNum * PageSize, chunk_npages = chunk_npages ch - pageNum\<rparr>
                   in do {
                     (r, h) \<leftarrow> heap_insert os rnd (node_chunk n) (h\<lparr>chunks := (chunks h)(node_chunk n \<mapsto> rest)\<rparr>);
                     (case r of
                        Inl e \<Rightarrow> Some (Inl e, h)
                      | Inr _ \<Rightarrow> Some (Inr got, h))
                   }))
      })
   }"

definition freeChunk ::
  "os \<Rightarrow> (nat \<Rightarrow> uint32) \<Rightarrow> uintptr \<Rightarrow> 'a xHeap_scheme \<Rightarrow> ((goerr + xChunk) \<times> 'a xHeap_scheme) option" where
  "freeChunk os rnd pageNum h = do {
     (r, h) \<leftarrow> findOrGrow os rnd pageNum h;
     (case r of
        Inl e \<Rightarrow> Some (Inl e, h)
      | Inr node \<Rightarrow> carve os rnd pageNum node h)
   }"

definition allocChunk ::
  "os \<Rightarrow> (nat \<Rightarrow> uint32) \<Rightarrow> uintptr \<Rightarrow> 'a xHeap_scheme \<Rightarrow> ((goerr + xChunk) \<times> 'a xHeap_scheme) option" where
  "allocChunk os rnd pageNum h = freeChunk os rnd pageNum h"

definition ChunkInsert ::
  "os \<Rightarrow> (nat \<Rightarrow> uint32) \<Rightarrow> uintptr \<Rightarrow> 'a xHeap_scheme \<Rightarrow> ((goerr + unit) \<times> 'a xHeap_scheme) option" where
  "ChunkInsert os rnd c h = heap_insert os rnd c h"

text \<open>A chunk for a span, and its pages in the page tables; the result is the start address.\<close>

definition spanPages ::
  "os \<Rightarrow> (nat \<Rightarrow> uint32) \<Rightarrow> uintptr \<Rightarrow> uintptr \<Rightarrow> 'a xHeap_scheme \<Rightarrow> ((goerr + uintptr) \<times> 'a xHeap_scheme) option" where
  "spanPages os rnd pageNum span h = do {
     (r, h) \<leftarrow> allocChunk os rnd pageNum h;
     (case r of
        Inl e \<Rightarrow> Some (Inl e, h)
      | Inr chunk \<Rightarrow> do {
          h \<leftarrow> setSpans (chunk_start chunk) pageNum span h;
          Some (Inr (chunk_start chunk), h)
        })
   }"

definition allocRawSpan ::
  "os \<Rightarrow> (nat \<Rightarrow> uint32) \<Rightarrow> uintptr \<Rightarrow> 'a xHeap_scheme \<Rightarrow> ((goerr + uintptr) \<times> 'a xHeap_scheme) option" where
  "allocRawSpan os rnd pageNum h = do {
     (r, h) \<leftarrow> new_struct os xSpanSize h;
     (case r of
        Inl e \<Rightarrow> Some (Inl e, h)
      | Inr span \<Rightarrow> do {
          (r, h) \<leftarrow> spanPages os rnd pageNum span (h\<lparr>spans := (spans h)(span \<mapsto> zero_span)\<rparr>);
          (case r of
             Inl e \<Rightarrow> Some (Inl e, h)
           | Inr start \<Rightarrow>
               Some (Inr span, h\<lparr>spans := (spans h)(span \<mapsto> zero_span\<lparr>npages := pageNum, startAddr := start\<rparr>)\<rparr>))
        })
   }"

definition heap_allocSpan ::
  "os \<Rightarrow> (nat \<Rightarrow> uint32) \<Rightarrow> uintptr \<Rightarrow> nat \<Rightarrow> uintptr \<Rightarrow> float32 \<Rightarrow> 'a xHeap_scheme
    \<Rightarrow> ((goerr + uintptr) \<times> 'a xHeap_scheme) option" where
  "heap_allocSpan os rnd pageNum index cls f h = do {
     (r, h) \<leftarrow> new_struct os xSpanSize h;
     (case r of
        Inl e \<Rightarrow> Some (Inl e, h)
      | Inr span \<Rightarrow> do {
          (r, h) \<leftarrow> (let h = h\<lparr>spans := (spans h)(span \<mapsto> zero_span)\<rparr>
            in if pageNum > 0 then spanPages os rnd pageNum span h else Some (Inr 0, h));
          (case r of
             Inl e \<Rightarrow> Some (Inl e, h)
           | Inr start \<Rightarrow> do {
               (r, s, h) \<leftarrow> span_Init os f
                 (zero_span\<lparr>startAddr := start, classIndex := index, classSize := cls, npages := pageNum\<rparr>) h;
               (let h = h\<lparr>spans := (spans h)(span \<mapsto> s)\<rparr>
                in case r of
                     Inl e \<Rightarrow> Some (Inl e, h)
                   | Inr _ \<Rightarrow> Some (Inr span, h))
             })
        })
   }"

text \<open>
  \<open>newXHeap\<close>, on the zero value of the struct over the state of the process. \<open>initClassSpan\<close> makes
  the lists of every class empty, and fails only without a heap.
\<close>

definition initClassSpan :: "'a xHeap_scheme \<Rightarrow> 'a xHeap_scheme" where
  "initClassSpan h = h\<lparr>classFree := (\<lambda>_. 0), classFull := (\<lambda>_. 0)\<rparr>"

definition newXHeap :: "os \<Rightarrow> 'a xHeap_scheme \<Rightarrow> ((goerr + unit) \<times> 'a xHeap_scheme) option" where
  "newXHeap os h = do {
     (r, h) \<leftarrow> newXSliceAllocator os 8 16 True h;
     (case r of
        Inl e \<Rightarrow> Some (Inl e, h)
      | Inr xa \<Rightarrow> do {
          ((er, l), h) \<leftarrow> expand os 0 heapRawMemoryBytes (lin h) (h\<lparr>allChunkAllocator := xa\<rparr>);
          (let h = h\<lparr>lin := l\<rparr>
           in case er of
                Some e \<Rightarrow> Some (Inl e, h)
              | None \<Rightarrow> Some (Inr (), initClassSpan h))
        })
   }"

end
