(* ===== verification/ClassSpan.thy ===== *)
theory ClassSpan
  imports Heap
begin

text \<open>
  class_span.go: the spans of one size class that are not in use, in a list of those with free
  objects and a list of the full ones. A class is its index; its lists are fields of the heap.
  \<open>nmalloc\<close> is never used. \<open>SpanGCFactor\<close> is zero, so both thresholds of \<open>freeSpan\<close> are zero.
\<close>

subsection \<open>Definitions\<close>

text \<open>\<open>Init\<close> of one class.\<close>

definition class_Init :: "nat \<Rightarrow> 'a xHeap_scheme \<Rightarrow> 'a xHeap_scheme" where
  "class_Init i h = h\<lparr>classFree := (classFree h)(i := 0), classFull := (classFull h)(i := 0)\<rparr>"

definition class_allocSpan ::
  "os \<Rightarrow> (nat \<Rightarrow> uint32) \<Rightarrow> nat \<Rightarrow> float32 \<Rightarrow> 'a xHeap_scheme \<Rightarrow> ((goerr + uintptr) \<times> 'a xHeap_scheme) option" where
  "class_allocSpan os rnd index f h =
     (if classFree h index \<noteq> 0
      then do {
        (span, first, st) \<leftarrow> list_moveHead (classFree h index, spans h);
        Some (Inr span, h\<lparr>classFree := (classFree h)(index := first), spans := st\<rparr>)
      }
      else if index < NumSizeClasses \<and> class_to_allocnpages ! index \<noteq> 0
      then heap_allocSpan os rnd (ucast (class_pages index)) index (ucast (class_to_size ! index)) f h
      else None)"

definition releaseSpan :: "nat \<Rightarrow> uintptr \<Rightarrow> 'a xHeap_scheme \<Rightarrow> 'a xHeap_scheme option" where
  "releaseSpan index span h = do {
     (first, st) \<leftarrow> list_insert span (classFull h index, spans h);
     Some (h\<lparr>classFull := (classFull h)(index := first), spans := st\<rparr>)
   }"

text \<open>The swap of the bit maps: what was marked is free now, and nothing is marked.\<close>

definition swapBits ::
  "os \<Rightarrow> xSpan \<Rightarrow> uintptr \<Rightarrow> 'a xHeap_scheme \<Rightarrow> ((goerr + unit) \<times> xSpan \<times> 'a xHeap_scheme) option" where
  "swapBits os s gcCount h =
     (let s = s\<lparr>freeIndex := 0, allocCount := nelems s - gcCount, allocBits := gcmarkBits s\<rparr>
      in do {
        (r, h) \<leftarrow> newMarkBits os (nelems s) True h;
        (case r of
           Inl e \<Rightarrow> Some (Inl e, s\<lparr>gcmarkBits := 0\<rparr>, h)
         | Inr g \<Rightarrow> do {
             s \<leftarrow> refillAllocCache (mem h) 0 (s\<lparr>gcmarkBits := g\<rparr>);
             Some (Inr (), s, h)
           })
      })"

definition freeSpan ::
  "os \<Rightarrow> nat \<Rightarrow> uintptr \<Rightarrow> 'a xHeap_scheme \<Rightarrow> ((goerr + bool \<times> uintptr) \<times> 'a xHeap_scheme) option" where
  "freeSpan os index span h =
     (if span = 0 then Some (Inl ErrSpanNil, h)
      else do {
        s \<leftarrow> spans h span;
        gcCount \<leftarrow> countGcMarkBits (mem h) s;
        (if gcCount \<le> 0 then Some (Inr (False, 0), h)
         else if allocCount s < nelems s then Some (Inr (False, 0), h)
         else let h = addFreeCapacity (- allocCount s) h
              in do {
                (r, s, h) \<leftarrow> swapBits os s gcCount h;
                (let h = h\<lparr>spans := (spans h)(span \<mapsto> s)\<rparr>
                 in case r of
                      Inl e \<Rightarrow> Some (Inl e, h)
                    | Inr _ \<Rightarrow> do {
                        (first, st) \<leftarrow> list_insert span (classFree h index, spans h);
                        Some (Inr (True, gcCount * classSize s), h\<lparr>classFree := (classFree h)(index := first), spans := st\<rparr>)
                      })
              })
      })"

end
