(* ===== verification/Sweep.thy ===== *)
theory Sweep
  imports ClassSpan
begin

text \<open>
  heap.go and bit_map.go: freeing. \<open>free\<close> marks the object of an address in the mark bits of its
  span and then sweeps, when enough is marked and the last sweep is a second ago: every full
  span with marks gets its marked objects back. The time of a call is an argument, in
  nanoseconds since the zero time.
\<close>

subsection \<open>Marking\<close>

definition setMarkBitsForIndex :: "uintptr \<Rightarrow> xSpan \<Rightarrow> 'a xHeap_scheme \<Rightarrow> 'a xHeap_scheme option" where
  "setMarkBitsForIndex i s h =
     (let mb = markBitsForIndex (gcmarkBits s) i;
          h = addFreeCapacity (classSize s) h
      in map_option (\<lambda>m. h\<lparr>mem := m\<rparr>) (setMarked mb (mem h)))"

definition markBitsForAddr :: "uintptr \<Rightarrow> 'a xHeap_scheme \<Rightarrow> ((goerr + unit) \<times> 'a xHeap_scheme) option" where
  "markBitsForAddr p h = do {
     r \<leftarrow> spanOf p h;
     (case r of
        Inl e \<Rightarrow> Some (Inl e, h)
      | Inr span \<Rightarrow> do {
          s \<leftarrow> (if span = 0 then None else spans h span);
          h \<leftarrow> setMarkBitsForIndex (objIndex s p) s h;
          Some (Inr (), h)
        })
   }"

definition markBitsForBase :: "xSpan \<Rightarrow> markBits" where
  "markBitsForBase s = \<lparr>mb_uint32p = gcmarkBits s, mb_mask = 1, mb_index = 0\<rparr>"

text \<open>The mark bits it returns are the zero value, so it always reports an unaligned start.\<close>

definition markBitsForSpan :: "uintptr \<Rightarrow> 'a xHeap_scheme \<Rightarrow> ((goerr + markBits) \<times> 'a xHeap_scheme) option" where
  "markBitsForSpan base h = do {
     (r, h) \<leftarrow> markBitsForAddr base h;
     (case r of
        Inl e \<Rightarrow> Some (Inl e, h)
      | Inr _ \<Rightarrow>
          let mbits = \<lparr>mb_uint32p = 0, mb_mask = 0, mb_index = 0\<rparr>
          in Some (if mb_mask mbits \<noteq> 1 then Inl ErrUnaligned else Inr mbits, h))
   }"

definition heap_mark :: "uintptr \<Rightarrow> 'a xHeap_scheme \<Rightarrow> ((goerr + unit) \<times> 'a xHeap_scheme) option" where
  "heap_mark addr h = markBitsForAddr addr h"

subsection \<open>When to sweep\<close>

text \<open>
  A \<open>float64\<close> has 53 significant bits; \<open>TotalGCFactor\<close>, 0.0004, is the float64
  \<open>7378697629483821 / 2 ^ 64\<close>.
\<close>

definition round53 :: "nat \<Rightarrow> nat" where
  "round53 n =
     (let k = 2 ^ (bit_length n - 53);
          q = n div k;
          r = n mod k
      in (if 2 * r > k \<or> (2 * r = k \<and> odd q) then q + 1 else q) * k)"

definition float53 :: "int \<Rightarrow> int" where
  "float53 n = (if n < 0 then - int (round53 (nat (- n))) else int (round53 (nat n)))"

definition sweepThreshold :: "uint64 \<Rightarrow> int" where
  "sweepThreshold tot = float53 (float53 (sint tot) * 7378697629483821)"

abbreviation sweepCtlStatus :: uint32 where "sweepCtlStatus \<equiv> - 68"

definition needSweep :: "int \<Rightarrow> 'a xHeap_scheme \<Rightarrow> bool \<times> 'a xHeap_scheme" where
  "needSweep now h =
     (if sweepThreshold (totalCapacity h) > float53 (sint (freeCapacity h)) * 2 ^ 64 then (False, h)
      else if now - sweepLastTime h \<le> 1000000000 then (False, h)
      else if sint (sweepCtl h) < 0 then (True, h\<lparr>sweepCtl := sweepCtl h + 1\<rparr>)
      else if sint (sweepCtl h) > 0 then (False, h)
      else (True, h\<lparr>sweepCtl := sweepCtlStatus\<rparr>))"

subsection \<open>Sweeping\<close>

definition sweepFullSpan ::
  "os \<Rightarrow> (nat \<Rightarrow> uint32) \<Rightarrow> uintptr \<Rightarrow> 'a xHeap_scheme \<Rightarrow> ((goerr + bool \<times> uintptr) \<times> 'a xHeap_scheme) option" where
  "sweepFullSpan os rnd span h = do {
     s \<leftarrow> spans h span;
     (if classIndex s > 0
      then (if classIndex s < NumSizeClasses then freeSpan os (classIndex s) span h else None)
      else if nelems s > 0
      then do {
        n \<leftarrow> countGcMarkBits (mem h) s;
        (if nelems s \<noteq> n then Some (Inr (False, 0), h)
         else do {
           (r, h) \<leftarrow> new_struct os xChunkSize h;
           (case r of
              Inl e \<Rightarrow> Some (Inl e, h)
            | Inr c \<Rightarrow> do {
                (r, h) \<leftarrow> ChunkInsert os rnd c
                  (h\<lparr>chunks := (chunks h)(c \<mapsto> \<lparr>chunk_start = startAddr s, chunk_npages = npages s\<rparr>)\<rparr>);
                (case r of
                   Inl e \<Rightarrow> Some (Inl e, h)
                 | Inr _ \<Rightarrow> Some (Inr (True, npages s * PageSize), h))
              })
         })
      }
      else Some (Inr (True, npages s * PageSize), h))
   }"

text \<open>The loop over the full list of one class; \<open>tot\<close> (the code says \<open>total\<close>) is what was freed so far.\<close>

partial_function (option) sweepList ::
  "os \<Rightarrow> (nat \<Rightarrow> uint32) \<Rightarrow> nat \<Rightarrow> uintptr \<Rightarrow> uint64 \<Rightarrow> 'a xHeap_scheme \<Rightarrow> (uint64 \<times> 'a xHeap_scheme) option" where
  "sweepList os rnd i span tot h =
     (if span = 0 then Some (tot, h)
      else Option.bind (sweepFullSpan os rnd span h) (\<lambda>(r, h).
        Option.bind
          (case r of
             Inr (True, sz) \<Rightarrow>
               map_option (\<lambda>(first, st). (tot + sz, h\<lparr>classFull := (classFull h)(i := first), spans := st\<rparr>))
                 (list_move span (classFull h i, spans h))
           | _ \<Rightarrow> Some (tot, h))
          (\<lambda>(tot, h). Option.bind (spans h span) (\<lambda>s. sweepList os rnd i (next_span s) tot h))))"

text \<open>The loop over the classes from \<open>sweepIndex\<close> on; each round claims one class.\<close>

fun sweepClasses ::
  "os \<Rightarrow> (nat \<Rightarrow> uint32) \<Rightarrow> nat \<Rightarrow> uint64 \<Rightarrow> 'a xHeap_scheme \<Rightarrow> (uint64 \<times> 'a xHeap_scheme) option" where
  "sweepClasses os rnd 0 tot h = Some (tot, h)"
| "sweepClasses os rnd (Suc k) tot h =
     (let i = unat (sweepIndex h);
          h = h\<lparr>sweepIndex := sweepIndex h + 1\<rparr>
      in Option.bind (sweepList os rnd i (classFull h i) tot h) (\<lambda>(tot, h). sweepClasses os rnd k tot h))"

definition sweepRounds :: "uint32 \<Rightarrow> nat" where
  "sweepRounds i = NumSizeClasses - unat i"

definition endSweep :: "'a xHeap_scheme \<Rightarrow> 'a xHeap_scheme" where
  "endSweep h =
     (if sint (sweepCtl h) \<ge> 0 then h
      else if sweepCtl h \<noteq> sweepCtlStatus then h\<lparr>sweepCtl := sweepCtl h - 1\<rparr>
      else h\<lparr>sweepCtl := 0, sweepIndex := 0\<rparr>)"

text \<open>\<open>t1\<close> is the time of the start, \<open>t2\<close> the time at the end.\<close>

definition sweep :: "os \<Rightarrow> (nat \<Rightarrow> uint32) \<Rightarrow> int \<Rightarrow> int \<Rightarrow> 'a xHeap_scheme \<Rightarrow> 'a xHeap_scheme option" where
  "sweep os rnd t1 t2 h =
     (let (need, h) = needSweep t1 h
      in if \<not> need then Some h
         else do {
           (tot, h) \<leftarrow> sweepClasses os rnd (sweepRounds (sweepIndex h)) 0 h;
           (let h = h\<lparr>sweepLastTime := t2\<rparr>
            in Some (if tot < 1 then h else endSweep (addFreeCapacity (0 - tot) h)))
         })"

definition heap_free ::
  "os \<Rightarrow> (nat \<Rightarrow> uint32) \<Rightarrow> int \<Rightarrow> int \<Rightarrow> uintptr \<Rightarrow> 'a xHeap_scheme \<Rightarrow> ((goerr + unit) \<times> 'a xHeap_scheme) option" where
  "heap_free os rnd t1 t2 addr h = do {
     (r, h) \<leftarrow> heap_mark addr h;
     (case r of
        Inl e \<Rightarrow> Some (Inl e, h)
      | Inr _ \<Rightarrow> do {
          h \<leftarrow> sweep os rnd t1 t2 h;
          Some (Inr (), h)
        })
   }"

end
