(* ===== verification/SpanPool.thy ===== *)
theory SpanPool
  imports Sweep
begin

text \<open>
  span_pool.go: for each size class the spans objects come from, the first one in use. A goroutine
  started with \<open>go\<close> is an entry of \<open>pending\<close> until it runs; whoever runs it holds the lock of the
  class, so it runs in one step, at any time between two operations.
\<close>

subsection \<open>State\<close>

record xSpanPool = xHeap +
  inuse :: "nat \<Rightarrow> uint64"
  debug :: bool
  spanGen :: "nat \<Rightarrow> uint32"
  classSpans :: "nat \<Rightarrow> uintptr list option"
  spanFact :: float32
  specialPageNumCoefficient :: "nat \<Rightarrow> uint8"
  pending :: "(nat \<times> uint32) list"

datatype SpanOperation = RemoveHead | ExpendAsync | ExpendSync

text \<open>The number of an operation, which \<open>needExpendAsync\<close> stores in \<open>spanGen\<close>.\<close>

fun opCode :: "SpanOperation \<Rightarrow> uint32" where
  "opCode RemoveHead = - 2"
| "opCode ExpendAsync = - 3"
| "opCode ExpendSync = - 4"

definition newXSpanPool :: "float32 \<Rightarrow> 'a xSpanPool_scheme \<Rightarrow> 'a xSpanPool_scheme" where
  "newXSpanPool f h = h\<lparr>inuse := (\<lambda>_. 0), debug := False, spanGen := (\<lambda>_. 0), classSpans := (\<lambda>_. None),
     spanFact := f, specialPageNumCoefficient := (\<lambda>_. 0), pending := []\<rparr>"

definition newXConcurrentHashMapSpanPool :: "float32 \<Rightarrow> uint8 \<Rightarrow> 'a xSpanPool_scheme \<Rightarrow> 'a xSpanPool_scheme" where
  "newXConcurrentHashMapSpanPool f c h =
     (newXSpanPool f h)\<lparr>specialPageNumCoefficient := (\<lambda>_. 0)(1 := c * 10, 2 := c * 5, 4 := c, 6 := c)\<rparr>"

subsection \<open>The spans of a class\<close>

text \<open>The factor of every class span is the float32 0.75, not the factor of the pool.\<close>

definition allocClassSpan ::
  "os \<Rightarrow> (nat \<Rightarrow> uint32) \<Rightarrow> nat \<Rightarrow> 'a xSpanPool_scheme \<Rightarrow> ((goerr + uintptr) \<times> 'a xSpanPool_scheme) option" where
  "allocClassSpan os rnd index h =
     (if index < NumSizeClasses \<and> class_to_allocnpages ! index \<noteq> 0
      then class_allocSpan os rnd index (3, 2) h
      else None)"

definition addInuse :: "nat \<Rightarrow> 'a xSpanPool_scheme \<Rightarrow> 'a xSpanPool_scheme" where
  "addInuse sc h = (if \<not> debug h then h else h\<lparr>inuse := (inuse h)(sc := inuse h sc + 1)\<rparr>)"

definition getSpan :: "nat \<Rightarrow> 'a xSpanPool_scheme \<Rightarrow> uintptr list \<times> uint32" where
  "getSpan sc h =
     (case classSpans h sc of
        None \<Rightarrow> ([], 0)
      | Some xs \<Rightarrow> (xs, spanGen h sc))"

definition growClassSpan ::
  "os \<Rightarrow> (nat \<Rightarrow> uint32) \<Rightarrow> nat \<Rightarrow> uintptr list \<Rightarrow> 'a xSpanPool_scheme \<Rightarrow> ((goerr + unit) \<times> 'a xSpanPool_scheme) option" where
  "growClassSpan os rnd sc xs h = do {
     (r, h) \<leftarrow> allocClassSpan os rnd sc h;
     (case r of
        Inl e \<Rightarrow> Some (Inl e, h)
      | Inr span \<Rightarrow> Some (Inr (), h\<lparr>classSpans := (classSpans h)(sc := Some (xs @ [span]))\<rparr>))
   }"

text \<open>Whether the last span of the list still has room before its extension point.\<close>

definition lastHasRoom :: "uintptr list \<Rightarrow> 'a xSpanPool_scheme \<Rightarrow> bool option" where
  "lastHasRoom xs h =
     (if xs = [] then Some False else map_option (\<lambda>s. \<not> needGrow s) (spans h (last xs)))"

definition growSpan ::
  "os \<Rightarrow> (nat \<Rightarrow> uint32) \<Rightarrow> nat \<Rightarrow> SpanOperation \<Rightarrow> uint32 \<Rightarrow> 'a xSpanPool_scheme
    \<Rightarrow> ((goerr + unit) \<times> 'a xSpanPool_scheme) option" where
  "growSpan os rnd sc op gen h =
     (let xs = (case classSpans h sc of None \<Rightarrow> [] | Some xs \<Rightarrow> xs);
          gen = (if sint gen < 0 then 1 else gen)
      in case op of
           RemoveHead \<Rightarrow>
             (case xs of
                [] \<Rightarrow> Some (Inr (), h)
              | x # rest \<Rightarrow> do {
                  s \<leftarrow> spans h x;
                  (if \<not> isFull s then Some (Inr (), h)
                   else do {
                     h \<leftarrow> releaseSpan sc x h;
                     Some (Inr (), h\<lparr>classSpans := (classSpans h)(sc := Some rest),
                       spanGen := (spanGen h)(sc := gen + 1)\<rparr>)
                   })
                })
         | ExpendAsync \<Rightarrow> do {
             room \<leftarrow> lastHasRoom xs h;
             (if room then Some (Inr (), h)
              else do {
                (_, h) \<leftarrow> growClassSpan os rnd sc xs h;
                Some (Inr (), h\<lparr>spanGen := (spanGen h)(sc := gen + 1)\<rparr>)
              })
           }
         | ExpendSync \<Rightarrow> do {
             room \<leftarrow> lastHasRoom xs h;
             (if room then Some (Inr (), h)
              else do {
                (r, h) \<leftarrow> growClassSpan os rnd sc xs h;
                (case r of
                   Inl e \<Rightarrow> Some (Inl e, h)
                 | Inr _ \<Rightarrow> Some (Inr (), h\<lparr>spanGen := (spanGen h)(sc := gen + 1)\<rparr>))
              })
           })"

definition needExpendAsync :: "nat \<Rightarrow> SpanOperation \<Rightarrow> 'a xSpanPool_scheme \<Rightarrow> (uint32 \<times> bool \<times> goerr option) \<times> 'a xSpanPool_scheme" where
  "needExpendAsync sc op h =
     (if op \<noteq> ExpendAsync then ((- 1, False, Some ErrNotAsync), h)
      else if sint (spanGen h sc) < 0 then ((spanGen h sc, False, None), h)
      else ((spanGen h sc, True, None), h\<lparr>spanGen := (spanGen h)(sc := opCode op)\<rparr>))"

text \<open>One pending goroutine runs.\<close>

definition runPending :: "os \<Rightarrow> (nat \<Rightarrow> uint32) \<Rightarrow> nat \<Rightarrow> 'a xSpanPool_scheme \<Rightarrow> 'a xSpanPool_scheme option" where
  "runPending os rnd i h =
     (if i < length (pending h)
      then let (sc, gen) = pending h ! i
           in map_option snd (growSpan os rnd sc ExpendAsync gen
                (h\<lparr>pending := take i (pending h) @ drop (Suc i) (pending h)\<rparr>))
      else None)"

subsection \<open>Allocation\<close>

text \<open>\<open>clear\<close> writes zeroes to memory that must be mapped.\<close>

definition clear :: "uintptr \<Rightarrow> uintptr \<Rightarrow> 'a machine_scheme \<Rightarrow> 'a machine_scheme option" where
  "clear ptr sz h =
     (if list_all (\<lambda>i. mem h (ptr + of_nat i) \<noteq> None) [0..<unat sz]
      then Some (h\<lparr>mem := map_zero (mem h) ptr sz\<rparr>) else None)"

definition allocLarge ::
  "os \<Rightarrow> (nat \<Rightarrow> uint32) \<Rightarrow> uintptr \<Rightarrow> 'a xSpanPool_scheme \<Rightarrow> ((goerr + uintptr) \<times> 'a xSpanPool_scheme) option" where
  "allocLarge os rnd sz h = do {
     (r, h) \<leftarrow> allocRawSpan os rnd (Align sz PageSize div PageSize) h;
     (case r of
        Inl e \<Rightarrow> Some (Inl e, h)
      | Inr c \<Rightarrow> do {
          s \<leftarrow> spans h c;
          (r, s, h) \<leftarrow> span_Init os (spanFact h) s h;
          (case r of
             Inl e \<Rightarrow> Some (Inl e, h\<lparr>spans := (spans h)(c \<mapsto> s)\<rparr>)
           | Inr _ \<Rightarrow> do {
               h \<leftarrow> releaseSpan 0 c (h\<lparr>spans := (spans h)(c \<mapsto> s\<lparr>allocCount := 1, nelems := 1\<rparr>)\<rparr>);
               Some (Inr (startAddr s), h)
             })
        })
   }"

text \<open>The first span with a free object: its place in the list, the object, and if the span is used up.\<close>

fun takeObject ::
  "uintptr \<Rightarrow> uintptr \<Rightarrow> uintptr list \<Rightarrow> 'a xSpanPool_scheme \<Rightarrow> ((uintptr \<times> uintptr \<times> bool) option \<times> 'a xSpanPool_scheme) option" where
  "takeObject sz i [] h = Some (None, h)"
| "takeObject sz i (x # xs) h =
     (if x = 0 then takeObject sz (i + 1) xs h
      else Option.bind (spans h x) (\<lambda>s.
        Option.bind (freeOffset (mem h) s) (\<lambda>(ptr, has, s).
          let h = h\<lparr>spans := (spans h)(x \<mapsto> s)\<rparr>
          in if has
             then Option.bind (clear ptr sz h) (\<lambda>h. Some (Some (i, ptr, needGrow s), h))
             else takeObject sz (i + 1) xs h)))"

definition startAsync :: "nat \<Rightarrow> uint32 \<Rightarrow> 'a xSpanPool_scheme \<Rightarrow> 'a xSpanPool_scheme" where
  "startAsync sc gen h =
     (let ((_, need, _), h) = needExpendAsync sc ExpendAsync h
      in if need then h\<lparr>pending := pending h @ [(sc, gen)]\<rparr> else h)"

partial_function (option) pool_Alloc ::
  "os \<Rightarrow> (nat \<Rightarrow> uint32) \<Rightarrow> uintptr \<Rightarrow> 'a xSpanPool_scheme \<Rightarrow> ((goerr + uintptr) \<times> 'a xSpanPool_scheme) option" where
  "pool_Alloc os rnd sz h =
     (if sz > MaxSmallSize then allocLarge os rnd sz h
      else Option.bind
        (Some (unat (size_class sz), ucast (class_to_size ! unat (size_class sz)), getSpan (unat (size_class sz)) h))
        (\<lambda>(sc, sz, xs, gen).
          Option.bind (takeObject sz 0 xs h) (\<lambda>(r, h).
            case r of
              Some (idex, ptr, grow) \<Rightarrow>
                (let h = addInuse sc (if grow then startAsync sc gen h else h)
                 in if idex < 1 then Some (Inr ptr, h)
                    else map_option (\<lambda>(_, h). (Inr ptr, h)) (growSpan os rnd sc RemoveHead gen h))
            | None \<Rightarrow>
                Option.bind (growSpan os rnd sc ExpendSync gen h) (\<lambda>(r, h).
                  case r of
                    Inl e \<Rightarrow> Some (Inl e, h)
                  | Inr _ \<Rightarrow> pool_Alloc os rnd sz h))))"

text \<open>Stores of 64 bits and of byte strings.\<close>

definition store64 :: "memory \<Rightarrow> uintptr \<Rightarrow> uint64 \<Rightarrow> memory option" where
  "store64 m a v = do {
     m \<leftarrow> store32 m a (ucast v);
     store32 m (a + 4) (ucast (drop_bit 32 v))
   }"

fun storeBytes :: "memory \<Rightarrow> uintptr \<Rightarrow> uint8 list \<Rightarrow> memory option" where
  "storeBytes m a [] = Some m"
| "storeBytes m a (b # bs) = (if m a = None then None else storeBytes (m(a \<mapsto> b)) (a + 1) bs)"

text \<open>A Go slice or string header: data, length, capacity.\<close>

record slice =
  sl_data :: uintptr
  sl_len :: uintptr
  sl_cap :: uintptr

definition AllocSlice ::
  "os \<Rightarrow> (nat \<Rightarrow> uint32) \<Rightarrow> uintptr \<Rightarrow> uintptr \<Rightarrow> uintptr \<Rightarrow> 'a xSpanPool_scheme
    \<Rightarrow> ((goerr + uintptr) \<times> 'a xSpanPool_scheme) option" where
  "AllocSlice os rnd eleSize cap len h = do {
     (r, h) \<leftarrow> pool_Alloc os rnd (eleSize * cap + 24) h;
     (case r of
        Inl e \<Rightarrow> Some (Inl e, h)
      | Inr sl \<Rightarrow> do {
          m \<leftarrow> store64 (mem h) (sl + 16) cap;
          m \<leftarrow> store64 m sl (sl + 24);
          m \<leftarrow> store64 m (sl + 8) len;
          Some (Inr sl, h\<lparr>mem := m\<rparr>)
        })
   }"

definition pool_Copy2 ::
  "os \<Rightarrow> (nat \<Rightarrow> uint32) \<Rightarrow> uint8 list \<Rightarrow> uint8 list \<Rightarrow> 'a xSpanPool_scheme
    \<Rightarrow> ((goerr + slice \<times> slice) \<times> 'a xSpanPool_scheme) option" where
  "pool_Copy2 os rnd item1 item2 h =
     (let rawSize = length item1 + length item2
      in if rawSize < 1
         then Some (Inr (\<lparr>sl_data = 0, sl_len = 0, sl_cap = 0\<rparr>, \<lparr>sl_data = 0, sl_len = 0, sl_cap = 0\<rparr>), h)
         else do {
           (r, h) \<leftarrow> pool_Alloc os rnd (of_nat rawSize) h;
           (case r of
              Inl e \<Rightarrow> Some (Inl e, h)
            | Inr p \<Rightarrow> do {
                m \<leftarrow> storeBytes (mem h) p (item1 @ item2);
                (let n1 = of_nat (length item1); n2 = of_nat (length item2)
                 in Some (Inr (\<lparr>sl_data = p, sl_len = n1, sl_cap = n1\<rparr>, \<lparr>sl_data = p + n1, sl_len = n2, sl_cap = n2\<rparr>),
                      h\<lparr>mem := m\<rparr>))
              })
         })"

definition pool_Free ::
  "os \<Rightarrow> (nat \<Rightarrow> uint32) \<Rightarrow> int \<Rightarrow> int \<Rightarrow> uintptr \<Rightarrow> 'a xSpanPool_scheme \<Rightarrow> ((goerr + unit) \<times> 'a xSpanPool_scheme) option" where
  "pool_Free os rnd t1 t2 addr h = heap_free os rnd t1 t2 addr h"

end
