(* ===== verification/Facade.thy ===== *)
theory Facade
  imports SpanPool
begin

text \<open>
  string_alloc.go and xmm.go: strings in allocated memory, and the operations a user of the library
  calls, which test their parameters and pass the call on. A Go string is a \<open>slice\<close> without
  capacity; the contents of an argument are its bytes.
\<close>

subsection \<open>Strings\<close>

definition string_alloc ::
  "os \<Rightarrow> (nat \<Rightarrow> uint32) \<Rightarrow> uintptr \<Rightarrow> 'a xSpanPool_scheme \<Rightarrow> ((goerr + uintptr) \<times> 'a xSpanPool_scheme) option" where
  "string_alloc os rnd sz h = do {
     (r, h) \<leftarrow> pool_Alloc os rnd 16 h;
     (case r of
        Inl e \<Rightarrow> Some (Inl e, h)
      | Inr sh \<Rightarrow> do {
          m \<leftarrow> store64 (mem h) (sh + 8) sz;
          (r, h) \<leftarrow> pool_Alloc os rnd sz (h\<lparr>mem := m\<rparr>);
          (case r of
             Inl e \<Rightarrow> Some (Inl e, h)
           | Inr d \<Rightarrow> do {
               m \<leftarrow> store64 (mem h) sh d;
               Some (Inr sh, h\<lparr>mem := m\<rparr>)
             })
        })
   }"

text \<open>The strings one after the other from \<open>offset\<close> on, each behind its header; the addresses of the headers.\<close>

fun stringsInAddr :: "uintptr \<Rightarrow> uint8 list list \<Rightarrow> memory \<Rightarrow> (uintptr list \<times> memory) option" where
  "stringsInAddr offset [] m = Some ([], m)"
| "stringsInAddr offset (content # rest) m =
     Option.bind (store64 m (offset + 8) (of_nat (length content))) (\<lambda>m.
     Option.bind (store64 m offset (offset + 16)) (\<lambda>m.
     Option.bind (storeBytes m (offset + 16) content) (\<lambda>m.
       map_option (\<lambda>(ps, m). (offset # ps, m)) (stringsInAddr (offset + 16 + of_nat (length content)) rest m))))"

definition sa_FromInAddr :: "uintptr \<Rightarrow> uint8 list list \<Rightarrow> 'a xSpanPool_scheme \<Rightarrow> ((goerr + uintptr list) \<times> 'a xSpanPool_scheme) option" where
  "sa_FromInAddr addr contents h =
     map_option (\<lambda>(ps, m). (Inr ps, h\<lparr>mem := m\<rparr>)) (stringsInAddr addr contents (mem h))"

definition sa_From2 ::
  "os \<Rightarrow> (nat \<Rightarrow> uint32) \<Rightarrow> uint8 list \<Rightarrow> uint8 list \<Rightarrow> 'a xSpanPool_scheme
    \<Rightarrow> ((goerr + slice \<times> slice) \<times> 'a xSpanPool_scheme) option" where
  "sa_From2 os rnd item1 item2 h =
     (let raw = item1 @ item2
      in if length raw < 1
         then Some (Inr (\<lparr>sl_data = 0, sl_len = 0, sl_cap = 0\<rparr>, \<lparr>sl_data = 0, sl_len = 0, sl_cap = 0\<rparr>), h)
         else do {
           (r, h) \<leftarrow> pool_Alloc os rnd (of_nat (length raw)) h;
           (case r of
              Inl e \<Rightarrow> Some (Inl e, h)
            | Inr p \<Rightarrow> do {
                m \<leftarrow> storeBytes (mem h) p raw;
                (let n1 = of_nat (length item1); n2 = of_nat (length item2)
                 in Some (Inr (\<lparr>sl_data = p, sl_len = n1, sl_cap = 0\<rparr>, \<lparr>sl_data = p + n1, sl_len = n2, sl_cap = 0\<rparr>),
                      h\<lparr>mem := m\<rparr>))
              })
         })"

definition sa_From ::
  "os \<Rightarrow> (nat \<Rightarrow> uint32) \<Rightarrow> uint8 list \<Rightarrow> 'a xSpanPool_scheme \<Rightarrow> ((goerr + slice) \<times> 'a xSpanPool_scheme) option" where
  "sa_From os rnd content h = do {
     (r, h) \<leftarrow> pool_Alloc os rnd (of_nat (length content)) h;
     (case r of
        Inl e \<Rightarrow> Some (Inl e, h)
      | Inr p \<Rightarrow> do {
          m \<leftarrow> storeBytes (mem h) p content;
          Some (Inr \<lparr>sl_data = p, sl_len = of_nat (length content), sl_cap = 0\<rparr>, h\<lparr>mem := m\<rparr>)
        })
   }"

definition sa_FreeString ::
  "os \<Rightarrow> (nat \<Rightarrow> uint32) \<Rightarrow> int \<Rightarrow> int \<Rightarrow> slice \<Rightarrow> 'a xSpanPool_scheme \<Rightarrow> ((goerr + unit) \<times> 'a xSpanPool_scheme) option" where
  "sa_FreeString os rnd t1 t2 content h = pool_Free os rnd t1 t2 (sl_data content) h"

subsection \<open>The interface\<close>

record Chunk =
  StartAddr :: uintptr
  Npages :: uintptr

definition mm_Copy2 ::
  "os \<Rightarrow> (nat \<Rightarrow> uint32) \<Rightarrow> uint8 list \<Rightarrow> uint8 list \<Rightarrow> 'a xSpanPool_scheme
    \<Rightarrow> ((goerr + slice \<times> slice) \<times> 'a xSpanPool_scheme) option" where
  "mm_Copy2 os rnd item1 item2 h = pool_Copy2 os rnd item1 item2 h"

definition mm_Alloc ::
  "os \<Rightarrow> (nat \<Rightarrow> uint32) \<Rightarrow> uintptr \<Rightarrow> 'a xSpanPool_scheme \<Rightarrow> ((goerr + uintptr) \<times> 'a xSpanPool_scheme) option" where
  "mm_Alloc os rnd byteSize h = (if byteSize < 1 then Some (Inl NilError, h) else pool_Alloc os rnd byteSize h)"

definition mm_AllocSlice ::
  "os \<Rightarrow> (nat \<Rightarrow> uint32) \<Rightarrow> uintptr \<Rightarrow> uintptr \<Rightarrow> uintptr \<Rightarrow> 'a xSpanPool_scheme
    \<Rightarrow> ((goerr + uintptr) \<times> 'a xSpanPool_scheme) option" where
  "mm_AllocSlice os rnd eleSize cap len h =
     (if eleSize < 1 \<or> cap < 1 then Some (Inl NilError, h) else AllocSlice os rnd eleSize cap len h)"

definition mm_From ::
  "os \<Rightarrow> (nat \<Rightarrow> uint32) \<Rightarrow> uint8 list \<Rightarrow> 'a xSpanPool_scheme \<Rightarrow> ((goerr + slice) \<times> 'a xSpanPool_scheme) option" where
  "mm_From os rnd content h = (if length content < 1 then Some (Inl NilError, h) else sa_From os rnd content h)"

definition mm_From2 ::
  "os \<Rightarrow> (nat \<Rightarrow> uint32) \<Rightarrow> uint8 list \<Rightarrow> uint8 list \<Rightarrow> 'a xSpanPool_scheme
    \<Rightarrow> ((goerr + slice \<times> slice) \<times> 'a xSpanPool_scheme) option" where
  "mm_From2 os rnd item1 item2 h = sa_From2 os rnd item1 item2 h"

definition mm_FromInAddr ::
  "uintptr \<Rightarrow> uint8 list list \<Rightarrow> 'a xSpanPool_scheme \<Rightarrow> ((goerr + uintptr list) \<times> 'a xSpanPool_scheme) option" where
  "mm_FromInAddr addr contents h = (if addr < 1 then Some (Inl NilError, h) else sa_FromInAddr addr contents h)"

definition mm_RawAlloc ::
  "os \<Rightarrow> (nat \<Rightarrow> uint32) \<Rightarrow> uintptr \<Rightarrow> 'a xSpanPool_scheme \<Rightarrow> ((goerr + Chunk) \<times> 'a xSpanPool_scheme) option" where
  "mm_RawAlloc os rnd pageNum h =
     (if pageNum < 1 then Some (Inl NilError, h)
      else do {
        (r, h) \<leftarrow> allocRawSpan os rnd pageNum h;
        (case r of
           Inl e \<Rightarrow> Some (Inl e, h)
         | Inr c \<Rightarrow> do {
             s \<leftarrow> spans h c;
             Some (Inr \<lparr>StartAddr = startAddr s, Npages = npages s\<rparr>, h)
           })
      })"

definition mm_Free ::
  "os \<Rightarrow> (nat \<Rightarrow> uint32) \<Rightarrow> int \<Rightarrow> int \<Rightarrow> uintptr \<Rightarrow> 'a xSpanPool_scheme \<Rightarrow> ((goerr + unit) \<times> 'a xSpanPool_scheme) option" where
  "mm_Free os rnd t1 t2 addr h = (if addr < 1 then Some (Inl NilError, h) else pool_Free os rnd t1 t2 addr h)"

definition mm_FreeString ::
  "os \<Rightarrow> (nat \<Rightarrow> uint32) \<Rightarrow> int \<Rightarrow> int \<Rightarrow> slice \<Rightarrow> 'a xSpanPool_scheme \<Rightarrow> ((goerr + unit) \<times> 'a xSpanPool_scheme) option" where
  "mm_FreeString os rnd t1 t2 content h = sa_FreeString os rnd t1 t2 content h"

definition mm_GetPageSize :: uintptr where
  "mm_GetPageSize = PageSize"

text \<open>A factor that is not positive is refused; a float32 here is never negative.\<close>

definition CreateMemory :: "os \<Rightarrow> float32 \<Rightarrow> 'a xSpanPool_scheme \<Rightarrow> ((goerr + unit) \<times> 'a xSpanPool_scheme) option" where
  "CreateMemory os f h =
     (if fst f = 0 then Some (Inl NilError, h)
      else do {
        (r, h) \<leftarrow> newXHeap os h;
        (case r of
           Inl e \<Rightarrow> Some (Inl e, h)
         | Inr _ \<Rightarrow> Some (Inr (), newXSpanPool f h))
      })"

end
