(* ===== verification/PageTable.thy ===== *)
theory PageTable
  imports Heap
begin

text \<open>
  heap.go, setSpans and spanOf: the two-level table from addresses to spans. The lemmas read it as
  one map from page numbers to spans; a run of pages may cross from the table of one region of
  256 MB to the next.
\<close>

subsection \<open>Page tables\<close>

text \<open>
  The page tables as one map from page numbers to spans: \<open>None\<close> where there is no table. Tables
  of different regions are different, and nil is not a table.
\<close>

definition table_of :: "'a xHeap_scheme \<Rightarrow> nat \<Rightarrow> uintptr" where
  "table_of h q = (case addrMap h of None \<Rightarrow> 0 | Some a \<Rightarrow> a (of_nat (2 ^ 19 + q div 65536)))"

definition page_span :: "'a xHeap_scheme \<Rightarrow> nat \<Rightarrow> uintptr option" where
  "page_span h q = map_option (\<lambda>r. rlm_spans r (of_nat (q mod 65536))) (rawLinear h (table_of h q))"

definition tables_ok :: "'a xHeap_scheme \<Rightarrow> bool" where
  "tables_ok h \<longleftrightarrow> rawLinear h 0 = None \<and>
     (\<forall>a. addrMap h = Some a \<longrightarrow> (\<forall>i j. a i \<noteq> 0 \<longrightarrow> a i = a j \<longrightarrow> i = j))"

lemma RawMemoryIndex_unat:
  assumes "unat p < 2 ^ 47"
  shows "unat (RawMemoryIndex p) = 2 ^ 19 + unat p div 2 ^ 28"
proof -
  have "unat (p + RawMemoryBaseOffset) = unat p + 2 ^ 47" using assms by (simp add: unat_add_noof)
  then show ?thesis by (simp add: RawMemoryIndex_def unat_div)
qed

lemma RawMemoryIndex_page:
  assumes "unat p < 2 ^ 47"
  shows "RawMemoryIndex p = of_nat (2 ^ 19 + unat p div 4096 div 65536)" and "RawMemoryIndex p < RawMemoryL2"
proof -
  have u: "unat (RawMemoryIndex p) = 2 ^ 19 + unat p div 4096 div 65536"
    using RawMemoryIndex_unat [OF assms] by (simp add: div_mult2_eq [symmetric])
  then show "RawMemoryIndex p = of_nat (2 ^ 19 + unat p div 4096 div 65536)" by (rule eq_of_nat_unat)
  have "unat p div 4096 div 65536 < 2 ^ 19" using assms by (simp add: div_mult2_eq [symmetric] less_mult_imp_div_less)
  then show "RawMemoryIndex p < RawMemoryL2" using u by (simp add: word_less_nat_alt)
qed

lemma addr_entry_page:
  assumes "unat p < 2 ^ 47" and "addrMap h \<noteq> None"
  shows "addr_entry (RawMemoryIndex p) h = Some (table_of h (unat p div 4096))"
  using assms RawMemoryIndex_page [OF assms(1)] by (auto simp: addr_entry_def idx_l2_def table_of_def)

lemma page_index:
  assumes "4096 dvd unat base" and "unat base + unat npage * 4096 \<le> 2 ^ 47" and n: "n < unat npage"
  shows "(base div PageSize + of_nat n) mod pagesPerRawMemory = of_nat ((unat base div 4096 + n) mod 65536)"
    and "unat (base + of_nat n * PageSize) < 2 ^ 47"
    and "unat (base + of_nat n * PageSize) div 4096 = unat base div 4096 + n"
proof -
  have le: "unat base + (n + 1) * 4096 \<le> 2 ^ 47" using assms(2) mult_le_mono1 [of "n + 1" "unat npage" 4096] n by simp
  then have un: "unat (of_nat n :: uintptr) = n" by (simp add: unat_of_nat)
  have "unat (base div PageSize + of_nat n) = unat base div 4096 + n"
    using le un by (subst unat_add_noof) (simp_all add: unat_div)
  then have "unat ((base div PageSize + of_nat n) mod pagesPerRawMemory) = (unat base div 4096 + n) mod 65536"
    by (simp add: unat_mod)
  then show "(base div PageSize + of_nat n) mod pagesPerRawMemory = of_nat ((unat base div 4096 + n) mod 65536)"
    by (rule eq_of_nat_unat)
  have "unat (of_nat n * PageSize) = n * 4096" using le un by (subst unat_mult_noof) simp_all
  then have u: "unat (base + of_nat n * PageSize) = unat base + n * 4096" using le by (subst unat_add_noof) simp_all
  then show "unat (base + of_nat n * PageSize) < 2 ^ 47" using le by simp
  show "unat (base + of_nat n * PageSize) div 4096 = unat base div 4096 + n" unfolding u by simp
qed

lemma page_bound:
  fixes base npage :: uintptr
  assumes "4096 dvd unat base" and "unat base + unat npage * 4096 \<le> 2 ^ 47" and n: "n < unat npage"
  shows "unat base div 4096 + n < 2 ^ 35"
  using page_index(2) [OF assms] unfolding page_index(3) [OF assms, symmetric] by (intro less_mult_imp_div_less) simp

text \<open>Writing one page.\<close>

lemma of_nat_inj64:
  assumes "of_nat i = (of_nat j :: uintptr)" and "i < 2 ^ 64" and "j < 2 ^ 64"
  shows "i = j"
proof -
  have "unat (of_nat i :: uintptr) = i" "unat (of_nat j :: uintptr) = j" using assms(2,3) by (simp_all add: unat_of_nat)
  then show ?thesis using assms(1) by metis
qed

lemma page_index_inj:
  assumes "table_of h q = table_of h q'" and "tables_ok h" and "table_of h q \<noteq> 0"
    and "q < 2 ^ 35" "q' < 2 ^ 35" and "of_nat (q mod 65536) = (of_nat (q' mod 65536) :: uintptr)"
  shows "q = q'"
proof -
  obtain a where a: "addrMap h = Some a" using assms(3) by (auto simp: table_of_def split: option.splits)
  have "of_nat (2 ^ 19 + q div 65536) = (of_nat (2 ^ 19 + q' div 65536) :: uintptr)"
    using assms(1-3) a unfolding tables_ok_def table_of_def by (simp del: of_nat_add)
  moreover have "q div 65536 < 2 ^ 19" "q' div 65536 < 2 ^ 19" using assms(4,5) by auto
  ultimately have "2 ^ 19 + q div 65536 = 2 ^ 19 + q' div 65536" by (elim of_nat_inj64) simp_all
  then have "q div 65536 = q' div 65536" by simp
  moreover have "q mod 65536 < 65536" "q' mod 65536 < 65536" by simp_all
  then have "q mod 65536 = q' mod 65536" by (intro of_nat_inj64 [OF assms(6)]) simp_all
  ultimately show ?thesis by (metis div_mult_mod_eq)
qed

lemma set_page_ok:
  assumes "tables_ok h" and "q < 2 ^ 35" and "page_span h q \<noteq> None"
  shows "\<exists>R. set_page (table_of h q) (of_nat (q mod 65536)) s h = Some (h\<lparr>rawLinear := R\<rparr>) \<and>
    tables_ok (h\<lparr>rawLinear := R\<rparr>) \<and>
    (\<forall>q' < 2 ^ 35. page_span (h\<lparr>rawLinear := R\<rparr>) q' = (if q' = q then Some s else page_span h q'))"
proof -
  obtain r where r: "rawLinear h (table_of h q) = Some r" using assms(3) by (auto simp: page_span_def)
  let ?R = "(rawLinear h)(table_of h q \<mapsto> r\<lparr>rlm_spans := (rlm_spans r)(of_nat (q mod 65536) := s)\<rparr>)"
  let ?h = "h\<lparr>rawLinear := ?R\<rparr>"
  have nz: "table_of h q \<noteq> 0" using r assms(1) by (auto simp: tables_ok_def)
  have "tables_ok ?h" using assms(1) nz by (simp add: tables_ok_def)
  moreover have t: "table_of ?h q' = table_of h q'" for q' by (simp add: table_of_def)
  have "page_span ?h q' = (if q' = q then Some s else page_span h q')" if "q' < 2 ^ 35" for q'
  proof (cases "table_of h q' = table_of h q")
    case True
    then show ?thesis using page_index_inj [OF True [symmetric] assms(1) nz assms(2) that] r
      by (auto simp: page_span_def t)
  next
    case False
    then show ?thesis by (auto simp: page_span_def t)
  qed
  moreover have "set_page (table_of h q) (of_nat (q mod 65536)) s h = Some ?h" by (simp add: set_page_def r)
  ultimately show ?thesis by blast
qed

lemma setSpansLoop_ok:
  fixes base npage :: uintptr
  assumes "4096 dvd unat base" and "unat base + unat npage * 4096 \<le> 2 ^ 47"
    and "tables_ok h" and "addrMap h \<noteq> None" and "n + k \<le> unat npage"
    and "\<forall>i < k. page_span h (unat base div 4096 + n + i) \<noteq> None"
    and "k > 0 \<longrightarrow> (unat base div 4096 + n) mod 65536 \<noteq> 0 \<longrightarrow> ha = table_of h (unat base div 4096 + n)"
  shows "\<exists>R. setSpansLoop base s k (of_nat n) ha h = Some (h\<lparr>rawLinear := R\<rparr>) \<and> tables_ok (h\<lparr>rawLinear := R\<rparr>) \<and>
    (\<forall>q < 2 ^ 35. page_span (h\<lparr>rawLinear := R\<rparr>) q =
       (if unat base div 4096 + n \<le> q \<and> q < unat base div 4096 + n + k then Some s else page_span h q))"
  using assms
proof (induction k arbitrary: n ha h)
  case 0
  then show ?case by (intro exI [of _ "rawLinear h"]) auto
next
  case (Suc k)
  let ?q = "unat base div 4096 + n"
  have n: "n < unat npage" using Suc.prems(5) by simp
  note ix = page_index [OF Suc.prems(1,2) n]
  note q = page_bound [OF Suc.prems(1,2) n]
  have entry: "addr_entry (RawMemoryIndex (base + of_nat n * PageSize)) h = Some (table_of h ?q)"
    using addr_entry_page [OF ix(2) Suc.prems(4)] unfolding ix(3) .
  have i0: "of_nat (?q mod 65536) = (0 :: uintptr) \<longleftrightarrow> ?q mod 65536 = 0"
    using of_nat_inj64 [of "?q mod 65536" 0] by (auto intro: less_trans [OF mod_less_divisor])
  have ha: "(if (of_nat (?q mod 65536) :: uintptr) = 0 then addr_entry (RawMemoryIndex (base + of_nat n * PageSize)) h else Some ha) = Some (table_of h ?q)"
    using entry Suc.prems(7) i0 by simp
  have "page_span h ?q \<noteq> None" using Suc.prems(6) by (metis add_0_right zero_less_Suc)
  from set_page_ok [OF Suc.prems(3) q this, of s] obtain R1 where R1:
    "set_page (table_of h ?q) (of_nat (?q mod 65536)) s h = Some (h\<lparr>rawLinear := R1\<rparr>)"
    "tables_ok (h\<lparr>rawLinear := R1\<rparr>)"
    "\<forall>q' < 2 ^ 35. page_span (h\<lparr>rawLinear := R1\<rparr>) q' = (if q' = ?q then Some s else page_span h q')" by blast
  let ?h = "h\<lparr>rawLinear := R1\<rparr>"
  have step: "setSpansLoop base s (Suc k) (of_nat n) ha h = setSpansLoop base s k (of_nat (n + 1)) (table_of h ?q) ?h"
    using ha R1(1) ix(1) by (simp add: Let_def add.commute)
  have same: "(unat base div 4096 + (n + 1)) mod 65536 \<noteq> 0 \<longrightarrow> table_of h ?q = table_of ?h (unat base div 4096 + (n + 1))"
    by (auto simp: table_of_def div_Suc split: option.split)
  have "unat base div 4096 + (n + 1) + i < 2 ^ 35" if "i < k" for i
    using page_bound [OF Suc.prems(1,2), of "n + 1 + i"] Suc.prems(5) that by (simp add: add.assoc)
  moreover have "page_span h (unat base div 4096 + (n + 1) + i) \<noteq> None" if "i < k" for i
    using Suc.prems(6) [rule_format, of "Suc i"] that by simp
  ultimately have cov: "\<forall>i < k. page_span ?h (unat base div 4096 + (n + 1) + i) \<noteq> None" using R1(3) by simp
  have "addrMap ?h \<noteq> None" "n + 1 + k \<le> unat npage" using Suc.prems(4,5) by simp_all
  from Suc.IH [OF Suc.prems(1,2) R1(2) this cov, of "table_of h ?q"] same obtain R where R:
    "setSpansLoop base s k (of_nat (n + 1)) (table_of h ?q) ?h = Some (?h\<lparr>rawLinear := R\<rparr>)" "tables_ok (?h\<lparr>rawLinear := R\<rparr>)"
    "\<forall>q < 2 ^ 35. page_span (?h\<lparr>rawLinear := R\<rparr>) q =
       (if unat base div 4096 + (n + 1) \<le> q \<and> q < unat base div 4096 + (n + 1) + k then Some s else page_span ?h q)" by blast
  have "?h\<lparr>rawLinear := R\<rparr> = h\<lparr>rawLinear := R\<rparr>" by simp
  then show ?case using R R1(3) step by (intro exI [of _ R]) auto
qed

lemma setSpans_ok:
  assumes "4096 dvd unat base" and "unat base + unat npage * 4096 \<le> 2 ^ 47" and "tables_ok h"
    and cov: "\<forall>i < unat npage. page_span h (unat base div 4096 + i) \<noteq> None" and "0 < npage"
  shows "\<exists>R. setSpans base npage s h = Some (h\<lparr>rawLinear := R\<rparr>) \<and> tables_ok (h\<lparr>rawLinear := R\<rparr>) \<and>
    (\<forall>q < 2 ^ 35. page_span (h\<lparr>rawLinear := R\<rparr>) q =
       (if unat base div 4096 \<le> q \<and> q < unat base div 4096 + unat npage then Some s else page_span h q))"
proof -
  have np: "0 < unat npage" using assms(5) by (simp add: word_less_nat_alt)
  have "page_span h (unat base div 4096) \<noteq> None" using cov np by (metis add_0_right)
  then have a: "addrMap h \<noteq> None" using assms(3) by (auto simp: page_span_def table_of_def tables_ok_def split: option.splits)
  have "unat base < 2 ^ 47" using assms(2) np by simp
  then have "addr_entry (RawMemoryIndex base) h = Some (table_of h (unat base div 4096))" using a by (rule addr_entry_page)
  then show ?thesis
    using setSpansLoop_ok [OF assms(1-3) a, of 0 "unat npage" "table_of h (unat base div 4096)" s] cov
    by (simp add: setSpans_def)
qed

lemma spanOf_page:
  assumes "tables_ok h" and "unat p < 2 ^ 47" and "page_span h (unat p div 4096) = Some s"
  shows "spanOf p h = Some (Inr s)"
proof -
  obtain r where r: "rawLinear h (table_of h (unat p div 4096)) = Some r" "rlm_spans r (of_nat (unat p div 4096 mod 65536)) = s"
    using assms(3) by (auto simp: page_span_def)
  have nz: "table_of h (unat p div 4096) \<noteq> 0" using r assms(1) by (auto simp: tables_ok_def)
  then have a: "addrMap h \<noteq> None" by (auto simp: table_of_def split: option.splits)
  have "unat ((p div PageSize) mod pagesPerRawMemory) = unat p div 4096 mod 65536" by (simp add: unat_div unat_mod)
  then have "(p div PageSize) mod pagesPerRawMemory = of_nat (unat p div 4096 mod 65536)" by (rule eq_of_nat_unat)
  then show ?thesis
    using addr_entry_page [OF assms(2) a] RawMemoryIndex_page(2) [OF assms(2)] r nz
    by (simp add: spanOf_def idx_l2_def Let_def not_le)
qed

lemma spanOf_cong:
  assumes "tables_ok h" and "unat p < 2 ^ 47" and "addrMap h' = addrMap h" 
    and "page_span h' (unat p div 4096) = page_span h (unat p div 4096)"
  shows "spanOf p h' = spanOf p h"
proof (cases "addrMap h")
  case None
  then show ?thesis using assms(3) RawMemoryIndex_page(2) [OF assms(2)] by (simp add: spanOf_def addr_entry_def idx_l2_def Let_def not_le)
next
  case (Some a)
  have t: "table_of h' q = table_of h q" for q using assms(3) by (simp add: table_of_def)
  have e: "addr_entry (RawMemoryIndex p) h = Some (table_of h (unat p div 4096))"
    "addr_entry (RawMemoryIndex p) h' = Some (table_of h (unat p div 4096))"
    using addr_entry_page [OF assms(2), of h] addr_entry_page [OF assms(2), of h'] Some assms(3) unfolding t by simp_all
  have "unat ((p div PageSize) mod pagesPerRawMemory) = unat p div 4096 mod 65536" by (simp add: unat_div unat_mod)
  then have i: "(p div PageSize) mod pagesPerRawMemory = of_nat (unat p div 4096 mod 65536)" by (rule eq_of_nat_unat)
  show ?thesis using assms(4) e RawMemoryIndex_page(2) [OF assms(2)]
    by (cases "rawLinear h (table_of h (unat p div 4096))"; cases "rawLinear h' (table_of h (unat p div 4096))")
      (auto simp: spanOf_def idx_l2_def Let_def not_le page_span_def t i)
qed

subsection \<open>A state for the witnesses\<close>

text \<open>The chunks of the demo treap lie in the region at 0x50000000, which has an empty table.\<close>

definition demo_heap :: xHeap where
  "demo_heap = treap_state.extend demo_treap
     \<lparr>lin = \<lparr>lin_next = 0x60000000, lin_mapped = 0x60000000, lin_end = 0x60000000\<rparr>,
      addrMap = Some ((\<lambda>_. 0)(0x80005 := 0x41000000)),
      rawLinear = [0x41000000 \<mapsto> \<lparr>rlm_spans = (\<lambda>_. 0)\<rparr>],
      allChunk = None, allChunkCap = 0,
      allChunkAllocator =
        \<lparr>xa_size = 8, xa_chunk = 0, xa_nchunk = 0x10000000, xa_freeRawMemory = None, xa_growCall = True,
         xa_inuse = 0, xa_initSize = 0x2000000\<rparr>,
      spans = Map.empty, classFree = (\<lambda>_. 0), classFull = (\<lambda>_. 0),
      totalCapacity = 0x10000000, freeCapacity = 0, sweepIndex = 0, sweepCtl = 0, sweepLastTime = 0, draws = 2\<rparr>"

lemma demo_heap_simps [simp]:
  "addrMap demo_heap = Some ((\<lambda>_. 0)(0x80005 := 0x41000000))"
  "rawLinear demo_heap = [0x41000000 \<mapsto> \<lparr>rlm_spans = (\<lambda>_. 0)\<rparr>]"
  "spans demo_heap = Map.empty" "classFree demo_heap = (\<lambda>_. 0)" "classFull demo_heap = (\<lambda>_. 0)"
  "totalCapacity demo_heap = 0x10000000" "freeCapacity demo_heap = 0" "sweepIndex demo_heap = 0" "sweepCtl demo_heap = 0"
  "sweepLastTime demo_heap = 0" "draws demo_heap = 2"
  by (simp_all add: demo_heap_def treap_state.defs)

lemma demo_heap_treap:
  "treap_state.truncate demo_heap = demo_treap" "mem demo_heap = mem demo_treap" "calls demo_heap = calls demo_treap"
  "pool_xrm demo_heap = pool_xrm demo_treap" "pool_index demo_heap = pool_index demo_treap"
  "treap_nodes demo_heap = demo_nodes" "chunks demo_heap = demo_chunks" "treap demo_heap = treap demo_treap"
  by (simp_all add: demo_heap_def treap_state.defs)

lemma demo_heap_tables: "tables_ok demo_heap"
  by (simp add: tables_ok_def)

lemma demo_heap_page: "q div 65536 = 5 \<Longrightarrow> page_span demo_heap q = Some 0"
  by (simp add: page_span_def table_of_def)

subsection \<open>Properties\<close>

text \<open>
  C15: setSpans enters a span for each page of a block, and spanOf finds it again for each address
  of the block, wherever the block crosses from one page table to the next; no other address
  changes its span.
\<close>
theorem setSpans_spanOf:
  assumes "4096 dvd unat base" and "unat base + unat npage * 4096 \<le> 2 ^ 47" and "tables_ok h"
    and "\<forall>i < unat npage. page_span h (unat base div 4096 + i) \<noteq> None" and "0 < npage"
  shows "\<exists>h'. setSpans base npage s h = Some h' \<and> tables_ok h' \<and>
    (\<forall>p. unat p < 2 ^ 47 \<longrightarrow> spanOf p h' = (if p \<in> blk base (npage * PageSize) then Some (Inr s) else spanOf p h))"
proof -
  have n: "unat (npage * PageSize) = unat npage * 4096" using assms(2) by (subst unat_mult_noof) simp_all
  from setSpans_ok [OF assms, of s] obtain R where R: "setSpans base npage s h = Some (h\<lparr>rawLinear := R\<rparr>)"
    "tables_ok (h\<lparr>rawLinear := R\<rparr>)"
    "\<forall>q < 2 ^ 35. page_span (h\<lparr>rawLinear := R\<rparr>) q =
       (if unat base div 4096 \<le> q \<and> q < unat base div 4096 + unat npage then Some s else page_span h q)" by blast
  have "spanOf p (h\<lparr>rawLinear := R\<rparr>) = (if p \<in> blk base (npage * PageSize) then Some (Inr s) else spanOf p h)"
    if p: "unat p < 2 ^ 47" for p
  proof -
    obtain b where b: "unat base = 4096 * b" using assms(1) by blast
    have iff: "p \<in> blk base (npage * PageSize) \<longleftrightarrow>
      unat base div 4096 \<le> unat p div 4096 \<and> unat p div 4096 < unat base div 4096 + unat npage"
      unfolding mem_blk n b by (auto simp: div_less_iff_less_mult less_eq_div_iff_mult_less_eq)
    have "unat p div 4096 < 2 ^ 35" using p by (intro less_mult_imp_div_less) simp
    then have pg: "page_span (h\<lparr>rawLinear := R\<rparr>) (unat p div 4096) =
      (if p \<in> blk base (npage * PageSize) then Some s else page_span h (unat p div 4096))" using R(3) iff by simp
    show ?thesis
    proof (cases "p \<in> blk base (npage * PageSize)")
      case True
      then show ?thesis using spanOf_page [OF R(2) p, of s] pg by (simp del: mem_blk)
    next
      case False
      then show ?thesis using spanOf_cong [OF assms(3) p, of "h\<lparr>rawLinear := R\<rparr>"] pg by (simp del: mem_blk)
    qed
  qed
  then show ?thesis using R(1,2) by blast
qed

theorem setSpans_spanOf_witness:
  "\<exists>h'. setSpans 0x50010000 9 0x40000200 demo_heap = Some h' \<and>
     spanOf 0x50018FFF h' = Some (Inr 0x40000200) \<and> spanOf 0x50019000 h' = Some (Inr 0)"
proof -
  have "\<forall>i < unat (9 :: uintptr). page_span demo_heap (unat (0x50010000 :: uintptr) div 4096 + i) \<noteq> None"
    by (auto simp: demo_heap_page)
  from setSpans_spanOf [OF _ _ demo_heap_tables this, of "0x40000200"]
  obtain h' where h': "setSpans 0x50010000 9 0x40000200 demo_heap = Some h'"
    "\<forall>p. unat p < 2 ^ 47 \<longrightarrow> spanOf p h' =
       (if p \<in> blk 0x50010000 (9 * PageSize) then Some (Inr 0x40000200) else spanOf p demo_heap)" by auto
  have "spanOf 0x50019000 demo_heap = Some (Inr 0)"
    using spanOf_page [OF demo_heap_tables, of "0x50019000" 0] by (simp add: demo_heap_page)
  then show ?thesis using h'(1) h'(2) [rule_format, of "0x50018FFF"] h'(2) [rule_format, of "0x50019000"] by simp
qed

end
