(* ===== verification/Chunks.thy ===== *)
theory Chunks
  imports PageTable
begin

text \<open>
  heap.go, freeChunk and what it calls once the treap has a fit: the chunks of free pages. The
  invariant says that the chunks the treap holds are whole pages and apart from each other; carving
  keeps it, so the heap is a layer that hands out fresh blocks, like the metadata pool and the
  linear address space.
\<close>

subsection \<open>Cutting chunks\<close>

lemma pool_used_cong: "pool_xrm t = pool_xrm s \<Longrightarrow> pool_index t = pool_index s \<Longrightarrow> pool_used t = pool_used s"
  by (simp add: pool_used_def split: list.split)

lemma pool_inv_cong:
  "pool_xrm t = pool_xrm s \<Longrightarrow> pool_index t = pool_index s \<Longrightarrow> mem t = mem s \<Longrightarrow> calls t = calls s \<Longrightarrow> pool_inv os t = pool_inv os s"
  by (simp add: pool_inv_def)

lemma pool_clean_cong:
  "pool_xrm t = pool_xrm s \<Longrightarrow> pool_index t = pool_index s \<Longrightarrow> mem t = mem s \<Longrightarrow> pool_clean t = pool_clean s"
  using pool_used_cong [of t s] by (simp add: pool_clean_def)

text \<open>Two states with the same metadata pool and memory.\<close>

definition same_pool :: "'a raw_pool_scheme \<Rightarrow> 'b raw_pool_scheme \<Rightarrow> bool" where
  "same_pool s t \<longleftrightarrow> pool_xrm t = pool_xrm s \<and> pool_index t = pool_index s \<and> mem t = mem s \<and> calls t = calls s"

lemma same_pool_cong:
  assumes "same_pool s t"
  shows "pool_inv os t = pool_inv os s" "pool_used t = pool_used s" "pool_clean t = pool_clean s" "mem t = mem s"
  using assms unfolding same_pool_def pool_inv_def pool_clean_def pool_used_def by (simp_all split: list.split)

lemma pool_moves_cong:
  assumes "same_pool s t" and "same_pool p q"
  shows "pool_moves os A q t = pool_moves os A p s"
  using same_pool_cong [OF assms(1)] same_pool_cong [OF assms(2)] by (simp add: pool_moves_def)

text \<open>The addresses of a chunk; chunks of whole pages that do not overlap.\<close>

definition chunk_bytes :: "chunk_store \<Rightarrow> uintptr \<Rightarrow> uintptr set" where
  "chunk_bytes C c = (case C c of None \<Rightarrow> {} | Some ch \<Rightarrow> blk (chunk_start ch) (chunk_npages ch * PageSize))"

definition chunk_fits :: "xChunk \<Rightarrow> bool" where
  "chunk_fits ch \<longleftrightarrow> 0 < chunk_npages ch \<and> 4096 dvd unat (chunk_start ch) \<and>
     unat (chunk_start ch) + unat (chunk_npages ch) * 4096 \<le> 2 ^ 47"

definition chunks_apart :: "chunk_store \<Rightarrow> uintptr set \<Rightarrow> bool" where
  "chunks_apart C S \<longleftrightarrow> (\<forall>c \<in> S. \<exists>ch. C c = Some ch \<and> chunk_fits ch) \<and>
     (\<forall>c \<in> S. \<forall>d \<in> S. c \<noteq> d \<longrightarrow> chunk_bytes C c \<inter> chunk_bytes C d = {})"

definition free_bytes :: "chunk_store \<Rightarrow> uintptr list \<Rightarrow> uintptr set" where
  "free_bytes C cs = (\<Union>c \<in> set cs. chunk_bytes C c)"

lemma chunk_fits_bytes:
  assumes "chunk_fits ch"
  shows "unat (chunk_npages ch * PageSize) = unat (chunk_npages ch) * 4096"
  using assms unfolding chunk_fits_def by (intro unat_mult_noof [THEN trans]) simp_all

lemma chunk_split:
  assumes "chunk_fits ch" and "np < chunk_npages ch"
  defines "rest \<equiv> \<lparr>chunk_start = chunk_start ch + np * PageSize, chunk_npages = chunk_npages ch - np\<rparr>"
  shows "chunk_fits rest" and "unat (np * PageSize) = unat np * 4096"
    and "blk (chunk_start rest) (chunk_npages rest * PageSize) =
      blk (chunk_start ch) (chunk_npages ch * PageSize) - blk (chunk_start ch) (np * PageSize)"
    and "blk (chunk_start ch) (np * PageSize) \<subseteq> blk (chunk_start ch) (chunk_npages ch * PageSize)"
proof -
  have lt: "unat np < unat (chunk_npages ch)" using assms(2) by (simp add: word_less_nat_alt)
  have b: "unat (chunk_start ch) + unat (chunk_npages ch) * 4096 \<le> 2 ^ 47" using assms(1) by (simp add: chunk_fits_def)
  have m: "unat (np * PageSize) = unat np * 4096" using b lt by (subst unat_mult_noof) simp_all
  then show "unat (np * PageSize) = unat np * 4096" .
  have s: "unat (chunk_start rest) = unat (chunk_start ch) + unat np * 4096"
    using b lt m unfolding rest_def by (simp add: unat_add_noof)
  have n: "unat (chunk_npages rest) = unat (chunk_npages ch) - unat np"
    using lt unfolding rest_def by (simp add: unat_sub_noof)
  have d: "4096 dvd unat (chunk_start rest)" using assms(1) unfolding s by (simp add: chunk_fits_def)
  show f: "chunk_fits rest" using s n d b lt unfolding chunk_fits_def by (simp add: word_less_nat_alt diff_mult_distrib)
  show "blk (chunk_start rest) (chunk_npages rest * PageSize) =
      blk (chunk_start ch) (chunk_npages ch * PageSize) - blk (chunk_start ch) (np * PageSize)"
    using s n m lt chunk_fits_bytes [OF f] chunk_fits_bytes [OF assms(1)] by (auto simp: diff_mult_distrib)
  show "blk (chunk_start ch) (np * PageSize) \<subseteq> blk (chunk_start ch) (chunk_npages ch * PageSize)"
    using m lt chunk_fits_bytes [OF assms(1)] by (intro blk_subset) simp_all
qed

lemma chunk_start_in: "chunk_fits ch \<Longrightarrow> C c = Some ch \<Longrightarrow> chunk_start ch \<in> chunk_bytes C c"
proof -
  assume f: "chunk_fits ch" and c: "C c = Some ch"
  have "0 < chunk_npages ch * PageSize" using chunk_fits_bytes [OF f] f by (simp add: chunk_fits_def word_less_nat_alt)
  then show ?thesis using c blk_start by (simp add: chunk_bytes_def del: mem_blk)
qed

text \<open>The heap between two operations: chunks \<open>cs\<close> are free, in key order.\<close>

definition heap_rep :: "os \<Rightarrow> 'a xHeap_scheme \<Rightarrow> uintptr list \<Rightarrow> bool" where
  "heap_rep os h cs \<longleftrightarrow> pool_inv os h \<and> treap_rep h cs \<and> chunks_apart (chunks h) (set cs)"

text \<open>What the page and span side of the heap keeps while chunks move.\<close>

definition same_pages :: "'a xHeap_scheme \<Rightarrow> 'a xHeap_scheme \<Rightarrow> bool" where
  "same_pages h h' \<longleftrightarrow> addrMap h' = addrMap h \<and> rawLinear h' = rawLinear h \<and> spans h' = spans h \<and>
     classFree h' = classFree h \<and> classFull h' = classFull h \<and> lin h' = lin h \<and>
     totalCapacity h' = totalCapacity h \<and> freeCapacity h' = freeCapacity h \<and> xHeap.more h' = xHeap.more h"

lemma treap_more_pages: "treap_state.more h' = treap_state.more h \<Longrightarrow> same_pages (h :: 'a xHeap_scheme) h'"
  unfolding same_pages_def by (cases h; cases h') simp

lemma same_pages_trans: "same_pages h h1 \<Longrightarrow> same_pages h1 h2 \<Longrightarrow> same_pages h h2"
  by (simp add: same_pages_def)

lemma same_pages_upd:
  "same_pages h (h1\<lparr>treap_nodes := N, treap := rt\<rparr>) = same_pages h h1"
  "same_pages h (h1\<lparr>chunks := C\<rparr>) = same_pages h h1"
  "same_pages h (h1\<lparr>draws := n\<rparr>) = same_pages h h1"
  "same_pages (h\<lparr>draws := n\<rparr>) h1 = same_pages h h1"
  "same_pages (h\<lparr>chunks := C\<rparr>) h1 = same_pages h h1"
  "same_pages (h\<lparr>treap_nodes := N, treap := rt\<rparr>) h1 = same_pages h h1"
  by (simp_all add: same_pages_def)

lemma chunks_apart_subset: "chunks_apart C S \<Longrightarrow> S' \<subseteq> S \<Longrightarrow> chunks_apart C S'"
  unfolding chunks_apart_def by blast

text \<open>Shrinking a chunk at its end leaves all chunks apart, and gives back nothing else.\<close>

lemma chunks_apart_shrink:
  assumes "chunks_apart C S" and "c \<in> S" and "C c = Some ch" and "np < chunk_npages ch"
  defines "C' \<equiv> C(c \<mapsto> \<lparr>chunk_start = chunk_start ch + np * PageSize, chunk_npages = chunk_npages ch - np\<rparr>)"
  shows "chunks_apart C' S" and "chunk_bytes C' c = chunk_bytes C c - blk (chunk_start ch) (np * PageSize)"
    and "\<And>d. d \<in> S \<Longrightarrow> d \<noteq> c \<Longrightarrow> chunk_key C' d \<noteq> chunk_key C' c"
proof -
  have f: "chunk_fits ch" using assms(1-3) by (auto simp: chunks_apart_def)
  note sp = chunk_split [OF f assms(4)]
  show cb: "chunk_bytes C' c = chunk_bytes C c - blk (chunk_start ch) (np * PageSize)"
    using sp(3) assms(3) by (simp add: chunk_bytes_def C'_def)
  have other: "chunk_bytes C' d = chunk_bytes C d" if "d \<noteq> c" for d using that by (simp add: chunk_bytes_def C'_def)
  have fit: "\<exists>ch. C' d = Some ch \<and> chunk_fits ch" if "d \<in> S" for d
    using assms(1) that sp(1) by (cases "d = c") (auto simp: chunks_apart_def C'_def)
  have "chunk_bytes C' d \<subseteq> chunk_bytes C d" for d using cb other by (cases "d = c") auto
  then have "chunk_bytes C' d \<inter> chunk_bytes C' e = {}" if "d \<in> S" "e \<in> S" "d \<noteq> e" for d e
    using assms(1) that unfolding chunks_apart_def by blast
  then show ap: "chunks_apart C' S" using fit unfolding chunks_apart_def by blast
  fix d assume d: "d \<in> S" "d \<noteq> c"
  obtain cd cc where "C' d = Some cd" "chunk_fits cd" "C' c = Some cc" "chunk_fits cc" using fit d(1) assms(2) by blast
  moreover have "chunk_bytes C' d \<inter> chunk_bytes C' c = {}" using ap d assms(2) unfolding chunks_apart_def by blast
  ultimately have "chunk_start cd \<noteq> chunk_start cc" using chunk_start_in [of cd C' d] chunk_start_in [of cc C' c] by auto
  then show "chunk_key C' d \<noteq> chunk_key C' c"
    using \<open>C' d = Some cd\<close> \<open>C' c = Some cc\<close> by (simp add: chunk_key_def)
qed

lemma free_bytes_remove:
  assumes "chunks_apart C (set cs)" and "distinct cs" and "c \<in> set cs"
  shows "free_bytes C cs = free_bytes C (remove1 c cs) \<union> chunk_bytes C c"
    and "free_bytes C (remove1 c cs) \<inter> chunk_bytes C c = {}"
proof -
  have s: "set (remove1 c cs) = set cs - {c}" using assms(2) by simp
  show "free_bytes C cs = free_bytes C (remove1 c cs) \<union> chunk_bytes C c"
    using assms(3) unfolding free_bytes_def s by blast
  have "chunk_bytes C d \<inter> chunk_bytes C c = {}" if "d \<in> set cs - {c}" for d
    using assms(1,3) that unfolding chunks_apart_def by blast
  then show "free_bytes C (remove1 c cs) \<inter> chunk_bytes C c = {}" unfolding free_bytes_def s by blast
qed

text \<open>A chunk from which \<open>k\<close> runs of at most ten pages each can be cut; one cut uses up one of them.\<close>

definition chunk_room :: "chunk_store \<Rightarrow> uintptr list \<Rightarrow> nat \<Rightarrow> bool" where
  "chunk_room C cs k \<longleftrightarrow> k = 0 \<or> (\<exists>c \<in> set cs. \<exists>ch. C c = Some ch \<and> 10 * k \<le> unat (chunk_npages ch))"

definition room_kept :: "uintptr \<Rightarrow> chunk_store \<Rightarrow> uintptr list \<Rightarrow> chunk_store \<Rightarrow> uintptr list \<Rightarrow> bool" where
  "room_kept np C cs C' cs' \<longleftrightarrow> (\<forall>k. unat np \<le> 10 \<longrightarrow> chunk_room C cs k \<longrightarrow> chunk_room C' cs' (k - 1))"

lemma room_kept_remove:
  assumes "C c = Some ch" and "chunk_npages ch = np"
  shows "room_kept np C cs C (remove1 c cs)"
  unfolding room_kept_def
proof (intro allI impI)
  fix k assume np: "unat np \<le> 10" and r: "chunk_room C cs k"
  show "chunk_room C (remove1 c cs) (k - 1)"
  proof (cases "k \<le> 1")
    case False
    then obtain d dh where d: "d \<in> set cs" "C d = Some dh" "10 * k \<le> unat (chunk_npages dh)" using r by (auto simp: chunk_room_def)
    then have "d \<noteq> c" using assms np False by auto
    then have "d \<in> set (remove1 c cs)" using d(1) by simp
    moreover have "10 * (k - 1) \<le> unat (chunk_npages dh)" using d(3) by simp
    ultimately show ?thesis using d(2) unfolding chunk_room_def by blast
  qed (simp add: chunk_room_def)
qed

lemma room_kept_cut:
  assumes "C c = Some ch" and "np < chunk_npages ch" and "set cs' = set cs"
  shows "room_kept np C cs (C(c \<mapsto> \<lparr>chunk_start = st, chunk_npages = chunk_npages ch - np\<rparr>)) cs'"
  unfolding room_kept_def
proof (intro allI impI)
  fix k assume np: "unat np \<le> 10" and r: "chunk_room C cs k"
  show "chunk_room (C(c \<mapsto> \<lparr>chunk_start = st, chunk_npages = chunk_npages ch - np\<rparr>)) cs' (k - 1)"
  proof (cases "k = 0")
    case False
    then obtain d dh where d: "d \<in> set cs" "C d = Some dh" "10 * k \<le> unat (chunk_npages dh)" using r by (auto simp: chunk_room_def)
    have "unat (chunk_npages ch - np) = unat (chunk_npages ch) - unat np" using assms(2) by (intro unat_sub_noof) (simp add: word_less_nat_alt)
    then have "10 * (k - 1) \<le> unat (chunk_npages ch - np)" if "d = c" using d that assms(1) np by auto
    moreover have "10 * (k - 1) \<le> unat (chunk_npages dh)" using d(3) by simp
    ultimately show ?thesis using d(1,2) assms(3) by (cases "d = c") (auto simp: chunk_room_def)
  qed (simp add: chunk_room_def)
qed

text \<open>\<open>carve\<close> hands out the first pages of the chunk of a node.\<close>

lemma carve_ok:
  assumes rep: "heap_rep os h cs" and T: "treap_ok h T" "cs = map (chunk_of (treap_nodes h)) (inorder T)"
    and t: "t \<in> set_tree T" and c: "chunk_of (treap_nodes h) t = c" "chunks h c = Some ch"
    and np: "0 < np" "np \<le> chunk_npages ch"
  shows "\<exists>r h'. carve os rnd np t h = Some (r, h') \<and>
    (\<forall>got. r = Inr got \<longrightarrow> got = \<lparr>chunk_start = chunk_start ch, chunk_npages = np\<rparr> \<and>
       (\<exists>cs'. heap_rep os h' cs' \<and> free_bytes (chunks h') cs' = free_bytes (chunks h) cs - blk (chunk_start ch) (np * PageSize) \<and>
          room_kept np (chunks h) cs (chunks h') cs') \<and>
       blk (chunk_start ch) (np * PageSize) \<subseteq> free_bytes (chunks h) cs \<and> same_pages h h' \<and> pool_used h \<subseteq> pool_used h' \<and>
       (pool_clean h \<longrightarrow> (\<forall>A. os_apart os A \<longrightarrow> pool_moves os A h h'))) \<and> within_meta 1 h r h'"
proof -
  have inv: "pool_inv os h" "treap_rep h cs" and ap: "chunks_apart (chunks h) (set cs)" using rep by (auto simp: heap_rep_def)
  obtain n where n: "treap_nodes h t = Some n" "node_chunk n = c" "c \<noteq> 0" "npagesKey n = chunk_npages ch"
    using T(1) t c by (auto simp: treap_ok_def node_ok_def chunk_of_def)
  have cin: "c \<in> set cs" using t c(1) T(2) by auto
  have f: "chunk_fits ch" using ap cin c(2) by (auto simp: chunks_apart_def)
  have dist: "distinct cs" by (rule treap_rep_sorted(3) [OF inv(2)])
  let ?cs = "remove1 c cs" and ?B = "blk (chunk_start ch) (np * PageSize)"
  have set1: "set ?cs = set cs - {c}" using dist by simp
  from removeNode_rep [OF T t] c(1) obtain N rt where R: "removeNode t h = Some (Inr (), h\<lparr>treap_nodes := N, treap := rt\<rparr>)"
    "treap_rep (h\<lparr>treap_nodes := N, treap := rt\<rparr>) ?cs" by blast
  let ?h = "h\<lparr>treap_nodes := N, treap := rt\<rparr>"
  note free_split = free_bytes_remove [OF ap dist cin]
  show ?thesis
  proof (cases "chunk_npages ch = np")
    case True
    have B: "?B = chunk_bytes (chunks h) c" using True c(2) by (simp add: chunk_bytes_def)
    have "carve os rnd np t h = Some (Inr \<lparr>chunk_start = chunk_start ch, chunk_npages = np\<rparr>, ?h)"
      using n c R(1) True by (simp add: carve_def Let_def)
    moreover have "heap_rep os ?h ?cs"
      using inv(1) R(2) chunks_apart_subset [OF ap, of "set ?cs"] set1 by (auto simp: heap_rep_def)
    moreover have "free_bytes (chunks h) ?cs = free_bytes (chunks h) cs - ?B" "?B \<subseteq> free_bytes (chunks h) cs"
      using free_split unfolding B by blast+
    moreover have "pool_moves os A h ?h = pool_moves os A h h" for A by (rule pool_moves_cong) (simp_all add: same_pool_def)
    moreover have "room_kept np (chunks h) cs (chunks ?h) ?cs" using room_kept_remove [of "chunks h" c ch np cs] c(2) True by simp
    moreover have "meta_room (1 + n) h \<Longrightarrow> meta_room n ?h" for n using meta_room_mono [of "1 + n" h n] by (simp add: meta_room_def)
    ultimately show ?thesis using pool_moves_refl [OF inv(1)] by (auto simp: same_pages_def within_meta_def)
  next
    case False
    then have lt: "np < chunk_npages ch" using np(2) by simp
    let ?rest = "\<lparr>chunk_start = chunk_start ch + np * PageSize, chunk_npages = chunk_npages ch - np\<rparr>"
    let ?C = "(chunks h)(c \<mapsto> ?rest)"
    let ?g = "?h\<lparr>chunks := ?C, draws := draws h + 1\<rparr>"
    note shr = chunks_apart_shrink [OF ap cin c(2) lt]
    have ug: "pool_used ?g = pool_used h" by (rule pool_used_cong) simp_all
    have "\<forall>d \<in> set ?cs. chunks ?g d = chunks ?h d" using set1 by simp
    moreover have "pool_used ?h \<subseteq> pool_used ?g" unfolding ug by simp
    ultimately have rg: "treap_rep ?g ?cs" by (intro treap_rep_cong [OF R(2)]) simp_all
    have "pool_inv os ?g = pool_inv os h" by (rule pool_inv_cong) simp_all
    then have ig: "pool_inv os ?g" using inv(1) by simp
    have cg: "chunks ?g c = Some ?rest" by simp
    have new: "\<forall>d \<in> set ?cs. chunk_key (chunks ?g) d \<noteq> chunk_key (chunks ?g) c" using shr(3) set1 by auto
    have st: "carve os rnd np t h = Option.bind (treap_insert os (rnd (draws h)) c ?g) (\<lambda>(r, h).
        case r of Inl e \<Rightarrow> Some (Inl e, h) | Inr _ \<Rightarrow> Some (Inr \<lparr>chunk_start = chunk_start ch, chunk_npages = np\<rparr>, h))"
      using n c R(1) False np(2) by (simp add: carve_def Let_def heap_insert_def leD)
    from rg ig cg n(3) new show ?thesis
    proof (cases rule: treap_insert_rep [where rnd = "rnd (draws h)"])
      case (error e s1)
      have "within_meta 1 ?g (Inl e :: goerr + uintptr) s1" using pool_alloc_within [OF ig _ error(2)] by simp
      then have "within_meta 1 h (Inl e :: goerr + xChunk) s1" by (rule within_meta_same) simp_all
      then show ?thesis using st error by simp
    next
      case (ok t s1 N' rt')
      let ?h' = "s1\<lparr>treap_nodes := N', treap := rt'\<rparr>"
      let ?cs' = "key_insort (chunk_key (chunks ?g)) c ?cs"
      note more = raw_more_treap [OF pool_alloc_more [OF ok(1)]] and sound = pool_alloc_sound [OF ig ok(1)]
      have set': "set ?cs' = set cs" using set1 cin by auto
      have "heap_rep os ?h' ?cs'"
        unfolding heap_rep_def set' using ok(3) sound(1) shr(1) more by simp
      moreover have "free_bytes ?C ?cs' = free_bytes (chunks h) cs - ?B"
      proof -
        have "free_bytes ?C ?cs' = free_bytes ?C ?cs \<union> chunk_bytes ?C c" by (auto simp: free_bytes_def)
        also have "free_bytes ?C ?cs = free_bytes (chunks h) ?cs" using set1 by (auto simp: free_bytes_def chunk_bytes_def)
        also have "free_bytes (chunks h) ?cs \<union> chunk_bytes ?C c = free_bytes (chunks h) cs - ?B"
          using free_split shr(2) chunk_split(4) [OF f lt] c(2) by (auto simp: chunk_bytes_def simp del: mem_blk)
        finally show ?thesis .
      qed
      moreover have "?B \<subseteq> free_bytes (chunks h) cs"
        using chunk_split(4) [OF f lt] c(2) free_split(1) by (auto simp: chunk_bytes_def simp del: mem_blk)
      moreover have "same_pages h ?h'"
        using treap_more_pages [of s1 ?g] more by (simp add: same_pages_def)
      moreover have "pool_used h \<subseteq> pool_used ?h'" using sound(3) unfolding ug by simp
      moreover have "pool_moves os A h ?h'" if "pool_clean h" "os_apart os A" for A
      proof -
        have "pool_moves os A h ?h' = pool_moves os A ?g s1" "pool_clean ?g = pool_clean h"
          by (rule pool_moves_cong pool_clean_cong; simp add: same_pool_def)+
        then show ?thesis using pool_alloc_moves [OF ig _ that(2) ok(1)] that(1) by simp
      qed
      moreover have "room_kept np (chunks h) cs (chunks ?h') ?cs'" using room_kept_cut [of "chunks h" c ch, OF c(2) lt set'] more by simp
      moreover have "within_meta 1 ?g (Inr t :: goerr + uintptr) s1" using pool_alloc_within [OF ig _ ok(1)] by simp
      then have "within_meta 1 h (Inr \<lparr>chunk_start = chunk_start ch, chunk_npages = np\<rparr> :: goerr + xChunk) ?h'"
        by (rule within_meta_same) simp_all
      ultimately show ?thesis using st ok(2) more
        by (intro exI [of _ "Inr \<lparr>chunk_start = chunk_start ch, chunk_npages = np\<rparr>"] exI [of _ ?h']) auto
    qed
  qed
qed

text \<open>
  Between two growths: serve a request from the chunks there are, as \<open>freeChunk\<close> does when \<open>find\<close>
  finds one.
\<close>

definition heap_cut ::
  "os \<Rightarrow> (nat \<Rightarrow> uint32) \<Rightarrow> uintptr \<Rightarrow> 'a xHeap_scheme \<Rightarrow> ((goerr + uintptr \<times> uintptr) \<times> 'a xHeap_scheme) option" where
  "heap_cut os rnd np h =
     (if treap_find np h = Some (Inl EmptyError) then Some (Inl EmptyError, h)
      else map_option (\<lambda>(r, h). (map_sum id (\<lambda>ch. (chunk_start ch, chunk_npages ch * PageSize)) r, h)) (freeChunk os rnd np h))"

definition heap_inv :: "os \<Rightarrow> 'a xHeap_scheme \<Rightarrow> bool" where
  "heap_inv os h \<longleftrightarrow> (\<exists>cs. heap_rep os h cs)"

text \<open>What is not free.\<close>

definition heap_used :: "'a xHeap_scheme \<Rightarrow> uintptr set" where
  "heap_used h = {x. \<forall>cs. treap_rep h cs \<longrightarrow> x \<notin> free_bytes (chunks h) cs}"

lemma tree_at_unique: "tree_at N q a t \<Longrightarrow> tree_at N q' a t' \<Longrightarrow> t = t'"
proof (induction t arbitrary: q q' a t')
  case Leaf
  then show ?case by (cases t') auto
next
  case (Node l x r)
  then show ?case by (cases t') (auto split: option.splits)
qed

lemma treap_rep_unique: "treap_rep h cs \<Longrightarrow> treap_rep h cs' \<Longrightarrow> cs = cs'"
  unfolding treap_rep_def treap_ok_def linked_tree_def using tree_at_unique by (metis snd_conv)

lemma heap_used_rep: "treap_rep h cs \<Longrightarrow> heap_used h = - free_bytes (chunks h) cs"
  using treap_rep_unique by (auto simp: heap_used_def)

lemma treap_find_none: "treap_rep h cs \<Longrightarrow> best_fit (chunks h) np cs = None \<Longrightarrow> treap_find np h = Some (Inl EmptyError)"
  using treap_find_rep [of h cs np] by auto

lemma freeChunk_fit:
  assumes rep: "heap_rep os h cs" and fit: "best_fit (chunks h) np cs = Some c" and np: "0 < np"
  shows "\<exists>r h' ch. freeChunk os rnd np h = Some (r, h') \<and> chunks h c = Some ch \<and>
    (\<forall>got. r = Inr got \<longrightarrow> got = \<lparr>chunk_start = chunk_start ch, chunk_npages = np\<rparr> \<and>
       (\<exists>cs'. heap_rep os h' cs' \<and> free_bytes (chunks h') cs' = free_bytes (chunks h) cs - blk (chunk_start ch) (np * PageSize) \<and>
          room_kept np (chunks h) cs (chunks h') cs') \<and>
       blk (chunk_start ch) (np * PageSize) \<subseteq> free_bytes (chunks h) cs \<and> same_pages h h' \<and> pool_used h \<subseteq> pool_used h' \<and>
       (pool_clean h \<longrightarrow> (\<forall>A. os_apart os A \<longrightarrow> pool_moves os A h h'))) \<and> within_meta 1 h r h'"
proof -
  have inv: "treap_rep h cs" and ap: "chunks_apart (chunks h) (set cs)" using rep by (auto simp: heap_rep_def)
  from treap_find_rep [OF inv, of np] fit obtain T t where T: "treap_ok h T" "cs = map (chunk_of (treap_nodes h)) (inorder T)"
    and t: "t \<in> set_tree T" "chunk_of (treap_nodes h) t = c" "treap_find np h = Some (Inr t)" by auto
  have c: "c \<in> set cs" "np \<le> fst (chunk_key (chunks h) c)" using fit by (auto simp: best_fit_def find_Some_iff)
  obtain ch where ch: "chunks h c = Some ch" using ap c(1) by (auto simp: chunks_apart_def)
  then have "np \<le> chunk_npages ch" using c(2) by (simp add: chunk_key_def)
  from carve_ok [OF rep T t(1,2) ch np this, of rnd] t(3) ch show ?thesis
    by (simp add: freeChunk_def findOrGrow_def)
qed

interpretation cut: fresh_blocks "\<lambda>np. 0 < np" "heap_cut os rnd" "heap_inv os" heap_used for os rnd
proof
  fix np :: uintptr and h :: "'a xHeap_scheme"
  assume np: "0 < np" and "heap_inv os h"
  then obtain cs where rep: "heap_rep os h cs" by (auto simp: heap_inv_def)
  then have tr: "treap_rep h cs" by (simp add: heap_rep_def)
  show "heap_cut os rnd np h \<noteq> None"
  proof (cases "best_fit (chunks h) np cs")
    case None
    then show ?thesis using treap_find_none [OF tr] by (simp add: heap_cut_def)
  next
    case (Some c)
    from freeChunk_fit [OF rep this np, of rnd] show ?thesis by (auto simp: heap_cut_def)
  qed
next
  fix np :: uintptr and h h' :: "'a xHeap_scheme" and b
  assume np: "0 < np" and "heap_inv os h" and st: "heap_cut os rnd np h = Some (Inr b, h')"
  then obtain cs where rep: "heap_rep os h cs" by (auto simp: heap_inv_def)
  then have tr: "treap_rep h cs" by (simp add: heap_rep_def)
  have "best_fit (chunks h) np cs \<noteq> None"
  proof
    assume "best_fit (chunks h) np cs = None"
    from treap_find_none [OF tr this] show False using st by (simp add: heap_cut_def)
  qed
  then obtain c where fit: "best_fit (chunks h) np cs = Some c" by blast
  from freeChunk_fit [OF rep this np, of rnd] obtain r g ch where F: "freeChunk os rnd np h = Some (r, g)" "chunks h c = Some ch"
    and got: "\<forall>got. r = Inr got \<longrightarrow> got = \<lparr>chunk_start = chunk_start ch, chunk_npages = np\<rparr> \<and>
       (\<exists>cs'. heap_rep os g cs' \<and> free_bytes (chunks g) cs' = free_bytes (chunks h) cs - blk (chunk_start ch) (np * PageSize) \<and>
          room_kept np (chunks h) cs (chunks g) cs') \<and>
       blk (chunk_start ch) (np * PageSize) \<subseteq> free_bytes (chunks h) cs \<and> same_pages h g \<and> pool_used h \<subseteq> pool_used g \<and>
       (pool_clean h \<longrightarrow> (\<forall>A. os_apart os A \<longrightarrow> pool_moves os A h g))" by blast
  have b: "r = Inr \<lparr>chunk_start = chunk_start ch, chunk_npages = np\<rparr>" "b = (chunk_start ch, np * PageSize)" "g = h'"
    using st F(1) got by (cases r; auto simp: heap_cut_def split: if_splits)+
  obtain cs' where rep': "heap_rep os h' cs'" "free_bytes (chunks h') cs' = free_bytes (chunks h) cs - blk (chunk_start ch) (np * PageSize)"
    and sub: "blk (chunk_start ch) (np * PageSize) \<subseteq> free_bytes (chunks h) cs"
    using got [rule_format, OF b(1)] unfolding b(3) by (elim conjE exE) (rule that; assumption)
  have tr': "treap_rep h' cs'" using rep'(1) by (simp add: heap_rep_def)
  show "heap_inv os h'" using rep'(1) by (auto simp: heap_inv_def)
  show "blk (fst b) (snd b) \<inter> heap_used h = {}" using sub unfolding b heap_used_rep [OF tr] by auto
  show "heap_used h \<union> blk (fst b) (snd b) \<subseteq> heap_used h'"
    using rep'(2) unfolding b heap_used_rep [OF tr] heap_used_rep [OF tr'] by auto
qed

subsection \<open>Pages of a span\<close>

text \<open>The heap with its page tables: every free page has a table.\<close>

definition pages_ok :: "os \<Rightarrow> 'a xHeap_scheme \<Rightarrow> uintptr list \<Rightarrow> bool" where
  "pages_ok os h cs \<longleftrightarrow> heap_rep os h cs \<and> tables_ok h \<and>
     (\<forall>x \<in> free_bytes (chunks h) cs. page_span h (unat x div 4096) \<noteq> None)"

lemma same_pages_tables:
  assumes "same_pages h h'"
  shows "tables_ok h' = tables_ok h" "page_span h' q = page_span h q" "table_of h' q = table_of h q"
  using assms by (simp_all add: same_pages_def tables_ok_def page_span_def table_of_def)

lemma same_pages_spanOf:
  assumes "same_pages h h'"
  shows "spanOf p h' = spanOf p h"
proof -
  have eq: "addrMap h' = addrMap h" "rawLinear h' = rawLinear h" using assms by (simp_all add: same_pages_def)
  show ?thesis unfolding spanOf_def addr_entry_def eq ..
qed

lemma heap_rep_tables: "heap_rep os h cs \<Longrightarrow> heap_rep os (h\<lparr>rawLinear := R\<rparr>) cs"
proof -
  have "pool_used (h\<lparr>rawLinear := R\<rparr>) = pool_used h" "pool_inv os (h\<lparr>rawLinear := R\<rparr>) = pool_inv os h"
    by (rule pool_used_cong pool_inv_cong; simp)+
  then show "heap_rep os h cs \<Longrightarrow> heap_rep os (h\<lparr>rawLinear := R\<rparr>) cs"
    unfolding heap_rep_def by (auto intro: treap_rep_cong)
qed

lemma page_in_blk:
  assumes "4096 dvd unat base" and "unat base + unat npage * 4096 \<le> 2 ^ 47"
    and "unat base div 4096 \<le> q" and "q < unat base div 4096 + unat npage"
  shows "\<exists>x \<in> blk base (npage * PageSize). unat x div 4096 = q"
proof -
  obtain b where b: "unat base = 4096 * b" using assms(1) by blast
  have n: "unat (npage * PageSize) = unat npage * 4096" using assms(2) by (subst unat_mult_noof) simp_all
  have q: "b \<le> q" "q < b + unat npage" using assms(3,4) b by simp_all
  then have "4096 * q < 4096 * b + unat npage * 4096" by linarith
  then have "unat (of_nat (4096 * q) :: uintptr) = 4096 * q" using assms(2) b by (intro unat_of_nat [THEN trans] mod_less) simp
  then show ?thesis
    using q n b by (intro bexI [of _ "of_nat (4096 * q)"]) auto
qed

lemma spanPages_ok:
  assumes "pages_ok os h cs" and "best_fit (chunks h) np cs = Some c" and "0 < np"
  shows "\<exists>r h'. spanPages os rnd np span h = Some (r, h') \<and>
    (\<forall>start. r = Inr start \<longrightarrow> 4096 dvd unat start \<and> blk start (np * PageSize) \<subseteq> free_bytes (chunks h) cs \<and>
       (\<exists>cs'. pages_ok os h' cs' \<and> free_bytes (chunks h') cs' = free_bytes (chunks h) cs - blk start (np * PageSize) \<and>
          room_kept np (chunks h) cs (chunks h') cs') \<and>
       (\<forall>p. unat p < 2 ^ 47 \<longrightarrow> spanOf p h' = (if p \<in> blk start (np * PageSize) then Some (Inr span) else spanOf p h)) \<and>
       unat start + unat np * 4096 \<le> 2 ^ 47 \<and> (pool_clean h \<longrightarrow> (\<forall>A. os_apart os A \<longrightarrow> pool_moves os A h h')) \<and>
       spans h' = spans h \<and> classFree h' = classFree h \<and> classFull h' = classFull h \<and> xHeap.more h' = xHeap.more h) \<and> within_meta 1 h r h'"
proof -
  have rep: "heap_rep os h cs" and tab: "tables_ok h" and cov: "\<forall>x \<in> free_bytes (chunks h) cs. page_span h (unat x div 4096) \<noteq> None"
    using assms(1) by (auto simp: pages_ok_def)
  from freeChunk_fit [OF rep assms(2,3), of rnd] obtain r h1 ch where F: "freeChunk os rnd np h = Some (r, h1)" "chunks h c = Some ch"
    and got: "\<forall>got. r = Inr got \<longrightarrow> got = \<lparr>chunk_start = chunk_start ch, chunk_npages = np\<rparr> \<and>
       (\<exists>cs'. heap_rep os h1 cs' \<and> free_bytes (chunks h1) cs' = free_bytes (chunks h) cs - blk (chunk_start ch) (np * PageSize) \<and>
          room_kept np (chunks h) cs (chunks h1) cs') \<and>
       blk (chunk_start ch) (np * PageSize) \<subseteq> free_bytes (chunks h) cs \<and> same_pages h h1 \<and> pool_used h \<subseteq> pool_used h1 \<and>
       (pool_clean h \<longrightarrow> (\<forall>A. os_apart os A \<longrightarrow> pool_moves os A h h1))"
    and w: "within_meta 1 h r h1" by blast
  let ?B = "blk (chunk_start ch) (np * PageSize)"
  show ?thesis
  proof (cases r)
    case (Inl e)
    have "within_meta 1 h (Inl e :: goerr + uintptr) h1" by (rule within_meta_same [OF w]) (simp_all add: Inl)
    then show ?thesis using F(1) Inl by (simp add: spanPages_def allocChunk_def)
  next
    case (Inr a)
    then obtain cs' where a: "a = \<lparr>chunk_start = chunk_start ch, chunk_npages = np\<rparr>"
      and rep': "heap_rep os h1 cs'" and free: "free_bytes (chunks h1) cs' = free_bytes (chunks h) cs - ?B"
      and rk: "room_kept np (chunks h) cs (chunks h1) cs'"
      and sub: "?B \<subseteq> free_bytes (chunks h) cs" and sp: "same_pages h h1"
      and mv: "pool_clean h \<longrightarrow> (\<forall>A. os_apart os A \<longrightarrow> pool_moves os A h h1)"
      using got [rule_format, OF Inr] by (elim conjE exE) (rule that; assumption)
    have cin: "c \<in> set cs" "np \<le> chunk_npages ch"
      using assms(2) F(2) by (auto simp: best_fit_def find_Some_iff chunk_key_def)
    then have fit: "chunk_fits ch" using rep F(2) by (auto simp: heap_rep_def chunks_apart_def)
    have al: "4096 dvd unat (chunk_start ch)" "unat (chunk_start ch) + unat np * 4096 \<le> 2 ^ 47"
      using fit cin(2) by (auto simp: chunk_fits_def word_le_nat_alt)
    note tabs = same_pages_tables [OF sp]
    have "\<forall>i < unat np. page_span h1 (unat (chunk_start ch) div 4096 + i) \<noteq> None"
    proof (intro allI impI notI)
      fix i assume i: "i < unat np" and "page_span h1 (unat (chunk_start ch) div 4096 + i) = None"
      moreover obtain x where x: "x \<in> ?B" "unat x div 4096 = unat (chunk_start ch) div 4096 + i"
        using page_in_blk [OF al, of "unat (chunk_start ch) div 4096 + i"] i by fastforce
      ultimately show False using bspec [OF cov subsetD [OF sub x(1)]] unfolding tabs by simp
    qed
    with setSpans_ok [OF al, of h1 span] setSpans_spanOf [OF al, of h1 span] tab assms(3)
    obtain R where R: "setSpans (chunk_start ch) np span h1 = Some (h1\<lparr>rawLinear := R\<rparr>)" "tables_ok (h1\<lparr>rawLinear := R\<rparr>)"
      "\<forall>q < 2 ^ 35. page_span (h1\<lparr>rawLinear := R\<rparr>) q = (if unat (chunk_start ch) div 4096 \<le> q \<and>
         q < unat (chunk_start ch) div 4096 + unat np then Some span else page_span h1 q)"
      "\<forall>p. unat p < 2 ^ 47 \<longrightarrow> spanOf p (h1\<lparr>rawLinear := R\<rparr>) = (if p \<in> ?B then Some (Inr span) else spanOf p h1)"
      unfolding tabs by auto
    let ?h = "h1\<lparr>rawLinear := R\<rparr>"
    have "pages_ok os ?h cs'"
      unfolding pages_ok_def
    proof (intro conjI ballI heap_rep_tables [OF rep'] R(2))
      fix x assume x: "x \<in> free_bytes (chunks ?h) cs'"
      then have "page_span h1 (unat x div 4096) \<noteq> None" using cov free unfolding tabs by simp
      moreover have "unat x < 2 ^ 47" using x rep' chunk_fits_bytes
        by (auto simp: free_bytes_def heap_rep_def chunks_apart_def chunk_bytes_def chunk_fits_def split: option.splits)
      then have "unat x div 4096 < 2 ^ 35" by (intro less_mult_imp_div_less) simp
      ultimately show "page_span ?h (unat x div 4096) \<noteq> None" using R(3) by simp
    qed
    moreover have "free_bytes (chunks ?h) cs' = free_bytes (chunks h) cs - ?B" using free by simp
    moreover have "room_kept np (chunks h) cs (chunks ?h) cs'" using rk by simp
    ultimately have keep: "\<exists>cs'. pages_ok os ?h cs' \<and> free_bytes (chunks ?h) cs' = free_bytes (chunks h) cs - ?B \<and>
      room_kept np (chunks h) cs (chunks ?h) cs'" by blast
    have st: "spanPages os rnd np span h = Some (Inr (chunk_start ch), ?h)"
      by (simp add: spanPages_def allocChunk_def F(1) Inr a R(1) del: bind_Some_iff)
    have of: "\<forall>p. unat p < 2 ^ 47 \<longrightarrow> spanOf p ?h = (if p \<in> ?B then Some (Inr span) else spanOf p h)"
      using R(4) unfolding same_pages_spanOf [OF sp] .
    show ?thesis
    proof (rule exI, rule exI, rule conjI [OF st], rule conjI, intro allI impI)
      fix start assume "(Inr (chunk_start ch) :: goerr + uintptr) = Inr start"
      then have s: "start = chunk_start ch" by simp
      have "pool_moves os A h ?h = pool_moves os A h h1" for A by (rule pool_moves_cong) (simp_all add: same_pool_def)
      then have m: "pool_clean h \<longrightarrow> (\<forall>A. os_apart os A \<longrightarrow> pool_moves os A h ?h)" using mv by simp
      have q: "spans ?h = spans h" "classFree ?h = classFree h" "classFull ?h = classFull h" "xHeap.more ?h = xHeap.more h" using sp by (simp_all add: same_pages_def)
      show "4096 dvd unat start \<and> blk start (np * PageSize) \<subseteq> free_bytes (chunks h) cs \<and>
        (\<exists>cs'. pages_ok os ?h cs' \<and> free_bytes (chunks ?h) cs' = free_bytes (chunks h) cs - blk start (np * PageSize) \<and>
           room_kept np (chunks h) cs (chunks ?h) cs') \<and>
        (\<forall>p. unat p < 2 ^ 47 \<longrightarrow> spanOf p ?h = (if p \<in> blk start (np * PageSize) then Some (Inr span) else spanOf p h)) \<and>
        unat start + unat np * 4096 \<le> 2 ^ 47 \<and> (pool_clean h \<longrightarrow> (\<forall>A. os_apart os A \<longrightarrow> pool_moves os A h ?h)) \<and>
        spans ?h = spans h \<and> classFree ?h = classFree h \<and> classFull ?h = classFull h \<and> xHeap.more ?h = xHeap.more h"
        unfolding s by (intro conjI al sub keep of m q)
    next
      show "within_meta 1 h (Inr (chunk_start ch) :: goerr + uintptr) ?h" by (rule within_meta_same [OF w]) simp_all
    qed
  qed
qed

subsection \<open>The demo heap\<close>

lemma demo_heap_rep: "heap_rep demo_os demo_heap [16, 32]"
proof -
  have "pool_inv demo_os demo_heap = pool_inv demo_os demo_treap" "pool_used demo_heap = pool_used demo_treap"
    by (rule pool_inv_cong pool_used_cong; simp add: demo_heap_treap)+
  moreover have "treap_rep demo_heap [16, 32]"
    by (rule treap_rep_cong [OF demo_treap_rep]) (simp_all add: demo_heap_treap \<open>pool_used demo_heap = _\<close>)
  moreover have "chunks_apart demo_chunks {16, 32}"
    by (auto simp: chunks_apart_def chunk_fits_def chunk_bytes_def demo_chunks_def)
  ultimately show ?thesis using demo_treap_inv by (simp add: heap_rep_def demo_heap_treap)
qed

lemma demo_heap_pages: "pages_ok demo_os demo_heap [16, 32]"
proof -
  have "page_span demo_heap (unat x div 4096) \<noteq> None" if "x \<in> free_bytes demo_chunks [16, 32]" for x
  proof -
    have "unat x div 4096 div 65536 = 5" using that
      by (auto simp: free_bytes_def chunk_bytes_def demo_chunks_def div_mult2_eq [symmetric] intro!: div_nat_eqI)
    then show ?thesis by (simp add: demo_heap_page)
  qed
  then show ?thesis using demo_heap_rep demo_heap_tables by (simp add: pages_ok_def demo_heap_treap)
qed

lemma demo_heap_fit: "best_fit demo_chunks 9 [16, 32] = Some 32"
  by (simp add: best_fit_def chunk_key_def demo_chunks_def)

subsection \<open>Properties\<close>



text \<open>
  C6: The pages of a new span, when some free chunk is large enough: they are whole pages that were
  free and are not free any more, the chunks that stay free stay apart, sorted and mapped, and from
  then on every address of the pages leads to the span, and every other address to what it led
  to before.
\<close>
theorem spanPages_invariant:
  assumes "pages_ok os h cs" and "best_fit (chunks h) np cs = Some c" and "0 < np"
  shows "\<exists>r h'. spanPages os rnd np span h = Some (r, h') \<and>
    (\<forall>start. r = Inr start \<longrightarrow> 4096 dvd unat start \<and> blk start (np * PageSize) \<subseteq> free_bytes (chunks h) cs \<and>
       (\<exists>cs'. pages_ok os h' cs' \<and> free_bytes (chunks h') cs' = free_bytes (chunks h) cs - blk start (np * PageSize)) \<and>
       (\<forall>p. unat p < 2 ^ 47 \<longrightarrow> spanOf p h' = (if p \<in> blk start (np * PageSize) then Some (Inr span) else spanOf p h)))"
  using spanPages_ok [OF assms] by meson

theorem spanPages_invariant_witness:
  "\<exists>r h'. spanPages demo_os (\<lambda>_. 3) 9 0x40000200 demo_heap = Some (r, h') \<and>
     (\<forall>start. r = Inr start \<longrightarrow> spanOf start h' = Some (Inr 0x40000200))"
proof -
  from demo_heap_fit have "best_fit (chunks demo_heap) 9 [16, 32] = Some 32" by (simp add: demo_heap_treap)
  from spanPages_invariant [OF demo_heap_pages this, of "\<lambda>_. 3" "0x40000200"]
  obtain r h' where st: "spanPages demo_os (\<lambda>_. 3) 9 0x40000200 demo_heap = Some (r, h')"
    and ok: "\<forall>start. r = Inr start \<longrightarrow> blk start (9 * PageSize) \<subseteq> free_bytes (chunks demo_heap) [16, 32] \<and>
      (\<forall>p. unat p < 2 ^ 47 \<longrightarrow> spanOf p h' = (if p \<in> blk start (9 * PageSize) then Some (Inr 0x40000200) else spanOf p demo_heap))"
    by (simp del: mem_blk) blast
  have "spanOf start h' = Some (Inr 0x40000200)" if "r = Inr start" for start
  proof -
    have i: "start \<in> blk start (9 * PageSize)" by (rule blk_start) simp
    then have "start \<in> free_bytes demo_chunks [16, 32]" using ok that by (auto simp: demo_heap_treap simp del: mem_blk)
    then have "unat start < 2 ^ 47" by (auto simp: free_bytes_def chunk_bytes_def demo_chunks_def)
    then show ?thesis using ok that i by (simp del: mem_blk)
  qed
  then show ?thesis using st by blast
qed

end
