(* ===== verification/Frames.thy ===== *)
theory Frames
  imports Facade Chunks
begin

text \<open>
  What no operation of the allocator touches but the sweep itself: the index of the next class, the
  control word and the time of the last sweep. One rule per operation, collected in gc\_frame, and a
  small calculus over the do-blocks by which each follows from those of the operations it calls.
\<close>

subsection \<open>What the operations leave alone\<close>

named_theorems gc_frame \<open>operations that leave the control state of the collector as it is\<close>

definition gc_ctl :: "'a xHeap_scheme \<Rightarrow> uint32 \<times> uint32 \<times> int" where
  "gc_ctl h = (sweepIndex h, sweepCtl h, sweepLastTime h)"

lemma gc_ctl_upd [simp]:
  "gc_ctl (h\<lparr>mem := a1\<rparr>) = gc_ctl h" "gc_ctl (h\<lparr>calls := a2\<rparr>) = gc_ctl h"
  "gc_ctl (h\<lparr>treap_nodes := a3\<rparr>) = gc_ctl h" "gc_ctl (h\<lparr>chunks := a4\<rparr>) = gc_ctl h" "gc_ctl (h\<lparr>treap := a5\<rparr>) = gc_ctl h"
  "gc_ctl (h\<lparr>lin := a6\<rparr>) = gc_ctl h" "gc_ctl (h\<lparr>addrMap := a7\<rparr>) = gc_ctl h" "gc_ctl (h\<lparr>rawLinear := a8\<rparr>) = gc_ctl h"
  "gc_ctl (h\<lparr>allChunk := a9\<rparr>) = gc_ctl h" "gc_ctl (h\<lparr>allChunkCap := b1\<rparr>) = gc_ctl h"
  "gc_ctl (h\<lparr>allChunkAllocator := b2\<rparr>) = gc_ctl h" "gc_ctl (h\<lparr>spans := b3\<rparr>) = gc_ctl h"
  "gc_ctl (h\<lparr>classFree := b4\<rparr>) = gc_ctl h" "gc_ctl (h\<lparr>classFull := b5\<rparr>) = gc_ctl h"
  "gc_ctl (h\<lparr>totalCapacity := b6\<rparr>) = gc_ctl h" "gc_ctl (h\<lparr>freeCapacity := b7\<rparr>) = gc_ctl h" "gc_ctl (h\<lparr>draws := b8\<rparr>) = gc_ctl h"
  by (simp_all add: gc_ctl_def)

lemma gc_ctl_pool_upd [simp]:
  "gc_ctl (h\<lparr>inuse := a1\<rparr>) = gc_ctl h" "gc_ctl (h\<lparr>spanGen := a2\<rparr>) = gc_ctl h" "gc_ctl (h\<lparr>classSpans := a3\<rparr>) = gc_ctl h"
  "gc_ctl (h\<lparr>pending := a4\<rparr>) = gc_ctl h"
  by (simp_all add: gc_ctl_def)

lemma raw_more_gc: "raw_pool.more h' = raw_pool.more h \<Longrightarrow> gc_ctl h' = gc_ctl h"
  by (cases h; cases h') (simp add: gc_ctl_def)

lemma machine_more_gc: "machine.more h' = machine.more h \<Longrightarrow> gc_ctl h' = gc_ctl h"
  by (cases h; cases h') (simp add: gc_ctl_def)


text \<open>
  A computation that keeps the control state: every result it can return has it unchanged.
  The rules follow the do-blocks.
\<close>

definition keeps :: "('a \<Rightarrow> 'h xHeap_scheme) \<Rightarrow> uint32 \<times> uint32 \<times> int \<Rightarrow> 'a option \<Rightarrow> bool" where
  "keeps g c m \<longleftrightarrow> (\<forall>x. m = Some x \<longrightarrow> gc_ctl (g x) = c)"

lemma keeps_simps [simp]: "keeps g c None" "keeps g c (Some x) \<longleftrightarrow> gc_ctl (g x) = c"
  by (simp_all add: keeps_def)

lemma keepsD: "keeps g c m \<Longrightarrow> m = Some x \<Longrightarrow> gc_ctl (g x) = c"
  by (simp add: keeps_def)

lemma keeps_value: "(\<And>x. m = Some x \<Longrightarrow> keeps g c (f x)) \<Longrightarrow> keeps g c (Option.bind m f)"
  by (cases m) simp_all

lemma keeps_state: "keeps snd c m \<Longrightarrow> (\<And>r h. gc_ctl h = c \<Longrightarrow> keeps g c (f (r, h))) \<Longrightarrow> keeps g c (Option.bind m f)"
  by (cases m) auto

lemma keeps_state3:
  "keeps (\<lambda>x. snd (snd x)) c m \<Longrightarrow> (\<And>r s h. gc_ctl h = c \<Longrightarrow> keeps g c (f (r, s, h))) \<Longrightarrow> keeps g c (Option.bind m f)"
  by (cases m) auto

lemma keeps_map: "keeps (\<lambda>x. g (f x)) c m \<Longrightarrow> keeps g c (map_option f m)"
  by (cases m) simp_all

lemma keeps_weaken: "(\<And>x. gc_ctl (g x) = gc_ctl (g' x)) \<Longrightarrow> keeps g c m \<Longrightarrow> keeps g' c m"
  by (simp add: keeps_def)

lemma keeps_const: "gc_ctl h = c \<Longrightarrow> keeps (\<lambda>x. h) c m"
  by (simp add: keeps_def)

lemmas keeps_values =
  keeps_value [where 'a = treapNode] keeps_value [where 'a = xChunk] keeps_value [where 'a = xSpan]
  keeps_value [where 'a = uintptr] keeps_value [where 'a = bool] keeps_value [where 'a = "uintptr \<times> nodes"]
  keeps_value [where 'a = "goerr + uintptr"] keeps_value [where 'a = "goerr + uintptr \<times> place"]
  keeps_value [where 'a = "goerr option \<times> uintptr \<times> nodes"] keeps_value [where 'a = memory]
  keeps_value [where 'a = "uintptr \<times> span_store"] keeps_value [where 'a = "uintptr \<times> uintptr \<times> span_store"]
  keeps_value [where 'a = "uintptr \<times> bool \<times> xSpan"]

lemmas keeps_rules = keeps_values keeps_state keeps_state3 keeps_map keeps_const

lemma pool_alloc_gc [gc_frame]: "gc_ctl h = c \<Longrightarrow> keeps snd c (pool_alloc os sz h)"
  unfolding keeps_def using raw_more_gc pool_alloc_more by (metis prod.collapse)

lemma new_struct_gc [gc_frame]: "gc_ctl h = c \<Longrightarrow> keeps snd c (new_struct os sz h)"
  by (auto simp: new_struct_def xAllocator_alloc_def Let_def split_def intro!: keeps_rules gc_frame)

lemma newMarkBits_gc [gc_frame]: "gc_ctl h = c \<Longrightarrow> keeps snd c (newMarkBits os n z h)"
  unfolding keeps_def
  by (auto simp: newMarkBits_unfold split: option.splits sum.splits if_splits prod.splits dest: keepsD [OF pool_alloc_gc [OF refl]])

lemma span_Init_gc [gc_frame]: "gc_ctl h = c \<Longrightarrow> keeps (\<lambda>x. snd (snd x)) c (span_Init os f s h)"
  unfolding keeps_def
  by (auto simp: span_Init_def newAllocBits_def Let_def split: option.splits sum.splits prod.splits
      dest!: keepsD [OF newMarkBits_gc [OF refl]])

lemma heap_insert_gc [gc_frame]: "gc_ctl h = c \<Longrightarrow> keeps snd c (heap_insert os rnd t h)"
  by (auto simp: heap_insert_def treap_insert_def xAllocator_alloc_def Let_def split_def split: sum.split
      intro!: keeps_rules gc_frame)

lemma removeNode_gc [gc_frame]: "gc_ctl h = c \<Longrightarrow> keeps snd c (removeNode t h)"
  by (auto simp: removeNode_def split: if_split intro!: keeps_rules)

lemma carve_gc [gc_frame]: "gc_ctl h = c \<Longrightarrow> keeps snd c (carve os rnd np t h)"
  by (auto simp: carve_def Let_def split: if_split sum.split intro!: keeps_rules gc_frame)

lemma keeps_plain: "keeps (\<lambda>h. h) c m \<Longrightarrow> (\<And>h. gc_ctl h = c \<Longrightarrow> keeps g c (f h)) \<Longrightarrow> keeps g c (Option.bind m f)"
  by (cases m) auto

lemmas keeps_all = keeps_rules keeps_plain

text \<open>System calls only change the machine.\<close>

lemma sysReserve_more: "sysReserve os v sz s = (r, s') \<Longrightarrow> machine.more s' = machine.more s"
  by (auto simp: sysReserve_def Let_def split: prod.splits option.splits)

lemma sysFree_more: "machine.more (snd (sysFree os v sz s)) = machine.more s"
  by (simp add: sysFree_def Let_def split: prod.split option.split)

lemma sysMap_more: "sysMap os v sz s = (r, s') \<Longrightarrow> machine.more s' = machine.more s"
  by (auto simp: sysMap_def Let_def split: prod.splits if_splits)

lemma reserveAligned_more: "reserveAligned os v sz al n s = Some y \<Longrightarrow> machine.more (snd y) = machine.more s"
  apply (erule reserveAligned.raw_induct [rotated])
  subgoal premises prems for f os v sz al n s y
    using prems(2)
    by (auto simp: Let_def sysFree_more split: prod.splits sum.splits if_splits dest!: sysReserve_more prems(1))
  done

lemma expandLoop_more: "expandLoop os p al as er l s = Some y \<Longrightarrow> machine.more (snd y) = machine.more s"
  by (induction as arbitrary: er s)
    (auto simp: sysReserveAligned_def split: option.splits sum.splits prod.splits if_splits dest!: reserveAligned_more)

lemma expand_gc [gc_frame]: "gc_ctl h = c \<Longrightarrow> keeps snd c (expand os a al l h)"
  unfolding keeps_def expand_def Let_def using machine_more_gc expandLoop_more by metis

lemma lin_alloc_gc: "lin_alloc os sz al l h = (r, l', h') \<Longrightarrow> gc_ctl h' = gc_ctl h"
  by (rule machine_more_gc) (auto simp: lin_alloc_def Let_def split: if_splits prod.splits sum.splits dest!: sysMap_more)

lemma reserveRegion_gc: "reserveRegion os sz h = (r, h') \<Longrightarrow> gc_ctl h' = gc_ctl h"
  by (auto simp: reserveRegion_def Let_def split: prod.splits dest!: lin_alloc_gc)

lemma slice_alloc_more: "slice_alloc os cap xa s = Some (r, xa', s') \<Longrightarrow> machine.more s' = machine.more s"
  by (auto simp: slice_alloc_def slice_refill_def Let_def split: if_splits prod.splits sum.splits dest!: newXRawMemory_more)

lemma slice_grow_gc:
  assumes "gc_ctl h = c" and f: "\<And>h. gc_ctl (f h) = gc_ctl h"
  shows "keeps (\<lambda>x. snd (snd x)) c (slice_grow os cap (\<lambda>p h. (None, f h)) xa h)"
proof -
  have "gc_ctl s = c" if "slice_alloc os cap' xa h = Some (r, xa', s)" for cap' r xa' s
    using machine_more_gc [OF slice_alloc_more [OF that]] assms(1) by simp
  then show ?thesis
    unfolding keeps_def slice_grow_def Let_def
    by (auto simp: f split: option.splits sum.splits prod.splits dest: slice_alloc_old_None)
qed

lemma addChunks_gc [gc_frame]: "gc_ctl h = c \<Longrightarrow> keeps snd c (addChunks os xs h)"
  by (auto simp: addChunks_def Let_def split_def split: if_split sum.split intro!: keeps_state keeps_map
      keeps_weaken [OF _ slice_grow_gc])

lemma mapRegions_gc [gc_frame]: "gc_ctl h = c \<Longrightarrow> keeps snd c (mapRegions os k off h)"
  by (induction k arbitrary: off h) (auto simp: Let_def split: sum.split if_split intro!: keeps_state gc_frame)

lemma addRegion_gc [gc_frame]: "gc_ctl h = c \<Longrightarrow> keeps snd c (addRegion os rnd p sz h)"
  by (auto simp: addRegion_def split: sum.split intro!: keeps_state gc_frame)

lemma expandHeap_gc: "gc_ctl h = c \<Longrightarrow> keeps (\<lambda>h. h) c (expandHeap os h)"
  by (auto simp: expandHeap_def split: prod.split if_split intro!: keeps_state gc_frame)

lemma grow2_gc [gc_frame]: "gc_ctl h = c \<Longrightarrow> keeps snd c (grow2 os rnd np h)"
proof -
  have "grow2 os rnd np h = Some y \<Longrightarrow> gc_ctl (snd y) = gc_ctl h" for y
    apply (erule grow2.raw_induct [rotated])
    subgoal premises prems for f os rnd np h y
      using prems(2)
      by (auto split: prod.splits sum.splits if_splits dest!: reserveRegion_gc prems(1)
          dest: keepsD [OF addRegion_gc [OF refl]] keepsD [OF expandHeap_gc [OF refl]])
    done
  then show "gc_ctl h = c \<Longrightarrow> keeps snd c (grow2 os rnd np h)" by (simp add: keeps_def)
qed

lemma freeChunk_gc [gc_frame]: "gc_ctl h = c \<Longrightarrow> keeps snd c (freeChunk os rnd np h)"
  by (auto simp: freeChunk_def findOrGrow_def split_def split: if_split sum.split intro!: keeps_all gc_frame)

lemma set_page_gc [gc_frame]: "gc_ctl h = c \<Longrightarrow> keeps (\<lambda>h. h) c (set_page ha i s h)"
  by (auto simp: set_page_def intro!: keeps_map simp: keeps_def)

lemma setSpansLoop_gc [gc_frame]: "gc_ctl h = c \<Longrightarrow> keeps (\<lambda>h. h) c (setSpansLoop base s k n ha h)"
  by (induction k arbitrary: n ha h) (auto simp: Let_def intro!: keeps_value [where 'a = uintptr] keeps_plain gc_frame)

lemma setSpans_gc [gc_frame]: "gc_ctl h = c \<Longrightarrow> keeps (\<lambda>h. h) c (setSpans base np s h)"
  by (auto simp: setSpans_def intro!: keeps_values gc_frame)

lemma spanPages_gc [gc_frame]: "gc_ctl h = c \<Longrightarrow> keeps snd c (spanPages os rnd np s h)"
  by (auto simp: spanPages_def allocChunk_def split: sum.split intro!: keeps_all gc_frame)

lemma allocRawSpan_gc [gc_frame]: "gc_ctl h = c \<Longrightarrow> keeps snd c (allocRawSpan os rnd np h)"
  by (auto simp: allocRawSpan_def split: sum.split intro!: keeps_all gc_frame)

lemma heap_allocSpan_gc [gc_frame]: "gc_ctl h = c \<Longrightarrow> keeps snd c (heap_allocSpan os rnd np i cls f h)"
  by (auto simp: heap_allocSpan_def Let_def split: sum.split if_split intro!: keeps_all gc_frame)

lemma class_allocSpan_gc [gc_frame]: "gc_ctl h = c \<Longrightarrow> keeps snd c (class_allocSpan os rnd i f h)"
  by (auto simp: class_allocSpan_def split: if_split intro!: keeps_all gc_frame)

lemma releaseSpan_gc [gc_frame]: "gc_ctl h = c \<Longrightarrow> keeps (\<lambda>h. h) c (releaseSpan i s h)"
  by (auto simp: releaseSpan_def intro!: keeps_all)

lemma swapBits_gc [gc_frame]: "gc_ctl h = c \<Longrightarrow> keeps (\<lambda>x. snd (snd x)) c (swapBits os s n h)"
  by (auto simp: swapBits_def Let_def split: sum.split intro!: keeps_all gc_frame)

lemma addFreeCapacity_gc [simp]: "gc_ctl (addFreeCapacity n h) = gc_ctl h"
  by (simp add: addFreeCapacity_def)

lemma freeSpan_gc [gc_frame]: "gc_ctl h = c \<Longrightarrow> keeps snd c (freeSpan os i s h)"
  by (auto simp: freeSpan_def Let_def split: if_split sum.split intro!: keeps_all gc_frame)

lemma keeps_upd:
  "gc_ctl h = c \<Longrightarrow> keeps (\<lambda>x. h\<lparr>mem := M x\<rparr>) c m"
  "gc_ctl h = c \<Longrightarrow> keeps (\<lambda>x. h\<lparr>classFull := F x, spans := S x\<rparr>) c m'"
  by (simp_all add: keeps_def)

lemma markBitsForAddr_gc [gc_frame]: "gc_ctl h = c \<Longrightarrow> keeps snd c (markBitsForAddr p h)"
  by (auto simp: markBitsForAddr_def setMarkBitsForIndex_def Let_def split: if_split sum.split intro!: keeps_all keeps_upd)

lemma sweepFullSpan_gc [gc_frame]: "gc_ctl h = c \<Longrightarrow> keeps snd c (sweepFullSpan os rnd s h)"
  by (auto simp: sweepFullSpan_def ChunkInsert_def Let_def split: if_split sum.split intro!: keeps_all gc_frame)

lemma sweepList_gc [gc_frame]: "gc_ctl h = c \<Longrightarrow> keeps snd c (sweepList os rnd i s tot h)"
proof -
  have "sweepList os rnd i s tot h = Some y \<Longrightarrow> gc_ctl (snd y) = gc_ctl h" for y
    apply (erule sweepList.raw_induct [rotated])
    subgoal premises prems for f os rnd i s tot h y
    proof -
      have IH: "gc_ctl h = c \<Longrightarrow> keeps snd c (f os rnd i s tot h)" for h c s tot using prems(1) by (auto simp: keeps_def)
      have "keeps snd (gc_ctl h) (Some y)"
        unfolding prems(2) [symmetric]
        by (auto simp: split_def split: sum.split if_split bool.split intro!: keeps_all keeps_upd gc_frame IH)
      then show ?thesis by simp
    qed
    done
  then show "gc_ctl h = c \<Longrightarrow> keeps snd c (sweepList os rnd i s tot h)" by (simp add: keeps_def)
qed

text \<open>A round of the sweep counts the class up.\<close>

lemma sweepClasses_index:
  "sweepClasses os rnd k tot h = Some (tot', h') \<Longrightarrow>
    sweepIndex h' = sweepIndex h + of_nat k \<and> sweepCtl h' = sweepCtl h \<and> sweepLastTime h' = sweepLastTime h"
proof (induction k arbitrary: tot h)
  case (Suc k)
  let ?h = "h\<lparr>sweepIndex := sweepIndex h + 1\<rparr>"
  from Suc.prems obtain t1 h1 where st: "sweepList os rnd (unat (sweepIndex h)) (classFull ?h (unat (sweepIndex h))) tot ?h = Some (t1, h1)"
    "sweepClasses os rnd k t1 h1 = Some (tot', h')" by (auto simp: Let_def)
  show ?case using Suc.IH [OF st(2)] keepsD [OF sweepList_gc [OF refl] st(1)] by (simp add: gc_ctl_def)
qed simp

subsection \<open>The pool\<close>

lemma allocClassSpan_gc [gc_frame]: "gc_ctl h = c \<Longrightarrow> keeps snd c (allocClassSpan os rnd i h)"
  by (auto simp: allocClassSpan_def intro!: gc_frame)

lemma growClassSpan_gc [gc_frame]: "gc_ctl h = c \<Longrightarrow> keeps snd c (growClassSpan os rnd sc xs h)"
  by (auto simp: growClassSpan_def split: sum.split intro!: keeps_all gc_frame)

lemma growSpan_gc [gc_frame]: "gc_ctl h = c \<Longrightarrow> keeps snd c (growSpan os rnd sc op gen h)"
  by (auto simp: growSpan_def Let_def split: SpanOperation.split list.split sum.split if_split intro!: keeps_all gc_frame)

lemma clear_gc [gc_frame]: "gc_ctl h = c \<Longrightarrow> keeps (\<lambda>h. h) c (clear p n h)"
  by (simp add: clear_def)

lemma allocLarge_gc [gc_frame]: "gc_ctl h = c \<Longrightarrow> keeps snd c (allocLarge os rnd sz h)"
  by (auto simp: allocLarge_def split: sum.split intro!: keeps_all gc_frame)

lemma takeObject_gc [gc_frame]: "gc_ctl h = c \<Longrightarrow> keeps snd c (takeObject sz i xs h)"
  by (induction xs arbitrary: i h) (auto simp: Let_def split: if_split intro!: keeps_all gc_frame)

lemma addInuse_gc [simp]: "gc_ctl (addInuse sc h) = gc_ctl h"
  by (simp add: addInuse_def)

lemma startAsync_gc [simp]: "gc_ctl (startAsync sc gen h) = gc_ctl h"
  by (simp add: startAsync_def needExpendAsync_def)

lemma pool_Alloc_gc [gc_frame]: "gc_ctl h = c \<Longrightarrow> keeps snd c (pool_Alloc os rnd sz h)"
proof -
  have "pool_Alloc os rnd sz h = Some y \<Longrightarrow> gc_ctl (snd y) = gc_ctl h" for y
    apply (erule pool_Alloc.raw_induct [rotated])
    subgoal premises prems for f os rnd sz h y
    proof -
      have IH: "gc_ctl h = c \<Longrightarrow> keeps snd c (f os rnd sz h)" for h c sz using prems(1) by (auto simp: keeps_def)
      have "keeps snd (gc_ctl h) (Some y)"
        unfolding prems(2) [symmetric]
        by (auto simp: Let_def split_def split: prod.split sum.split if_split option.split intro!: keeps_all gc_frame IH)
      then show ?thesis by simp
    qed
    done
  then show "gc_ctl h = c \<Longrightarrow> keeps snd c (pool_Alloc os rnd sz h)" by (simp add: keeps_def)
qed

end
