(* ===== verification/Collector.thy ===== *)
theory Collector
  imports Frames
begin

text \<open>
  Marking and sweeping: which object a free marks, what freeSpan gives back, what Free does with a
  wrong address, and when the collector stops. The calls of the interface are the steps of a state
  machine, so that the last holds for every sequence of calls.
\<close>

subsection \<open>Marking\<close>

text \<open>A span of a class with the geometry and the magic numbers of its class.\<close>

definition span_class :: "xSpan \<Rightarrow> bool" where
  "span_class s \<longleftrightarrow> 0 < classIndex s \<and> setDivMagic s = Some s \<and> unat (classSize s) = class_size (classIndex s) \<and>
     unat (nelems s) * unat (classSize s) \<le> unat (class_pages (classIndex s)) * 4096"

lemma objIndex_obj:
  assumes "span_class s" and "p \<in> obj_addrs s i" and "i < unat (nelems s)"
  shows "objIndex s p = of_nat i"
proof (rule eq_of_nat_unat)
  let ?c = "unat (classSize s)"
  have p: "unat (startAddr s) + i * ?c \<le> unat p" "unat p < unat (startAddr s) + (i + 1) * ?c"
    using assms(2) by (simp_all add: obj_addrs_def)
  have "(i + 1) * ?c \<le> unat (nelems s) * ?c" using assms(3) by (intro mult_le_mono1) simp
  then have "unat p - unat (startAddr s) < unat (class_pages (classIndex s)) * 4096"
    using assms(1) p by (auto simp: span_class_def)
  then have "unat (objIndex s p) = (unat p - unat (startAddr s)) div ?c"
    using assms(1) p(1) objIndex_sound [of s s p] by (simp add: span_class_def)
  also have "\<dots> = i" using p by (intro div_nat_eqI) (simp_all add: algebra_simps)
  finally show "unat (objIndex s p) = i" .
qed

lemma heap_mark_obj:
  assumes "spanOf p h = Some (Inr a)" and "a \<noteq> 0" and "spans h a = Some s" and "span_class s"
    and bm: "bitmap (mem h) (gcmarkBits s) (bitmap_words (nelems s))" and i: "i < unat (nelems s)" and p: "p \<in> obj_addrs s i"
  shows "\<exists>m. heap_mark p h = Some (Inr (), h\<lparr>freeCapacity := freeCapacity h + classSize s, mem := m\<rparr>) \<and>
    bits_upd (mem h) m (gcmarkBits s) (bitmap_words (nelems s))
      (\<lambda>k. if k = i then \<not> membit (mem h) (gcmarkBits s) k else membit (mem h) (gcmarkBits s) k)"
proof -
  have "i < 32 * bitmap_words (nelems s)" using i bitmap_words_ge [of "nelems s"] by simp
  from mark_ops(2) [OF bm this] obtain m where
    m: "setMarked (markBitsForIndex (gcmarkBits s) (of_nat i)) (mem h) = Some m"
    "bits_upd (mem h) m (gcmarkBits s) (bitmap_words (nelems s))
      (\<lambda>k. if k = i then \<not> membit (mem h) (gcmarkBits s) k else membit (mem h) (gcmarkBits s) k)" by blast
  then have "heap_mark p h = Some (Inr (), h\<lparr>freeCapacity := freeCapacity h + classSize s, mem := m\<rparr>)"
    using assms(1-3) objIndex_obj [OF assms(4) p i]
    by (simp add: heap_mark_def markBitsForAddr_def setMarkBitsForIndex_def addFreeCapacity_def Let_def)
  then show ?thesis using m(2) by blast
qed

subsection \<open>Recycling\<close>

lemma refill_start:
  assumes "bitmap m (allocBits s) (bitmap_words (nelems s))" and "0 < nelems s" and "freeIndex s = 0"
  shows "\<exists>c. refillAllocCache m 0 s = Some (s\<lparr>allocCache := c\<rparr>) \<and> cache_at m (s\<lparr>allocCache := c\<rparr>) 0"
proof -
  have "0 < unat (nelems s)" using assms(2) by (simp add: word_less_nat_alt)
  from refill_ok [of m s _ 0, OF assms(1)] bitmap_words_room [OF this] obtain c where
    "refillAllocCache m 0 s = Some (s\<lparr>allocCache := c\<rparr>)" "\<forall>j < 64. bit c j = membit m (allocBits s) j" by auto
  then show ?thesis by (auto simp: cache_at_def)
qed

lemma membit_cong: "(\<forall>k < 4 * n. m' (b + of_nat k) = m (b + of_nat k)) \<Longrightarrow> i < 32 * n \<Longrightarrow> membit m' b i = membit m b i"
  unfolding membit_def by (drule spec [of _ "i div 8"]) auto

lemma swapBits_ok:
  assumes inv: "pool_inv os h" "pool_clean h" and n: "0 < nelems s" "unat (nelems s) \<le> 2 ^ 40"
    and bm: "bitmap (mem h) (gcmarkBits s) (bitmap_words (nelems s))"
    and held: "\<forall>k < 4 * bitmap_words (nelems s). gcmarkBits s + of_nat k \<in> pool_used h"
    and geo: "0 < startAddr s" "0 < classSize s" "unat (startAddr s) + unat (nelems s) * unat (classSize s) \<le> 2 ^ 47"
  shows "\<exists>r s' h'. swapBits os s cnt h = Some (r, s', h') \<and> spans h' = spans h \<and> classFree h' = classFree h \<and>
    (r = Inr () \<longrightarrow> span_ok (mem h') s' \<and> nelems s' = nelems s \<and> classSize s' = classSize s \<and> startAddr s' = startAddr s \<and>
       allocCount s' = nelems s - cnt \<and> freeIndex s' = 0 \<and> classIndex s' = classIndex s \<and>
       span_free (mem h') s' = {i. i < unat (nelems s) \<and> membit (mem h) (gcmarkBits s) i} \<and>
       bitmap (mem h') (gcmarkBits s') (bitmap_words (nelems s)) \<and>
       (\<forall>i < unat (nelems s). \<not> membit (mem h') (gcmarkBits s') i) \<and>
       (\<forall>x \<in> pool_used h. mem h' x = mem h x) \<and> pool_inv os h' \<and> pool_clean h')"
proof -
  let ?w = "bitmap_words (nelems s)" and ?s = "s\<lparr>freeIndex := 0, allocCount := nelems s - cnt, allocBits := gcmarkBits s\<rparr>"
  obtain r h1 where st: "newMarkBits os (nelems s) True h = Some (r, h1)" using newMarkBits_safe [OF inv n(2)] by fastforce
  have more: "raw_pool.more h1 = raw_pool.more h" using st pool_alloc_more
    by (auto simp: newMarkBits_unfold split: option.splits sum.splits prod.splits)
  then have same: "spans h1 = spans h" "classFree h1 = classFree h" by (cases h; cases h1; simp)+
  show ?thesis
  proof (cases r)
    case (Inl e)
    then show ?thesis using st same by (simp add: swapBits_def)
  next
    case (Inr g)
    note m = newMarkBits_sound [OF inv n(2) st [unfolded Inr]]
    have bits: "membit (mem h1) (gcmarkBits s) i = membit (mem h) (gcmarkBits s) i" if "i < 32 * ?w" for i
      using that held m(7) by (intro membit_cong [of ?w]) auto
    have bm1: "bitmap (mem h1) (gcmarkBits s) ?w" using bm m(10) by (auto simp: bitmap_def intro: bytes_at_dom)
    let ?t = "?s\<lparr>gcmarkBits := g\<rparr>"
    from refill_start [of "mem h1" ?t] bm1 n(1) obtain c where
      c: "refillAllocCache (mem h1) 0 ?t = Some (?t\<lparr>allocCache := c\<rparr>)" "cache_at (mem h1) (?t\<lparr>allocCache := c\<rparr>) 0" by auto
    let ?u = "?t\<lparr>allocCache := c\<rparr>"
    have "span_ok (mem h1) ?u" using n(2) bm1 c(2) geo by (simp add: span_ok_def)
    moreover have le: "i < 32 * ?w" if "i < unat (nelems s)" for i using that bitmap_words_ge [of "nelems s"] by simp
    have "span_free (mem h1) ?u = {i. i < unat (nelems s) \<and> membit (mem h) (gcmarkBits s) i}"
      using bits le by (auto simp: span_free_def)
    moreover have "swapBits os s cnt h = Some (Inr (), ?u, h1)" using st Inr c(1) by (simp add: swapBits_def)
    ultimately show ?thesis using same m(1-4,7) le by (intro exI [of _ "Inr ()"] exI [of _ ?u] exI [of _ h1]) simp
  qed
qed

text \<open>A used-up span whose bit maps lie in memory of the pool.\<close>

definition span_spent :: "'a xHeap_scheme \<Rightarrow> xSpan \<Rightarrow> bool" where
  "span_spent h s \<longleftrightarrow> 0 < nelems s \<and> unat (nelems s) \<le> 2 ^ 40 \<and> nelems s \<le> allocCount s \<and>
     0 < startAddr s \<and> 0 < classSize s \<and> unat (startAddr s) + unat (nelems s) * unat (classSize s) \<le> 2 ^ 47 \<and>
     bitmap (mem h) (gcmarkBits s) (bitmap_words (nelems s)) \<and>
     (\<forall>k < 4 * bitmap_words (nelems s). gcmarkBits s + of_nat k \<in> pool_used h)"

definition marked :: "'a xHeap_scheme \<Rightarrow> xSpan \<Rightarrow> nat set" where
  "marked h s = {i. i < unat (nelems s) \<and> membit (mem h) (gcmarkBits s) i}"

lemma marked_count:
  assumes "span_spent h s"
  shows "countGcMarkBits (mem h) s = Some (of_nat (card (marked h s)))"
    and "of_nat (card (marked h s)) \<le> (0 :: uintptr) \<longleftrightarrow> marked h s = {}"
proof -
  have b: "bitmap (mem h) (gcmarkBits s) (bitmap_words (nelems s))" "unat (nelems s) \<le> 2 ^ 40"
    using assms by (simp_all add: span_spent_def)
  show "countGcMarkBits (mem h) s = Some (of_nat (card (marked h s)))"
    using countGcMarkBits_ok [OF b] by (simp add: marked_below_def marked_def)
  have fin: "finite (marked h s)" by (simp add: marked_def)
  have "card (marked h s) \<le> card {..< unat (nelems s)}" by (intro card_mono) (auto simp: marked_def)
  then have "card (marked h s) \<le> 2 ^ 40" using b(2) by simp
  then show "of_nat (card (marked h s)) \<le> (0 :: uintptr) \<longleftrightarrow> marked h s = {}"
    using of_nat_inj64 [of "card (marked h s)" 0] fin by (auto simp: word_le_nat_alt unat_of_nat)
qed

lemma freeSpan_idle:
  assumes "spans h a = Some s" and "a \<noteq> 0" and "countGcMarkBits (mem h) s = Some n" and "n \<le> 0 \<or> allocCount s < nelems s"
  shows "freeSpan os i a h = Some (Inr (False, 0), h)"
  using assms by (auto simp: freeSpan_def)

lemma freeSpan_ok:
  assumes inv: "pool_inv os h" "pool_clean h" and a: "spans h a = Some s" "a \<noteq> 0" and sp: "span_spent h s"
    and ne: "marked h s \<noteq> {}" and free: "linked (classFree h i, spans h) xs" "a \<notin> set xs"
  shows "\<exists>r h'. freeSpan os i a h = Some (r, h') \<and>
    (case r of Inl e \<Rightarrow> classFree h' = classFree h
     | Inr (swapped, sz) \<Rightarrow> swapped \<and> sz = of_nat (card (marked h s)) * classSize s \<and>
         linked (classFree h' i, spans h') (a # xs) \<and> (\<forall>j. j \<noteq> i \<longrightarrow> classFree h' j = classFree h j) \<and>
         (\<exists>s'. spans h' a = Some s' \<and> span_ok (mem h') s' \<and> span_free (mem h') s' = marked h s \<and> marked h' s' = {} \<and>
            startAddr s' = startAddr s \<and> classSize s' = classSize s \<and> nelems s' = nelems s \<and>
            allocCount s' = nelems s - of_nat (card (marked h s))) \<and>
         (\<forall>b. b \<noteq> a \<longrightarrow> spans h' b = spans h b))"
proof -
  let ?n = "of_nat (card (marked h s)) :: uintptr" and ?h = "addFreeCapacity (- allocCount s) h"
  note cnt = marked_count [OF sp]
  have pu: "pool_used ?h = pool_used h" and "pool_inv os ?h = pool_inv os h"
    by (rule pool_used_cong pool_inv_cong; simp add: addFreeCapacity_def)+
  then have inv': "pool_inv os ?h" "pool_clean ?h" and pu': "\<And>x. x \<in> pool_used ?h \<longleftrightarrow> x \<in> pool_used h"
    using inv by (simp_all add: pool_clean_def) (simp add: addFreeCapacity_def)
  have m: "mem ?h = mem h" "spans ?h = spans h" "classFree ?h = classFree h" by (simp_all add: addFreeCapacity_def)
  from swapBits_ok [OF inv', of s ?n] sp obtain r s' h1 where st: "swapBits os s ?n ?h = Some (r, s', h1)"
    and same: "spans h1 = spans h" "classFree h1 = classFree h"
    and ok: "r = Inr () \<longrightarrow> span_ok (mem h1) s' \<and> nelems s' = nelems s \<and> classSize s' = classSize s \<and> startAddr s' = startAddr s \<and>
       allocCount s' = nelems s - ?n \<and> span_free (mem h1) s' = marked h s \<and> (\<forall>i < unat (nelems s). \<not> membit (mem h1) (gcmarkBits s') i)"
    unfolding span_spent_def m pu' marked_def by blast
  have F: "freeSpan os i a h = (let h = h1\<lparr>spans := (spans h1)(a \<mapsto> s')\<rparr> in case r of
        Inl e \<Rightarrow> Some (Inl e, h)
      | Inr _ \<Rightarrow> do {
          (first, st) \<leftarrow> list_insert a (classFree h i, spans h);
          Some (Inr (True, ?n * classSize s'), h\<lparr>classFree := (classFree h)(i := first), spans := st\<rparr>)
        })"
  proof -
    have "\<not> allocCount s < nelems s" using sp by (simp add: span_spent_def leD)
    then show ?thesis using a cnt ne st by (simp add: freeSpan_def Let_def)
  qed
  show ?thesis
  proof (cases r)
    case (Inl e)
    then show ?thesis using F same by simp
  next
    case (Inr u)
    let ?S = "(spans h)(a \<mapsto> s')"
    have l: "linked (classFree h i, ?S) xs" using free by (simp add: linked_def chain_upd)
    note ins = list_insert_ok [OF l _ a(2) free(2), of s', simplified]
    let ?t = "s'\<lparr>next_span := classFree h i\<rparr>"
    have "freeSpan os i a h = Some (Inr (True, ?n * classSize s'),
        h1\<lparr>spans := (spans h)(a \<mapsto> ?t), classFree := (classFree h)(i := a)\<rparr>)"
      using F Inr same ins(1) by (simp add: Let_def)
    moreover have "span_ok (mem h1) ?t" "span_free (mem h1) ?t = marked h s"
      using ok Inr by (auto simp: span_ok_def span_free_def cache_at_def)
    ultimately show ?thesis using ok Inr same ins(2) by (auto simp: marked_def)
  qed
qed

subsection \<open>A state for the witnesses\<close>

text \<open>
  One span of 512 objects of eight bytes at 0x50000000, used up, with its objects 0 and 2 marked. Its
  alloc bits are all set, its record is at 0x40000280.
\<close>

definition demo_used_span :: xSpan where
  "demo_used_span =
     \<lparr>classIndex = 1, classSize = 8, startAddr = 0x50000000, npages = 1, freeIndex = 512, extensionPoint = 384,
      nelems = 512, allocCache = 0, allocBits = 0x40000240, gcmarkBits = 0x40000200, span_baseMask = 65528,
      divMul = 1, divShift = 3, divShift2 = 0, allocCount = 512, next_span = 0\<rparr>"

definition demo_mem :: memory where
  "demo_mem = (\<lambda>x. if x = 0x40000200 then Some 5 else if x - 0x40000240 < 64 then Some 255
     else if x - 0x40000000 < 0x20000000 then Some 0 else None)"

definition demo_pool :: xSpanPool where
  "demo_pool = xHeap.extend
     (demo_heap\<lparr>mem := demo_mem, pool_index := 1024, freeCapacity := 200000,
        rawLinear := [0x41000000 \<mapsto> \<lparr>rlm_spans = (\<lambda>_. 0)(0 := 0x40000280)\<rparr>],
        spans := [0x40000280 \<mapsto> demo_used_span]\<rparr>)
     \<lparr>inuse = (\<lambda>_. 0), debug = False, spanGen = (\<lambda>_. 0), classSpans = (\<lambda>_. None), spanFact = (3, 2),
      specialPageNumCoefficient = (\<lambda>_. 0), pending = []\<rparr>"

lemma demo_pool_simps [simp]:
  "mem demo_pool = demo_mem" "pool_index demo_pool = 1024" "freeCapacity demo_pool = 200000"
  "pool_xrm demo_pool = [\<lparr>xrm_addr = 0x40000000, xrm_down = False, xrm_len = 2 ^ 28\<rparr>]" "calls demo_pool = 10"
  "addrMap demo_pool = addrMap demo_heap" "rawLinear demo_pool = [0x41000000 \<mapsto> \<lparr>rlm_spans = (\<lambda>_. 0)(0 := 0x40000280)\<rparr>]"
  "spans demo_pool = [0x40000280 \<mapsto> demo_used_span]" "classFree demo_pool = (\<lambda>_. 0)" "classFull demo_pool = (\<lambda>_. 0)"
  "totalCapacity demo_pool = 0x10000000" "sweepIndex demo_pool = 0" "sweepCtl demo_pool = 0" "sweepLastTime demo_pool = 0"
  "classSpans demo_pool = (\<lambda>_. None)" "spanGen demo_pool = (\<lambda>_. 0)" "pending demo_pool = []" "debug demo_pool = False"
  by (simp_all add: demo_pool_def xHeap.defs demo_heap_treap demo_treap_def demo_full_pool_def raw_pool.defs)

lemma demo_pool_inv: "pool_inv demo_os demo_pool" "pool_clean demo_pool" "pool_used demo_pool = blk 0x40000000 1024"
proof -
  have d: "x - 0x40000000 < 0x20000000" if "x \<in> blk 0x40000000 metadataRawMemoryBytes" for x
    using that by (subst diff_less_iff_blk) auto
  show "pool_used demo_pool = blk 0x40000000 1024" by (simp add: pool_used_def del: mem_blk)
  show "pool_inv demo_os demo_pool"
    using demo_full_pool_inv d by (auto simp: pool_inv_def demo_full_pool_def region_def xrm_ok_def demo_mem_def simp del: mem_blk)
  have "\<not> y - 0x40000240 < (64 :: uintptr)" if "y \<notin> blk 0x40000000 1024" for y
    using that by (subst diff_less_iff_blk) auto
  moreover have "y \<noteq> 0x40000200" if "y \<notin> blk 0x40000000 1024" for y using that by auto
  ultimately show "pool_clean demo_pool"
    using d by (auto simp: pool_clean_def pool_used_def region_def demo_mem_def simp del: mem_blk)
qed

lemma demo_used_span_class: "span_class demo_used_span"
proof -
  have "unat (class_pages 1) = 1"
    by (simp add: class_pages_def class_to_size_def class_to_allocnpages_def Align_def Let_def)
  then show ?thesis
    by (simp add: span_class_def demo_used_span_def setDivMagic_def class_to_divmagic_def divMagicOf_def class_to_size_def Let_def)
qed

lemma demo_pool_bits: "k < 64 \<Longrightarrow> demo_mem (0x40000200 + of_nat k) = Some (if k = 0 then 5 else 0)"
proof -
  assume k: "k < 64"
  then have u: "unat (of_nat k :: uintptr) = k" by (simp add: unat_of_nat)
  then have a: "unat (0x40000200 + of_nat k :: uintptr) = 0x40000200 + k" using k by (subst unat_add_noof) simp_all
  have "0x40000200 + (of_nat k :: uintptr) = 0x40000200 \<longleftrightarrow> k = 0" using a u by (auto simp: word_unat_eq_iff)
  moreover have "\<not> 0x40000200 + of_nat k - 0x40000240 < (64 :: uintptr)"
    using a k by (subst diff_less_iff_blk) auto
  moreover have "0x40000200 + of_nat k - 0x40000000 < (0x20000000 :: uintptr)"
    using a k by (subst diff_less_iff_blk) auto
  ultimately show "demo_mem (0x40000200 + of_nat k) = Some (if k = 0 then 5 else 0)" by (simp add: demo_mem_def)
qed

lemma demo_pool_marks:
  "bitmap demo_mem 0x40000200 16" "marked demo_pool demo_used_span = {0, 2}" "span_spent demo_pool demo_used_span"
proof -
  show bm: "bitmap demo_mem 0x40000200 16" using demo_pool_bits by (auto simp: bitmap_def bytes_at_def)
  have b5: "bit (5 :: uint8) i \<longleftrightarrow> i = 0 \<or> i = 2" for i
    by (auto simp: bit_numeral_rec bit_1_iff split: nat.split)
  have "membit demo_mem 0x40000200 i \<longleftrightarrow> i = 0 \<or> i = 2" if "i < 512" for i
  proof -
    have "i div 8 < 64" using that by simp
    then show ?thesis using demo_pool_bits [of "i div 8"] b5 [of "i mod 8"]
      by (auto simp: membit_def simp del: of_nat_div)
  qed
  then show "marked demo_pool demo_used_span = {0, 2}" by (auto simp: marked_def demo_used_span_def)
  have "0x40000200 + of_nat k \<in> blk 0x40000000 1024" if "k < 64" for k
  proof -
    have "unat (of_nat k :: uintptr) = k" using that by (simp add: unat_of_nat)
    then show ?thesis using that by (simp add: unat_add_noof)
  qed
  then show "span_spent demo_pool demo_used_span" using bm
    by (simp add: span_spent_def demo_used_span_def bitmap_words_def demo_pool_inv del: mem_blk)
qed

subsection \<open>The interface as a state machine\<close>

text \<open>One call of the interface, or one pending goroutine, that runs to its end without a panic.\<close>

inductive mm_step :: "os \<Rightarrow> (nat \<Rightarrow> uint32) \<Rightarrow> 'a xSpanPool_scheme \<Rightarrow> 'a xSpanPool_scheme \<Rightarrow> bool" for os rnd where
  Alloc: "mm_Alloc os rnd n h = Some (r, h') \<Longrightarrow> mm_step os rnd h h'"
| AllocSlice: "mm_AllocSlice os rnd e c l h = Some (r, h') \<Longrightarrow> mm_step os rnd h h'"
| From: "mm_From os rnd bs h = Some (r, h') \<Longrightarrow> mm_step os rnd h h'"
| From2: "mm_From2 os rnd bs cs h = Some (r, h') \<Longrightarrow> mm_step os rnd h h'"
| Copy2: "mm_Copy2 os rnd bs cs h = Some (r, h') \<Longrightarrow> mm_step os rnd h h'"
| FromInAddr: "mm_FromInAddr p css h = Some (r, h') \<Longrightarrow> mm_step os rnd h h'"
| RawAlloc: "mm_RawAlloc os rnd n h = Some (r, h') \<Longrightarrow> mm_step os rnd h h'"
| Free: "mm_Free os rnd t1 t2 p h = Some (r, h') \<Longrightarrow> mm_step os rnd h h'"
| FreeString: "mm_FreeString os rnd t1 t2 s h = Some (r, h') \<Longrightarrow> mm_step os rnd h h'"
| Goroutine: "runPending os rnd i h = Some h' \<Longrightarrow> mm_step os rnd h h'"

inductive_cases mm_stepE: "mm_step os rnd h h'"

text \<open>Everything but the two frees keeps the control state of the collector.\<close>

lemma AllocSlice_gc [gc_frame]: "gc_ctl h = c \<Longrightarrow> keeps snd c (AllocSlice os rnd e n l h)"
  by (auto simp: AllocSlice_def split: sum.split intro!: keeps_all gc_frame)

lemma pool_Copy2_gc [gc_frame]: "gc_ctl h = c \<Longrightarrow> keeps snd c (pool_Copy2 os rnd bs cs h)"
  by (auto simp: pool_Copy2_def Let_def split: sum.split if_split intro!: keeps_all gc_frame)

lemma sa_From2_gc [gc_frame]: "gc_ctl h = c \<Longrightarrow> keeps snd c (sa_From2 os rnd bs cs h)"
  by (auto simp: sa_From2_def Let_def split: sum.split if_split intro!: keeps_all gc_frame)

lemma sa_From_gc [gc_frame]: "gc_ctl h = c \<Longrightarrow> keeps snd c (sa_From os rnd bs h)"
  by (auto simp: sa_From_def Let_def split: sum.split intro!: keeps_all gc_frame)

lemma sa_FromInAddr_gc [gc_frame]: "gc_ctl h = c \<Longrightarrow> keeps snd c (sa_FromInAddr p css h)"
  by (auto simp: sa_FromInAddr_def keeps_def)

lemma mm_RawAlloc_gc [gc_frame]: "gc_ctl h = c \<Longrightarrow> keeps snd c (mm_RawAlloc os rnd n h)"
  by (auto simp: mm_RawAlloc_def split: sum.split if_split intro!: keeps_all gc_frame)

lemma runPending_gc [gc_frame]: "gc_ctl h = c \<Longrightarrow> keeps (\<lambda>h. h) c (runPending os rnd i h)"
  by (auto simp: runPending_def Let_def split: prod.split if_split intro!: keeps_map gc_frame)

lemma mm_step_gc:
  assumes "mm_step os rnd h h'"
  shows "gc_ctl h' = gc_ctl h \<or> (\<exists>t1 t2 p r. heap_free os rnd t1 t2 p h = Some (r, h'))"
  using assms
proof cases
  case (Goroutine i)
  then show ?thesis using keepsD [OF runPending_gc [OF refl] Goroutine] by simp
qed (auto simp: mm_Alloc_def mm_AllocSlice_def mm_From_def mm_From2_def mm_Copy2_def mm_FromInAddr_def mm_Free_def
    mm_FreeString_def sa_FreeString_def pool_Free_def split: if_splits
    dest: keepsD [OF pool_Alloc_gc [OF refl]] keepsD [OF AllocSlice_gc [OF refl]] keepsD [OF sa_From_gc [OF refl]]
      keepsD [OF sa_From2_gc [OF refl]] keepsD [OF pool_Copy2_gc [OF refl]] keepsD [OF sa_FromInAddr_gc [OF refl]]
      keepsD [OF mm_RawAlloc_gc [OF refl]])

subsection \<open>A collector that stops\<close>

text \<open>The collector is done: no class is left to be swept.\<close>

definition gc_done :: "'a xHeap_scheme \<Rightarrow> bool" where
  "gc_done h \<longleftrightarrow> NumSizeClasses \<le> unat (sweepIndex h)"

lemma needSweep_ctl: "needSweep t h = (b, h') \<Longrightarrow> \<exists>ctl. h' = h\<lparr>sweepCtl := ctl\<rparr>"
proof -
  have e: "h = h\<lparr>sweepCtl := sweepCtl h\<rparr>" by simp
  have "snd (needSweep t h) = h \<or> snd (needSweep t h) = h\<lparr>sweepCtl := sweepCtl h + 1\<rparr> \<or>
    snd (needSweep t h) = h\<lparr>sweepCtl := sweepCtlStatus\<rparr>"
    unfolding needSweep_def by (simp only: snd_conv split: if_split) blast
  then show "needSweep t h = (b, h') \<Longrightarrow> \<exists>ctl. h' = h\<lparr>sweepCtl := ctl\<rparr>" using e by (metis snd_conv)
qed

lemma sweep_done:
  assumes "gc_done h"
  shows "\<exists>ctl t. sweep os rnd t1 t2 h = Some (h\<lparr>sweepCtl := ctl, sweepLastTime := t\<rparr>)"
proof -
  obtain b h1 where n: "needSweep t1 h = (b, h1)" by (cases "needSweep t1 h")
  then obtain ctl where h1: "h1 = h\<lparr>sweepCtl := ctl\<rparr>" using needSweep_ctl by blast
  have z: "sweepRounds (sweepIndex h) = 0" using assms by (simp add: sweepRounds_def gc_done_def)
  show ?thesis
  proof (cases b)
    case True
    then show ?thesis
      by (intro exI [of _ ctl] exI [of _ t2]) (simp add: sweep_def n z h1 Let_def)
  next
    case False
    then show ?thesis
      by (intro exI [of _ ctl] exI [of _ "sweepLastTime h"]) (simp add: sweep_def n h1)
  qed
qed

lemma heap_free_done:
  assumes "gc_done h" and "heap_free os rnd t1 t2 p h = Some (r, h')"
  shows "\<exists>f m ctl t. h' = h\<lparr>freeCapacity := f, mem := m, sweepCtl := ctl, sweepLastTime := t\<rparr>"
proof -
  obtain e h1 where mk: "heap_mark p h = Some (e, h1)" using assms(2) by (auto simp: heap_free_def)
  have "\<exists>m f. h1 = h\<lparr>freeCapacity := f, mem := m\<rparr>"
  proof -
    obtain q where q: "spanOf p h = Some q" using mk by (auto simp: heap_mark_def markBitsForAddr_def)
    show ?thesis
    proof (cases q)
      case (Inl x)
      then have "h1 = h" using mk q by (simp add: heap_mark_def markBitsForAddr_def)
      then show ?thesis by (intro exI [of _ "mem h"] exI [of _ "freeCapacity h"]) simp
    next
      case (Inr a)
      then show ?thesis using mk q
        by (auto simp: heap_mark_def markBitsForAddr_def setMarkBitsForIndex_def addFreeCapacity_def Let_def split: if_splits)
    qed
  qed
  then obtain m f where h1: "h1 = h\<lparr>freeCapacity := f, mem := m\<rparr>" by blast
  have "gc_done h1" using assms(1) by (simp add: h1 gc_done_def)
  from sweep_done [OF this, of os rnd t1 t2] obtain ctl t where
    sw: "sweep os rnd t1 t2 h1 = Some (h1\<lparr>sweepCtl := ctl, sweepLastTime := t\<rparr>)" by blast
  show ?thesis
  proof (cases e)
    case (Inl x)
    then have "h' = h1" using assms(2) mk by (simp add: heap_free_def)
    then show ?thesis unfolding h1
      by (intro exI [of _ m] exI [of _ f] exI [of _ "sweepCtl h"] exI [of _ "sweepLastTime h"]) simp
  next
    case (Inr u)
    then have "h' = h1\<lparr>sweepCtl := ctl, sweepLastTime := t\<rparr>" using assms(2) mk sw by (simp add: heap_free_def)
    then show ?thesis unfolding h1 by blast
  qed
qed

lemma mm_step_done: "mm_step os rnd h h' \<Longrightarrow> gc_done h \<Longrightarrow> gc_done h'"
  using mm_step_gc heap_free_done by (fastforce simp: gc_done_def gc_ctl_def)

lemma mm_steps_done: "(mm_step os rnd)\<^sup>*\<^sup>* h h' \<Longrightarrow> gc_done h \<Longrightarrow> gc_done h'"
  by (induction rule: rtranclp_induct) (auto intro: mm_step_done)

text \<open>A sweep that gives back nothing leaves the collector done.\<close>

lemma barren_sweep_done:
  assumes "needSweep t1 h = (True, h0)" and "sweepClasses os rnd (sweepRounds (sweepIndex h0)) 0 h0 = Some (0, h1)"
    and "sweep os rnd t1 t2 h = Some h'"
  shows "gc_done h'"
proof -
  have "h' = h1\<lparr>sweepLastTime := t2\<rparr>" using assms by (simp add: sweep_def Let_def)
  moreover have "sweepIndex h1 = sweepIndex h0 + of_nat (NumSizeClasses - unat (sweepIndex h0))"
    using sweepClasses_index [OF assms(2)] by (simp add: sweepRounds_def)
  moreover have "NumSizeClasses \<le> unat (i + of_nat (NumSizeClasses - unat i))" for i :: uint32
  proof (cases "unat i \<le> NumSizeClasses")
    case True
    then have "i + of_nat (NumSizeClasses - unat i) = of_nat (unat i + (NumSizeClasses - unat i))" by simp
    also have "\<dots> = of_nat NumSizeClasses" using True by (simp del: of_nat_add)
    finally show ?thesis by simp
  qed simp
  ultimately show ?thesis by (simp add: gc_done_def)
qed

subsection \<open>Properties\<close>

lemma demo_pool_spanOf: "spanOf 0x50000013 demo_pool = Some (Inr 0x40000280)"
proof (rule spanOf_page)
  show "tables_ok demo_pool" by (simp add: tables_ok_def)
  show "page_span demo_pool (unat (0x50000013 :: uintptr) div 4096) = Some 0x40000280" by (simp add: page_span_def table_of_def)
qed simp



text \<open>
  C9: freeSpan gives a used-up span back to its class when some of its objects are marked: unless the
  pool has no memory left, the span goes to the front of the free list, its free objects are just
  the marked ones, nothing is marked any more, and it is fit to serve requests again.
\<close>
theorem freeSpan_recycles:
  assumes "pool_inv os h" and "pool_clean h" and "spans h a = Some s" and "a \<noteq> 0" and "span_spent h s"
    and "marked h s \<noteq> {}" and "linked (classFree h i, spans h) xs" and "a \<notin> set xs"
  shows "\<exists>r h'. freeSpan os i a h = Some (r, h') \<and>
    (case r of Inl e \<Rightarrow> classFree h' = classFree h
     | Inr (swapped, sz) \<Rightarrow> swapped \<and> sz = of_nat (card (marked h s)) * classSize s \<and>
         linked (classFree h' i, spans h') (a # xs) \<and> (\<forall>j. j \<noteq> i \<longrightarrow> classFree h' j = classFree h j) \<and>
         (\<exists>s'. spans h' a = Some s' \<and> span_ok (mem h') s' \<and> span_free (mem h') s' = marked h s \<and> marked h' s' = {} \<and>
            startAddr s' = startAddr s \<and> classSize s' = classSize s \<and> nelems s' = nelems s \<and>
            allocCount s' = nelems s - of_nat (card (marked h s))) \<and>
         (\<forall>b. b \<noteq> a \<longrightarrow> spans h' b = spans h b))"
  using freeSpan_ok [OF assms] .

theorem freeSpan_recycles_witness:
  "\<exists>r h'. freeSpan demo_os 1 0x40000280 demo_pool = Some (r, h') \<and>
     (\<forall>w sz. r = Inr (w, sz) \<longrightarrow> sz = 16 \<and> (\<exists>s'. spans h' 0x40000280 = Some s' \<and> span_free (mem h') s' = {0, 2}))"
proof -
  have s: "spans demo_pool 0x40000280 = Some demo_used_span" "(0x40000280 :: uintptr) \<noteq> 0" by simp_all
  have l: "linked (classFree demo_pool 1, spans demo_pool) []" "(0x40000280 :: uintptr) \<notin> set []" by (simp_all add: linked_def)
  have "marked demo_pool demo_used_span \<noteq> {}" by (simp add: demo_pool_marks)
  from freeSpan_recycles [OF demo_pool_inv(1,2) s demo_pool_marks(3) this l]
  obtain r h' where "freeSpan demo_os 1 0x40000280 demo_pool = Some (r, h')"
    "case r of Inl e \<Rightarrow> classFree h' = classFree demo_pool
     | Inr (swapped, sz) \<Rightarrow> sz = of_nat (card (marked demo_pool demo_used_span)) * classSize demo_used_span \<and>
         (\<exists>s'. spans h' 0x40000280 = Some s' \<and> span_free (mem h') s' = marked demo_pool demo_used_span)"
    by (force split: sum.splits)
  then show ?thesis unfolding demo_pool_marks(2) by (cases r) (auto simp: demo_used_span_def)
qed

text \<open>
  C16: After one sweep that gave nothing back, the collector is off for good: whatever calls of the
  interface follow, in whatever order, a later free still flips its mark bit but never again gives
  a span or a chunk back, since no class is left to sweep and only a sweep that gave something
  back starts over.
\<close>
theorem barren_sweep_stops_collector:
  assumes "needSweep t1 h = (True, h0)" and "sweepClasses os rnd (sweepRounds (sweepIndex h0)) 0 h0 = Some (0, h1)"
    and "sweep os rnd t1 t2 h = Some h2" and "(mm_step os rnd)\<^sup>*\<^sup>* h2 g"
    and "mm_Free os rnd u1 u2 p g = Some (r, g')"
  shows "\<exists>f m ctl t. g' = g\<lparr>freeCapacity := f, mem := m, sweepCtl := ctl, sweepLastTime := t\<rparr>"
proof (cases "p < 1")
  case True
  then have "g' = g" using assms(5) by (simp add: mm_Free_def)
  then show ?thesis
    by (intro exI [of _ "freeCapacity g"] exI [of _ "mem g"] exI [of _ "sweepCtl g"] exI [of _ "sweepLastTime g"]) simp
next
  case False
  have "gc_done g" using mm_steps_done [OF assms(4) barren_sweep_done [OF assms(1-3)]] .
  moreover have "heap_free os rnd u1 u2 p g = Some (r, g')" using assms(5) False by (simp add: mm_Free_def pool_Free_def)
  ultimately show ?thesis using heap_free_done by blast
qed

lemma sweepClasses_empty:
  "classFull h = (\<lambda>_. 0) \<Longrightarrow> sweepClasses os rnd k tot h = Some (tot, h\<lparr>sweepIndex := sweepIndex h + of_nat k\<rparr>)"
  by (induction k arbitrary: h) (simp_all add: Let_def sweepList.simps [of _ _ _ 0])

lemma demo_floats: "sweepThreshold 0x10000000 = 0x10000000 * 7378697629483821" "float53 200000 = 200000"
  by (simp_all add: sweepThreshold_def float53_def round53_def Let_def)

lemma demo_pool_need: "needSweep 2000000000 demo_pool = (True, demo_pool\<lparr>sweepCtl := sweepCtlStatus\<rparr>)"
  by (simp add: needSweep_def demo_floats)

lemma demo_pool_barren:
  "sweepClasses os rnd (sweepRounds 0) 0 (demo_pool\<lparr>sweepCtl := sweepCtlStatus\<rparr>)
     = Some (0, demo_pool\<lparr>sweepCtl := sweepCtlStatus, sweepIndex := 67\<rparr>)"
  by (simp add: sweepClasses_empty sweepRounds_def)

lemma demo_pool_sweep:
  "sweep os rnd 2000000000 2000000000 demo_pool
     = Some (demo_pool\<lparr>sweepCtl := sweepCtlStatus, sweepIndex := 67, sweepLastTime := 2000000000\<rparr>)"
  by (simp add: sweep_def demo_pool_need demo_pool_barren)

theorem barren_sweep_stops_collector_witness:
  "\<exists>h2 g'. sweep demo_os (\<lambda>_. 3) 2000000000 2000000000 demo_pool = Some h2 \<and>
     mm_Free demo_os (\<lambda>_. 3) 4000000000 4000000000 0x50000013 h2 = Some (Inr (), g') \<and>
     spans g' = spans demo_pool \<and> classFree g' = classFree demo_pool \<and> treap g' = treap demo_pool"
proof -
  let ?h = "demo_pool\<lparr>sweepCtl := sweepCtlStatus, sweepIndex := 67, sweepLastTime := 2000000000\<rparr>"
  have s: "spans ?h 0x40000280 = Some demo_used_span" by simp
  have o: "0x50000013 \<in> obj_addrs demo_used_span 2" "2 < unat (nelems demo_used_span)" by (simp_all add: obj_addrs_def demo_used_span_def)
  have b: "bitmap (mem ?h) (gcmarkBits demo_used_span) (bitmap_words (nelems demo_used_span))"
    using demo_pool_marks(1) by (simp add: demo_used_span_def bitmap_words_def)
  have "spanOf 0x50000013 ?h = Some (Inr 0x40000280)" 
    using same_pages_spanOf [of demo_pool ?h] demo_pool_spanOf by (simp add: same_pages_def)
  from heap_mark_obj [OF this _ s demo_used_span_class b o(2,1)] obtain m where
    m: "heap_mark 0x50000013 ?h = Some (Inr (), ?h\<lparr>freeCapacity := freeCapacity ?h + classSize demo_used_span, mem := m\<rparr>)" by auto
  have "gc_done (?h\<lparr>freeCapacity := freeCapacity ?h + classSize demo_used_span, mem := m\<rparr>)" by (simp add: gc_done_def)
  from sweep_done [OF this, of demo_os "\<lambda>_. 3" 4000000000 4000000000] m obtain g' where
    g: "mm_Free demo_os (\<lambda>_. 3) 4000000000 4000000000 0x50000013 ?h = Some (Inr (), g')"
    by (auto simp: mm_Free_def pool_Free_def heap_free_def)
  have "sweepRounds (sweepIndex (demo_pool\<lparr>sweepCtl := sweepCtlStatus\<rparr>)) = sweepRounds 0" by simp
  from barren_sweep_stops_collector [OF demo_pool_need demo_pool_barren [folded this] demo_pool_sweep rtranclp.rtrancl_refl g]
  obtain f n ctl t where "g' = ?h\<lparr>freeCapacity := f, mem := n, sweepCtl := ctl, sweepLastTime := t\<rparr>" by blast
  then show ?thesis using g demo_pool_sweep [of demo_os "\<lambda>_. 3"] by (intro exI [of _ ?h] exI [of _ g']) simp
qed

text \<open>
  C34: What Free does with an address that is not of a live object: nil and an address above the tables
  are refused, one of a region that was never mapped too, and the state is unchanged; but an
  address of a page that belongs to no span is not refused, the call dereferences nil and panics.
\<close>
theorem free_wild_address:
  assumes "tables_ok h"
  shows "mm_Free os rnd t1 t2 0 h = Some (Inl NilError, h) \<and>
    (p \<noteq> 0 \<and> RawMemoryL2 \<le> RawMemoryIndex p \<longrightarrow> mm_Free os rnd t1 t2 p h = Some (Inl ErrL2, h)) \<and>
    (p \<noteq> 0 \<and> unat p < 2 ^ 47 \<and> addrMap h \<noteq> None \<and> table_of h (unat p div 4096) = 0 \<longrightarrow>
      mm_Free os rnd t1 t2 p h = Some (Inl ErrL2Nil, h)) \<and>
    (p \<noteq> 0 \<and> unat p < 2 ^ 47 \<and> page_span h (unat p div 4096) = Some 0 \<longrightarrow> mm_Free os rnd t1 t2 p h = None)"
proof (intro conjI impI; (elim conjE)?)
  have pos: "\<not> p < 1" if "p \<noteq> 0" using that by simp
  note unf = mm_Free_def pool_Free_def heap_free_def heap_mark_def markBitsForAddr_def
  show "mm_Free os rnd t1 t2 0 h = Some (Inl NilError, h)" by (simp add: mm_Free_def)
  show "mm_Free os rnd t1 t2 p h = Some (Inl ErrL2, h)" if "p \<noteq> 0" "RawMemoryL2 \<le> RawMemoryIndex p"
    using that pos by (simp add: unf spanOf_def idx_l2_def)
  show "mm_Free os rnd t1 t2 p h = Some (Inl ErrL2Nil, h)"
    if "p \<noteq> 0" "unat p < 2 ^ 47" "addrMap h \<noteq> None" "table_of h (unat p div 4096) = 0"
    using that pos addr_entry_page [OF that(2,3)] RawMemoryIndex_page(2) [OF that(2)]
    by (simp add: unf spanOf_def idx_l2_def Let_def not_le)
  show "mm_Free os rnd t1 t2 p h = None" if "p \<noteq> 0" "unat p < 2 ^ 47" "page_span h (unat p div 4096) = Some 0"
    using that pos spanOf_page [OF assms that(2,3)] by (simp add: unf)
qed

theorem free_wild_address_witness:
  "mm_Free demo_os (\<lambda>_. 3) 0 0 0x10000000 demo_pool = Some (Inl ErrL2Nil, demo_pool) \<and>
   mm_Free demo_os (\<lambda>_. 3) 0 0 0x50001000 demo_pool = None"
proof -
  have t: "tables_ok demo_pool" by (simp add: tables_ok_def)
  have "table_of demo_pool (unat (0x10000000 :: uintptr) div 4096) = 0"
    "page_span demo_pool (unat (0x50001000 :: uintptr) div 4096) = Some 0" by (simp_all add: table_of_def page_span_def)
  then show ?thesis
    using free_wild_address [OF t, of demo_os "\<lambda>_. 3" 0 0 "0x10000000"] free_wild_address [OF t, of demo_os "\<lambda>_. 3" 0 0 "0x50001000"] by simp
qed

end
