(* ===== verification/Objects.thy ===== *)
theory Objects
  imports Collector
begin

text \<open>
  Objects and their contents: what Alloc returns while a span has room, the header AllocSlice writes,
  and the strings of FromInAddr as a Go program reads them back. Words are read and written byte by
  byte in the memory of the process; the lemmas say which addresses a store changes.
\<close>

subsection \<open>Words and strings in memory\<close>

definition load64 :: "memory \<Rightarrow> uintptr \<Rightarrow> uint64 option" where
  "load64 m a = do {
     lo \<leftarrow> load32 m a;
     hi \<leftarrow> load32 m (a + 4);
     Some (ucast lo OR push_bit 32 (ucast hi))
   }"

text \<open>All addresses from \<open>a\<close> on, \<open>n\<close> of them, are mapped, and there is no wrap-around.\<close>

definition mapped :: "memory \<Rightarrow> nat \<Rightarrow> nat \<Rightarrow> bool" where
  "mapped m a n \<longleftrightarrow> a + n \<le> 2 ^ 64 \<and> (\<forall>x. a \<le> unat x \<and> unat x < a + n \<longrightarrow> m x \<noteq> None)"

text \<open>\<open>m'\<close> is \<open>m\<close> but for \<open>n\<close> bytes from \<open>a\<close> on.\<close>

definition changes :: "memory \<Rightarrow> memory \<Rightarrow> nat \<Rightarrow> nat \<Rightarrow> bool" where
  "changes m m' a n \<longleftrightarrow> dom m' = dom m \<and> (\<forall>x. unat x < a \<or> a + n \<le> unat x \<longrightarrow> m' x = m x)"

lemma changes_trans: "changes m m1 a n \<Longrightarrow> changes m1 m2 b k \<Longrightarrow> c \<le> a \<Longrightarrow> c \<le> b \<Longrightarrow> a + n \<le> d \<Longrightarrow> b + k \<le> d \<Longrightarrow>
    changes m m2 c (d - c)"
  unfolding changes_def by auto

lemma mapped_changes: "mapped m a n \<Longrightarrow> changes m m' b k \<Longrightarrow> mapped m' a n"
  unfolding mapped_def changes_def by (metis domIff)

lemma mapped_sub: "mapped m a n \<Longrightarrow> a \<le> b \<Longrightarrow> b + k \<le> a + n \<Longrightarrow> mapped m b k"
  unfolding mapped_def by auto

lemma unat_offset: "unat a + k < 2 ^ 64 \<Longrightarrow> unat (a + of_nat k :: uintptr) = unat a + k"
proof -
  assume a: "unat a + k < 2 ^ 64"
  then have "unat (of_nat k :: uintptr) = k" by (simp add: unat_of_nat)
  then show ?thesis using a by (simp add: unat_add_noof)
qed

lemma mapped_at: "mapped m (unat a) n \<Longrightarrow> k < n \<Longrightarrow> m (a + of_nat k) \<noteq> None"
  using unat_offset [of a k] unfolding mapped_def by auto

lemma store32_ok:
  assumes "mapped m (unat a) 4"
  shows "\<exists>m'. store32 m a v = Some m' \<and> load32 m' a = Some v \<and> changes m m' (unat a) 4"
proof -
  have b: "bytes_at m a 4" using mapped_at [OF assms] by (auto simp: bytes_at_def)
  from store32_some [OF b, of v] obtain m' where m': "store32 m a v = Some m'" "\<forall>j < 32. membit m' a j = bit v j"
    "\<forall>x. x - a \<ge> 4 \<longrightarrow> m' x = m x" "dom m' = dom m" by blast
  have "bytes_at m' a 4" using b m'(4) by (auto intro: bytes_at_dom)
  then have "load32 m' a = Some v" using m'(2) by (simp add: load32_iff)
  moreover have "x - a \<ge> 4" if "unat x < unat a \<or> unat a + 4 \<le> unat x" for x
  proof -
    have "unat a + unat (4 :: uintptr) \<le> 2 ^ 64" using assms by (simp add: mapped_def)
    from diff_less_iff_blk [OF this, of x] show ?thesis using that by (auto simp: not_le [symmetric])
  qed
  ultimately show ?thesis using m' by (auto simp: changes_def)
qed

lemma load32_changes: "changes m m' b k \<Longrightarrow> mapped m (unat a) 4 \<Longrightarrow> unat a + 4 \<le> b \<or> b + k \<le> unat a \<Longrightarrow> load32 m' a = load32 m a"
proof -
  assume c: "changes m m' b k" and m: "mapped m (unat a) 4" and s: "unat a + 4 \<le> b \<or> b + k \<le> unat a"
  have "m' (a + of_nat i) = m (a + of_nat i)" if "i < 4" for i
  proof -
    have "unat (a + of_nat i) = unat a + i" using m that by (intro unat_offset) (simp add: mapped_def)
    then show ?thesis using c s that by (auto simp: changes_def)
  qed
  from this [of 0] this [of 1] this [of 2] this [of 3] show ?thesis by (simp add: load32_def)
qed

lemma word_halves: "(ucast (ucast v :: uint32) OR push_bit 32 (ucast (ucast (drop_bit 32 v) :: uint32)) :: uint64) = v"
  by (rule bit_word_eqI) (auto simp: bit_simps)

lemma store64_ok:
  assumes "mapped m (unat a) 8"
  shows "\<exists>m'. store64 m a v = Some m' \<and> load64 m' a = Some v \<and> changes m m' (unat a) 8"
proof -
  have a4: "unat (a + 4) = unat a + 4" using unat_offset [of a 4] assms by (simp add: mapped_def)
  have "mapped m (unat a) 4" using assms by (rule mapped_sub) simp_all
  from store32_ok [OF this, of "ucast v"] obtain m1 where m1: "store32 m a (ucast v) = Some m1" "load32 m1 a = Some (ucast v)"
    "changes m m1 (unat a) 4" by blast
  have mp: "mapped m1 (unat a) 8" using mapped_changes [OF assms m1(3)] .
  then have "mapped m1 (unat (a + 4)) 4" unfolding a4 by (rule mapped_sub) simp_all
  from store32_ok [OF this, of "ucast (drop_bit 32 v)"] obtain m2 where m2: "store32 m1 (a + 4) (ucast (drop_bit 32 v)) = Some m2"
    "load32 m2 (a + 4) = Some (ucast (drop_bit 32 v))" "changes m1 m2 (unat a + 4) 4" unfolding a4 by blast
  have "mapped m1 (unat a) 4" using mp by (rule mapped_sub) simp_all
  then have "load32 m2 a = Some (ucast v)" using load32_changes [OF m2(3)] m1(2) by simp
  then have "load64 m2 a = Some v" using m2(2) word_halves by (simp add: load64_def)
  moreover have "changes m m2 (unat a) 8" using changes_trans [OF m1(3) m2(3), of "unat a" "unat a + 8"] by simp
  ultimately show ?thesis using m1(1) m2(1) by (auto simp: store64_def)
qed

lemma load64_changes:
  assumes "changes m m' b k" and "mapped m (unat a) 8" and "unat a + 8 \<le> b \<or> b + k \<le> unat a"
  shows "load64 m' a = load64 m a"
proof -
  have a4: "unat (a + 4) = unat a + 4" using unat_offset [of a 4] assms(2) by (simp add: mapped_def)
  have "load32 m' a = load32 m a" using assms mapped_sub [OF assms(2), of "unat a" 4] by (intro load32_changes) auto
  moreover have "load32 m' (a + 4) = load32 m (a + 4)"
    using assms mapped_sub [OF assms(2), of "unat a + 4" 4] by (intro load32_changes) (auto simp: a4)
  ultimately show ?thesis by (simp add: load64_def)
qed

lemma storeBytes_ok:
  "mapped m (unat a) (length bs) \<Longrightarrow>
    \<exists>m'. storeBytes m a bs = Some m' \<and> changes m m' (unat a) (length bs) \<and> (\<forall>i < length bs. m' (a + of_nat i) = Some (bs ! i))"
proof (induction bs arbitrary: m a)
  case Nil
  then show ?case by (simp add: changes_def)
next
  case (Cons b bs)
  let ?m = "m(a \<mapsto> b)"
  have a: "m a \<noteq> None" using mapped_at [OF Cons.prems, of 0] by simp
  have c1: "changes m ?m (unat a) 1" using a by (auto simp: changes_def)
  show ?case
  proof (cases bs)
    case Nil
    then show ?thesis using a c1 by simp
  next
    case (Cons c cs)
    have a1: "unat (a + 1) = unat a + 1" using unat_offset [of a 1] Cons.prems Cons by (simp add: mapped_def)
    have "mapped ?m (unat (a + 1)) (length bs)"
      using mapped_changes [OF Cons.prems c1] unfolding a1 by (rule mapped_sub) simp_all
    from Cons.IH [OF this] obtain m' where m': "storeBytes ?m (a + 1) bs = Some m'" "changes ?m m' (unat a + 1) (length bs)"
      "\<forall>i < length bs. m' (a + 1 + of_nat i) = Some (bs ! i)" unfolding a1 by blast
    have "changes m m' (unat a) (length (b # bs))"
      using changes_trans [OF c1 m'(2), of "unat a" "unat a + length (b # bs)"] by simp
    moreover have "m' a = Some b" using m'(2) by (simp add: changes_def)
    then have "m' (a + of_nat i) = Some ((b # bs) ! i)" if "i < length (b # bs)" for i
      using m'(3) that by (cases i) (auto simp: add.assoc)
    ultimately show ?thesis using a m'(1) by simp
  qed
qed

subsection \<open>Strings\<close>

text \<open>What a Go program sees behind a string header at \<open>p\<close> whose bytes follow it.\<close>

definition string_at :: "memory \<Rightarrow> uintptr \<Rightarrow> uint8 list \<Rightarrow> bool" where
  "string_at m p bs \<longleftrightarrow> load64 m p = Some (p + 16) \<and> load64 m (p + 8) = Some (of_nat (length bs)) \<and>
     (\<forall>i < length bs. m (p + 16 + of_nat i) = Some (bs ! i))"

fun strings_size :: "uint8 list list \<Rightarrow> nat" where
  "strings_size [] = 0"
| "strings_size (bs # css) = 16 + length bs + strings_size css"

lemma string_at_changes:
  assumes "string_at m p bs" and "changes m m' b k" and "mapped m (unat p) (16 + length bs)"
    and "unat p + 16 + length bs \<le> b"
  shows "string_at m' p bs"
proof -
  have at: "unat (p + of_nat i) = unat p + i" if "i < 16 + length bs" for i
    using assms(3) that by (intro unat_offset) (simp add: mapped_def)
  have 8: "unat (p + 8) = unat p + 8" using at [of 8] by simp
  have "load64 m' p = load64 m p" "load64 m' (p + 8) = load64 m (p + 8)"
    using assms(4) mapped_sub [OF assms(3), of "unat p" 8] mapped_sub [OF assms(3), of "unat p + 8" 8]
    by (intro load64_changes [OF assms(2)]; simp add: 8)+
  moreover have "m' (p + 16 + of_nat i) = m (p + 16 + of_nat i)" if "i < length bs" for i
  proof -
    have "unat (p + 16 + of_nat i) = unat p + (16 + i)" using at [of "16 + i"] that by (simp add: add.assoc)
    then show ?thesis using assms(2,4) that by (simp add: changes_def)
  qed
  ultimately show ?thesis using assms(1) by (simp add: string_at_def)
qed

lemma stringsInAddr_ok:
  "mapped m (unat off) (strings_size css) \<Longrightarrow>
    \<exists>ps m'. stringsInAddr off css m = Some (ps, m') \<and> list_all2 (string_at m') ps css \<and>
      changes m m' (unat off) (strings_size css)"
proof (induction css arbitrary: m off)
  case Nil
  then show ?case by (simp add: changes_def)
next
  case (Cons bs css)
  let ?N = "strings_size (bs # css)" and ?n = "16 + length bs"
  have at: "unat (off + of_nat i) = unat off + i" if "i < ?N" for i
    using Cons.prems that by (intro unat_offset) (simp add: mapped_def)
  have o8: "unat (off + 8) = unat off + 8" using at [of 8] by simp
  have mp: "mapped m (unat off) ?N" by (rule Cons.prems)
  then have "mapped m (unat (off + 8)) 8" unfolding o8 by (rule mapped_sub) simp_all
  from store64_ok [OF this, of "of_nat (length bs)"] obtain m1 where
    m1: "store64 m (off + 8) (of_nat (length bs)) = Some m1" "load64 m1 (off + 8) = Some (of_nat (length bs))"
    "changes m m1 (unat off + 8) 8" unfolding o8 by blast
  have mp1: "mapped m1 (unat off) ?N" using mapped_changes [OF mp m1(3)] .
  then have "mapped m1 (unat off) 8" by (rule mapped_sub) simp_all
  from store64_ok [OF this, of "off + 16"] obtain m2 where
    m2: "store64 m1 off (off + 16) = Some m2" "load64 m2 off = Some (off + 16)" "changes m1 m2 (unat off) 8" by blast
  have mp2: "mapped m2 (unat off) ?N" using mapped_changes [OF mp1 m2(3)] .
  have "mapped m1 (unat (off + 8)) 8" using mp1 unfolding o8 by (rule mapped_sub) simp_all
  then have l2: "load64 m2 (off + 8) = Some (of_nat (length bs))" using load64_changes [OF m2(3)] m1(2) o8 by simp
  have "\<exists>m3. storeBytes m2 (off + 16) bs = Some m3 \<and> changes m2 m3 (unat off + 16) (length bs) \<and>
    (\<forall>i < length bs. m3 (off + 16 + of_nat i) = Some (bs ! i))"
  proof (cases "bs = []")
    case True
    then show ?thesis by (simp add: changes_def)
  next
    case False
    then have o16: "unat (off + 16) = unat off + 16" using at [of 16] by simp
    have "mapped m2 (unat (off + 16)) (length bs)" using mp2 unfolding o16 by (rule mapped_sub) simp_all
    from storeBytes_ok [OF this] show ?thesis unfolding o16 .
  qed
  then obtain m3 where m3: "storeBytes m2 (off + 16) bs = Some m3" "changes m2 m3 (unat off + 16) (length bs)"
    "\<forall>i < length bs. m3 (off + 16 + of_nat i) = Some (bs ! i)" by blast
  have mp3: "mapped m3 (unat off) ?N" using mapped_changes [OF mp2 m3(2)] .
  have "mapped m2 (unat (off + 8)) 8" "mapped m2 (unat off) 8" using mp2 unfolding o8 by (rule mapped_sub; simp)+
  then have "load64 m3 off = Some (off + 16)" "load64 m3 (off + 8) = Some (of_nat (length bs))"
    using load64_changes [OF m3(2)] m2(2) l2 o8 by simp_all
  then have s3: "string_at m3 off bs" using m3(3) by (simp add: string_at_def)
  have "changes m m2 (unat off) 16" using changes_trans [OF m1(3) m2(3), of "unat off" "unat off + 16"] by simp
  from changes_trans [OF this m3(2), of "unat off" "unat off + ?n"] have c3: "changes m m3 (unat off) ?n" by simp
  have step: "stringsInAddr off (bs # css) m
    = map_option (\<lambda>(ps, m). (off # ps, m)) (stringsInAddr (off + 16 + of_nat (length bs)) css m3)"
    using m1(1) m2(1) m3(1) by simp
  show ?case
  proof (cases css)
    case Nil
    then show ?thesis using step s3 c3 by (simp del: stringsInAddr.simps(2))
  next
    case (Cons d ds)
    have on: "unat (off + 16 + of_nat (length bs)) = unat off + ?n" using at [of ?n] Cons by (simp add: add.assoc)
    have "mapped m3 (unat (off + 16 + of_nat (length bs))) (strings_size css)" using mp3 unfolding on by (rule mapped_sub) simp_all
    from Cons.IH [OF this] obtain ps m' where R: "stringsInAddr (off + 16 + of_nat (length bs)) css m3 = Some (ps, m')"
      "list_all2 (string_at m') ps css" "changes m3 m' (unat off + ?n) (strings_size css)" unfolding on by blast
    have "mapped m3 (unat off) ?n" using mp3 by (rule mapped_sub) simp_all
    then have "string_at m' off bs" using string_at_changes [OF s3 R(3)] by simp
    moreover have "changes m m' (unat off) ?N" using changes_trans [OF c3 R(3), of "unat off" "unat off + ?N"] by simp
    ultimately show ?thesis using step R by (simp del: stringsInAddr.simps(2))
  qed
qed

subsection \<open>Allocation from a span\<close>

text \<open>The bit map of the free objects is not in the pages of the objects.\<close>

definition bits_apart :: "xSpan \<Rightarrow> bool" where
  "bits_apart s \<longleftrightarrow> (\<forall>k < 4 * bitmap_words (nelems s). \<forall>i < unat (nelems s). allocBits s + of_nat k \<notin> obj_addrs s i)"

lemma span_ok_mem:
  assumes "\<forall>k < 4 * bitmap_words (nelems s). m' (allocBits s + of_nat k) = m (allocBits s + of_nat k)"
  shows "span_ok m' s = span_ok m s" and "span_free m' s = span_free m s"
proof -
  let ?w = "bitmap_words (nelems s)"
  have bit: "membit m' (allocBits s) i = membit m (allocBits s) i" if "i < 32 * ?w" for i
    using membit_cong [OF assms that] .
  show "span_free m' s = span_free m s"
    using bit bitmap_words_ge [of "nelems s"] unfolding span_free_def by fastforce
  have "bitmap m' (allocBits s) ?w = bitmap m (allocBits s) ?w" using assms by (auto simp: bitmap_def bytes_at_def)
  moreover have "cache_at m' s k = cache_at m s k" if k: "k < unat (nelems s)" for k
  proof -
    have "membit m' (allocBits s) (k + j) = membit m (allocBits s) (k + j)" if "k mod 64 + j < 64" for j
    proof (rule bit)
      have "k = 64 * (k div 64) + k mod 64" by simp
      then have "k + j < 64 * (k div 64) + 64" using that by linarith
      then show "k + j < 32 * ?w" using bitmap_words_room [OF k] by linarith
    qed
    then show ?thesis unfolding cache_at_def by blast
  qed
  then have "freeIndex s < nelems s \<Longrightarrow> cache_at m' s (unat (freeIndex s)) = cache_at m s (unat (freeIndex s))"
    by (simp add: word_less_nat_alt)
  ultimately show "span_ok m' s = span_ok m s" unfolding span_ok_def by blast
qed

lemma clear_ok:
  assumes "unat p + unat n \<le> 2 ^ 64" and "\<forall>y \<in> blk p n. mem h y \<noteq> None"
  shows "\<exists>m. clear p n h = Some (h\<lparr>mem := m\<rparr>) \<and> (\<forall>y. m y = (if y \<in> blk p n then Some 0 else mem h y))"
proof -
  have "mem h (p + of_nat i) \<noteq> None" if "i < unat n" for i
  proof -
    have "unat (p + of_nat i) = unat p + i" using assms(1) that by (intro unat_offset) simp
    then show ?thesis using assms(2) that by simp
  qed
  then have "clear p n h = Some (h\<lparr>mem := map_zero (mem h) p n\<rparr>)" by (auto simp: clear_def list_all_iff)
  moreover have "map_zero (mem h) p n y = (if y \<in> blk p n then Some 0 else mem h y)" for y
    using diff_less_iff_blk [OF assms(1), of y] by (simp add: map_zero_def del: mem_blk)
  ultimately show ?thesis by blast
qed

lemma takeObject_first:
  assumes x: "x \<noteq> 0" "spans h x = Some s" and ok: "span_ok (mem h) s" "span_free (mem h) s \<noteq> {}" and ap: "bits_apart s"
    and mp: "mapped (mem h) (unat (startAddr s)) (unat (nelems s) * unat (classSize s))"
  defines "i \<equiv> Min (span_free (mem h) s)"
  shows "\<exists>s' m. takeObject (classSize s) 0 (x # xs) h =
      Some (Some (0, of_nat i * classSize s + startAddr s, needGrow s'), h\<lparr>spans := (spans h)(x \<mapsto> s'), mem := m\<rparr>) \<and>
    (\<forall>y. m y = (if y \<in> obj_addrs s i then Some 0 else mem h y)) \<and> i \<in> span_free (mem h) s \<and>
    span_ok m s' \<and> span_free m s' = span_free (mem h) s - {i} \<and> classSize s' = classSize s \<and> startAddr s' = startAddr s \<and>
    nelems s' = nelems s \<and> allocCount s' = allocCount s + 1"
  using ok(1)
proof (cases rule: freeOffset_cases)
  case (full t)
  then show ?thesis using ok(2) by simp
next
  case (object j t)
  have j: "j = i" "i < unat (nelems s)" using object(1,2) by (auto simp: i_def span_free_def)
  let ?p = "of_nat i * classSize s + startAddr s"
  note b = obj_addrs_blk [OF ok(1) j(2)]
  have "(i + 1) * unat (classSize s) \<le> unat (nelems s) * unat (classSize s)" using j(2) by (intro mult_le_mono1) simp
  moreover have up: "unat ?p = unat (startAddr s) + i * unat (classSize s)" using span_index_bound(5) [OF ok(1) j(2)] by simp
  ultimately have "unat ?p + unat (classSize s) \<le> 2 ^ 64" "\<forall>y \<in> blk ?p (classSize s). mem h y \<noteq> None"
    using mp by (simp_all add: mapped_def)
  then obtain m where m: "clear ?p (classSize s) (h\<lparr>spans := (spans h)(x \<mapsto> t)\<rparr>) = Some (h\<lparr>spans := (spans h)(x \<mapsto> t), mem := m\<rparr>)"
    "\<forall>y. m y = (if y \<in> obj_addrs s i then Some 0 else mem h y)"
    using clear_ok [of ?p "classSize s" "h\<lparr>spans := (spans h)(x \<mapsto> t)\<rparr>"] unfolding b by auto
  have "\<forall>k < 4 * bitmap_words (nelems t). m (allocBits t + of_nat k) = mem h (allocBits t + of_nat k)"
    using m(2) ap j(2) by (simp add: bits_apart_def object)
  from span_ok_mem [OF this] object j(1) have "span_ok m t" "span_free m t = span_free (mem h) s - {i}" by simp_all
  moreover have "takeObject (classSize s) 0 (x # xs) h =
      Some (Some (0, ?p, needGrow t), h\<lparr>spans := (spans h)(x \<mapsto> t), mem := m\<rparr>)"
    using x object(5) j(1) m(1) by (simp add: Let_def)
  ultimately show ?thesis using object j m(2) by (intro exI [of _ t] exI [of _ m]) simp
qed

text \<open>The first span in use of a class, with a free object.\<close>

definition open_span :: "'a xSpanPool_scheme \<Rightarrow> nat \<Rightarrow> uintptr \<Rightarrow> xSpan \<Rightarrow> bool" where
  "open_span h sc x s \<longleftrightarrow> (\<exists>xs. classSpans h sc = Some (x # xs)) \<and> x \<noteq> 0 \<and> spans h x = Some s \<and>
     span_ok (mem h) s \<and> span_free (mem h) s \<noteq> {} \<and> bits_apart s \<and> classSize s = ucast (class_to_size ! sc) \<and>
     mapped (mem h) (unat (startAddr s)) (unat (nelems s) * unat (classSize s))"

text \<open>The state after an object was taken: asynchronous growth may have been started.\<close>

lemma pool_Alloc_open:
  assumes "sz \<le> MaxSmallSize" and "open_span h (unat (size_class sz)) x s"
  defines "i \<equiv> Min (span_free (mem h) s)"
  shows "\<exists>h' s' m. pool_Alloc os rnd sz h = Some (Inr (of_nat i * classSize s + startAddr s), h') \<and>
    mem h' = m \<and> (\<forall>y. m y = (if y \<in> obj_addrs s i then Some 0 else mem h y)) \<and> i \<in> span_free (mem h) s \<and>
    spans h' = (spans h)(x \<mapsto> s') \<and> classSpans h' = classSpans h \<and>
    span_ok m s' \<and> span_free m s' = span_free (mem h) s - {i} \<and> classSize s' = classSize s \<and> startAddr s' = startAddr s \<and>
    nelems s' = nelems s \<and> allocCount s' = allocCount s + 1"
proof -
  let ?sc = "unat (size_class sz)"
  obtain xs where xs: "classSpans h ?sc = Some (x # xs)" using assms(2) by (auto simp: open_span_def)
  have c: "classSize s = ucast (class_to_size ! ?sc)" using assms(2) by (simp add: open_span_def)
  obtain s' m where t: "takeObject (classSize s) 0 (x # xs) h =
      Some (Some (0, of_nat i * classSize s + startAddr s, needGrow s'), h\<lparr>spans := (spans h)(x \<mapsto> s'), mem := m\<rparr>)"
    and ok: "\<forall>y. m y = (if y \<in> obj_addrs s i then Some 0 else mem h y)" "i \<in> span_free (mem h) s"
      "span_ok m s' \<and> span_free m s' = span_free (mem h) s - {i} \<and> classSize s' = classSize s \<and> startAddr s' = startAddr s \<and>
       nelems s' = nelems s \<and> allocCount s' = allocCount s + 1"
    using takeObject_first [of x h s xs] assms(2) unfolding open_span_def i_def by blast
  let ?h = "h\<lparr>spans := (spans h)(x \<mapsto> s'), mem := m\<rparr>"
  let ?g = "addInuse ?sc (if needGrow s' then startAsync ?sc (spanGen h ?sc) ?h else ?h)"
  have "pool_Alloc os rnd sz h = Some (Inr (of_nat i * classSize s + startAddr s), ?g)"
    using assms(1) xs t c by (subst pool_Alloc.simps) (simp add: getSpan_def Let_def not_less [symmetric])
  moreover have "mem ?g = m" "spans ?g = (spans h)(x \<mapsto> s')" "classSpans ?g = classSpans h"
    by (simp_all add: addInuse_def startAsync_def needExpendAsync_def)
  ultimately show ?thesis using ok by blast
qed

lemma open_span_size:
  assumes "open_span h (unat (size_class sz)) x s" and "0 < sz" and "sz \<le> MaxSmallSize"
  shows "unat sz \<le> unat (classSize s)"
  using size_class_bounds [OF _ _ refl, of sz] assms
  by (simp add: open_span_def unat_ucast_16_64 word_less_nat_alt word_le_nat_alt)

lemma AllocSlice_open:
  fixes eleSize cap len :: uintptr
  assumes sz: "sz = eleSize * cap + 24" "24 \<le> sz" "sz \<le> MaxSmallSize" and op: "open_span h (unat (size_class sz)) x s"
  defines "i \<equiv> Min (span_free (mem h) s)"
  defines "sl \<equiv> of_nat i * classSize s + startAddr s"
  shows "\<exists>h'. AllocSlice os rnd eleSize cap len h = Some (Inr sl, h') \<and> load64 (mem h') sl = Some (sl + 24) \<and>
    load64 (mem h') (sl + 8) = Some len \<and> load64 (mem h') (sl + 16) = Some cap \<and>
    (\<forall>y \<in> obj_addrs s i. unat sl + 24 \<le> unat y \<longrightarrow> mem h' y = Some 0) \<and> (\<forall>y. y \<notin> obj_addrs s i \<longrightarrow> mem h' y = mem h y)"
proof -
  from pool_Alloc_open [OF sz(3) op, of os rnd, folded i_def, folded sl_def] obtain h1 where
    al: "pool_Alloc os rnd sz h = Some (Inr sl, h1)" "\<forall>y. mem h1 y = (if y \<in> obj_addrs s i then Some 0 else mem h y)"
      "i \<in> span_free (mem h) s" by blast
  have ok: "span_ok (mem h) s" and i: "i < unat (nelems s)" using op al(3) by (auto simp: open_span_def span_free_def)
  have "0 < sz" using sz(2) by (simp add: word_less_nat_alt word_le_nat_alt)
  then have c24: "24 \<le> unat (classSize s)" using open_span_size [OF op _ sz(3)] sz(2) by (simp add: word_le_nat_alt)
  have usl: "unat sl = unat (startAddr s) + i * unat (classSize s)" using span_index_bound(5) [OF ok i] by (simp add: sl_def)
  have "(i + 1) * unat (classSize s) \<le> unat (nelems s) * unat (classSize s)" using i by (intro mult_le_mono1) simp
  then have top: "unat sl + 24 \<le> 2 ^ 47" using ok c24 by (simp add: usl span_ok_def)
  have obj: "y \<in> obj_addrs s i" if "unat sl \<le> unat y" "unat y < unat sl + 24" for y
    using that c24 by (simp add: obj_addrs_def usl)
  have mp: "mapped (mem h1) (unat sl) 24" using top obj al(2) by (auto simp: mapped_def)
  have at: "unat (sl + 8) = unat sl + 8" "unat (sl + 16) = unat sl + 16"
    using unat_offset [of sl 8] unat_offset [of sl 16] top by simp_all
  have "mapped (mem h1) (unat (sl + 16)) 8" using mp unfolding at by (rule mapped_sub) simp_all
  from store64_ok [OF this, of cap] obtain m1 where m1: "store64 (mem h1) (sl + 16) cap = Some m1" "load64 m1 (sl + 16) = Some cap"
    "changes (mem h1) m1 (unat sl + 16) 8" unfolding at by blast
  note mp1 = mapped_changes [OF mp m1(3)]
  have "mapped m1 (unat sl) 8" using mp1 by (rule mapped_sub) simp_all
  from store64_ok [OF this, of "sl + 24"] obtain m2 where m2: "store64 m1 sl (sl + 24) = Some m2" "load64 m2 sl = Some (sl + 24)"
    "changes m1 m2 (unat sl) 8" by blast
  note mp2 = mapped_changes [OF mp1 m2(3)]
  have "mapped m2 (unat (sl + 8)) 8" using mp2 unfolding at by (rule mapped_sub) simp_all
  from store64_ok [OF this, of len] obtain m3 where m3: "store64 m2 (sl + 8) len = Some m3" "load64 m3 (sl + 8) = Some len"
    "changes m2 m3 (unat sl + 8) 8" unfolding at by blast
  have "mapped m1 (unat (sl + 16)) 8" "mapped m2 (unat (sl + 16)) 8"
    using mapped_sub [OF mp1, of "unat sl + 16" 8] mapped_sub [OF mp2, of "unat sl + 16" 8] by (simp_all add: at)
  then have "load64 m3 (sl + 16) = Some cap" using load64_changes [OF m2(3)] load64_changes [OF m3(3)] m1(2) at by simp
  moreover have "mapped m2 (unat sl) 8" using mp2 by (rule mapped_sub) simp_all
  then have "load64 m3 sl = Some (sl + 24)" using load64_changes [OF m3(3)] m2(2) by simp
  moreover have "AllocSlice os rnd eleSize cap len h = Some (Inr sl, h1\<lparr>mem := m3\<rparr>)"
    using al(1) m1(1) m2(1) m3(1) by (simp add: AllocSlice_def sz(1))
  moreover have "m3 y = mem h1 y" if "unat y < unat sl \<or> unat sl + 24 \<le> unat y" for y
    using that m1(3) m2(3) m3(3) by (auto simp: changes_def)
  then have "\<forall>y \<in> obj_addrs s i. unat sl + 24 \<le> unat y \<longrightarrow> m3 y = Some 0" "\<forall>y. y \<notin> obj_addrs s i \<longrightarrow> m3 y = mem h y"
    using al(2) obj by (auto simp: not_le [symmetric]) (metis not_le)
  ultimately show ?thesis using m3(2) by auto
qed

subsection \<open>States for the witnesses\<close>

text \<open>A fresh span of 128 objects of 32 bytes, the only one of its class in use.\<close>

definition demo_open_span :: xSpan where
  "demo_open_span =
     \<lparr>classIndex = 3, classSize = 32, startAddr = 0x50001000, npages = 1, freeIndex = 0, extensionPoint = 96,
      nelems = 128, allocCache = NOT 0, allocBits = 0x40000240, gcmarkBits = 0x40000300, span_baseMask = 65504,
      divMul = 1, divShift = 5, divShift2 = 0, allocCount = 0, next_span = 0\<rparr>"

definition demo_open_pool :: xSpanPool where
  "demo_open_pool = demo_pool\<lparr>spans := (spans demo_pool)(0x40000380 \<mapsto> demo_open_span),
     classSpans := (\<lambda>_. None)(3 := Some [0x40000380])\<rparr>"

lemma demo_open_fields:
  "startAddr demo_open_span = 0x50001000" "classSize demo_open_span = 32" "nelems demo_open_span = 128"
  "allocBits demo_open_span = 0x40000240" "freeIndex demo_open_span = 0" "allocCache demo_open_span = NOT 0"
  by (simp_all add: demo_open_span_def)

lemma demo_mem_ones: "k < 64 \<Longrightarrow> demo_mem (0x40000240 + of_nat k) = Some 255"
proof -
  assume k: "k < 64"
  then have u: "unat (0x40000240 + of_nat k :: uintptr) = 0x40000240 + k" using unat_offset [of "0x40000240" k] by simp
  have "0x40000240 + of_nat k - 0x40000240 < (64 :: uintptr)" using u k by (subst diff_less_iff_blk) auto
  moreover have "0x40000240 + (of_nat k :: uintptr) \<noteq> 0x40000200" using u by (auto simp: word_unat_eq_iff)
  ultimately show "demo_mem (0x40000240 + of_nat k) = Some 255" by (simp add: demo_mem_def)
qed

lemma demo_open_ok: "open_span demo_open_pool 3 0x40000380 demo_open_span" "span_free demo_mem demo_open_span = {..< 128}"
proof -
  have b255: "bit (255 :: uint8) k" if "k < 8" for k
    using that by (auto simp: bit_numeral_rec bit_1_iff less_Suc_eq numeral_eq_Suc split: nat.split)
  have bit: "membit demo_mem 0x40000240 k" if "k < 512" for k
    using demo_mem_ones [of "k div 8"] b255 [of "k mod 8"] that by (simp add: membit_def)
  then show free: "span_free demo_mem demo_open_span = {..< 128}" by (auto simp: span_free_def demo_open_fields)
  have "bitmap demo_mem 0x40000240 4" using demo_mem_ones by (auto simp: bitmap_def bytes_at_def)
  then have "span_ok demo_mem demo_open_span"
    using bit by (simp add: span_ok_def demo_open_fields bitmap_words_def cache_at_def)
  moreover have "bits_apart demo_open_span"
  proof -
    have "unat (0x40000240 + of_nat k :: uintptr) = 0x40000240 + k" if "k < 16" for k
      using that unat_offset [of "0x40000240" k] by simp
    then show ?thesis by (simp add: bits_apart_def demo_open_fields obj_addrs_def bitmap_words_def)
  qed
  moreover have "mapped demo_mem 0x50001000 4096"
  proof -
    have "x - 0x40000000 < 0x20000000" if "0x50001000 \<le> unat x" "unat x < 0x50002000" for x :: uintptr
      using that by (subst diff_less_iff_blk) auto
    then show ?thesis by (auto simp: mapped_def demo_mem_def)
  qed
  moreover have "span_free demo_mem demo_open_span \<noteq> {}" unfolding free by (simp add: lessThan_empty_iff)
  ultimately show "open_span demo_open_pool 3 0x40000380 demo_open_span"
    by (simp add: open_span_def demo_open_pool_def demo_open_fields class_to_size_def)
qed

lemma demo_open_class: "unat (size_class 24) = 3"
  by (simp add: size_class_def size_to_class8_def)

lemma demo_open_Min: "Min (span_free (mem demo_open_pool) demo_open_span) = 0"
  using demo_open_ok(2) by (simp add: demo_open_pool_def) (intro Min_eqI; simp)

subsection \<open>Properties\<close>

text \<open>
  C10: Alloc of a small size, while the first span of its class has a free object, returns the first
  free object of that span: it holds at least the bytes asked for, is all zero whatever was in it,
  and is not free any more; no other byte and no other span changes.
\<close>
theorem Alloc_takes_first_free:
  assumes "0 < sz" and "sz \<le> MaxSmallSize" and "open_span h (unat (size_class sz)) x s"
    and "i = Min (span_free (mem h) s)" and "p = of_nat i * classSize s + startAddr s"
  shows "\<exists>h' s'. mm_Alloc os rnd sz h = Some (Inr p, h') \<and> blk p sz \<subseteq> obj_addrs s i \<and>
    (\<forall>y. mem h' y = (if y \<in> obj_addrs s i then Some 0 else mem h y)) \<and>
    spans h' = (spans h)(x \<mapsto> s') \<and> span_ok (mem h') s' \<and> span_free (mem h') s' = span_free (mem h) s - {i} \<and>
    allocCount s' = allocCount s + 1"
proof -
  note st = pool_Alloc_open [OF assms(2,3), of os rnd, folded assms(4), folded assms(5)]
  then have ok: "span_ok (mem h) s" "i < unat (nelems s)" using assms(3) by (auto simp: open_span_def span_free_def)
  have "blk p sz \<subseteq> blk p (classSize s)" using open_span_size [OF assms(3,1,2)] by auto
  then have "blk p sz \<subseteq> obj_addrs s i" using obj_addrs_blk [OF ok] unfolding assms(5) by simp
  moreover have "mm_Alloc os rnd sz h = pool_Alloc os rnd sz h"
    using assms(1) by (auto simp: mm_Alloc_def word_less_nat_alt)
  ultimately show ?thesis using st by fastforce
qed

theorem Alloc_takes_first_free_witness:
  "\<exists>h'. mm_Alloc demo_os (\<lambda>_. 3) 24 demo_open_pool = Some (Inr 0x50001000, h') \<and> mem h' 0x50001017 = Some 0"
proof -
  have "open_span demo_open_pool (unat (size_class 24)) 0x40000380 demo_open_span" using demo_open_ok(1) by (simp add: demo_open_class)
  from Alloc_takes_first_free [OF _ _ this demo_open_Min [symmetric] refl, of demo_os "\<lambda>_. 3"] show ?thesis
    by (auto simp: demo_open_fields obj_addrs_def)
qed

text \<open>
  C33: AllocSlice multiplies element size and capacity without a test for overflow: whatever the
  product is modulo 2 ^ 64, the block is one object of the class of that number, while its header
  claims the capacity and the length of the call, data right behind it.
\<close>
theorem AllocSlice_trusts_product:
  assumes "sz = eleSize * cap + 24" and "24 \<le> sz" and "sz \<le> MaxSmallSize"
    and "open_span h (unat (size_class sz)) x s" and "i = Min (span_free (mem h) s)"
    and "sl = of_nat i * classSize s + startAddr s"
  shows "\<exists>h'. AllocSlice os rnd eleSize cap len h = Some (Inr sl, h') \<and> load64 (mem h') sl = Some (sl + 24) \<and>
    load64 (mem h') (sl + 8) = Some len \<and> load64 (mem h') (sl + 16) = Some cap \<and>
    (\<forall>y \<in> obj_addrs s i. unat sl + 24 \<le> unat y \<longrightarrow> mem h' y = Some 0) \<and> (\<forall>y. y \<notin> obj_addrs s i \<longrightarrow> mem h' y = mem h y)"
  using AllocSlice_open [OF assms(1-4), of os rnd len] unfolding assms(5,6) .

theorem AllocSlice_trusts_product_witness:
  "\<exists>h'. AllocSlice demo_os (\<lambda>_. 3) 0x100000000 0x100000000 7 demo_open_pool = Some (Inr 0x50001000, h') \<and>
     load64 (mem h') (0x50001000 + 16) = Some 0x100000000 \<and> mem h' 0x50001020 = mem demo_open_pool 0x50001020"
proof -
  have sz: "(24 :: uintptr) = 0x100000000 * 0x100000000 + 24" by simp
  have o: "open_span demo_open_pool (unat (size_class 24)) 0x40000380 demo_open_span" using demo_open_ok(1) by (simp add: demo_open_class)
  have sl: "0x50001000 = of_nat 0 * classSize demo_open_span + startAddr demo_open_span" by (simp add: demo_open_fields)
  from AllocSlice_trusts_product [OF sz _ _ o demo_open_Min [symmetric] sl, of demo_os "\<lambda>_. 3" 7]
  show ?thesis by (auto simp: demo_open_fields obj_addrs_def)
qed

text \<open>
  C29: FromInAddr lays strings out one behind the other, each behind its header, and reads back: every
  pointer it returns leads to a header whose length and bytes are those of its argument; only the
  bytes from the address on, as many as headers and contents take, are written.
\<close>
theorem FromInAddr_reads_back:
  assumes "mapped (mem h) (unat addr) (strings_size css)" and "0 < addr"
  shows "\<exists>ps m. mm_FromInAddr addr css h = Some (Inr ps, h\<lparr>mem := m\<rparr>) \<and> list_all2 (string_at m) ps css \<and>
    changes (mem h) m (unat addr) (strings_size css)"
proof -
  have "\<not> addr < 1" using assms(2) by auto
  then show ?thesis using stringsInAddr_ok [OF assms(1)] by (auto simp: mm_FromInAddr_def sa_FromInAddr_def)
qed

theorem FromInAddr_reads_back_witness:
  "\<exists>p q m. mm_FromInAddr 0x50001000 [[104, 105], []] demo_open_pool = Some (Inr [p, q], demo_open_pool\<lparr>mem := m\<rparr>) \<and>
     string_at m p [104, 105] \<and> string_at m q []"
proof -
  have "mapped demo_mem 0x50001000 4096" using demo_open_ok(1) by (simp add: open_span_def demo_open_pool_def demo_open_fields)
  then have "mapped (mem demo_open_pool) (unat (0x50001000 :: uintptr)) (strings_size [[104, 105], []])"
    by (simp add: demo_open_pool_def) (erule mapped_sub; simp)
  from FromInAddr_reads_back [OF this] show ?thesis by (auto simp: list_all2_Cons2)
qed

end
