(* ===== verification/Serving.thy ===== *)
theory Serving
  imports Objects
begin

text \<open>
  The span pool as a whole: the invariant that ties the free chunks of the heap, the spans in use, their
  objects and the metadata together, and what keeps it: an object is taken from a span, a span leaves its
  list, links, generations and pending growth change. \<open>serve_used\<close> is the memory that no later request may get.
\<close>

subsection \<open>The invariant\<close>

definition reg :: "'a xSpanPool_scheme \<Rightarrow> nat \<Rightarrow> uintptr list" where
  "reg h sc = (case classSpans h sc of None \<Rightarrow> [] | Some xs \<Rightarrow> xs)"

text \<open>All bytes of the objects of a span, and of those it has not handed out.\<close>

definition span_area :: "xSpan \<Rightarrow> uintptr set" where
  "span_area s = {x. unat (startAddr s) \<le> unat x \<and> unat x < unat (startAddr s) + unat (nelems s) * unat (classSize s)}"

definition span_avail :: "memory \<Rightarrow> xSpan \<Rightarrow> uintptr set" where
  "span_avail m s = (\<Union>i \<in> span_free m s. obj_addrs s i)"

text \<open>A span of a class: its free objects and its count agree, and its bit map is in metadata memory.\<close>

definition span_good :: "'a raw_pool_scheme \<Rightarrow> nat \<Rightarrow> xSpan \<Rightarrow> bool" where
  "span_good h sc s \<longleftrightarrow> span_ok (mem h) s \<and> classSize s = ucast (class_to_size ! sc) \<and> extensionPoint s \<le> nelems s \<and>
     unat (allocCount s) + card (span_free (mem h) s) = unat (nelems s) \<and>
     (\<forall>k < 4 * bitmap_words (nelems s). allocBits s + of_nat k \<in> pool_used h)"

text \<open>A span in use: its place, its metadata and its objects, all of them in \<open>A\<close> and none in a free chunk.\<close>

definition span_placed :: "uintptr set \<Rightarrow> 'a xSpanPool_scheme \<Rightarrow> nat \<Rightarrow> uintptr \<Rightarrow> bool" where
  "span_placed A h sc x \<longleftrightarrow> x \<noteq> 0 \<and> x \<in> pool_used h \<and>
     (\<exists>s. spans h x = Some s \<and> span_good h sc s \<and> span_area s \<subseteq> A \<inter> heap_used h)"

definition areas_apart :: "'a xSpanPool_scheme \<Rightarrow> uintptr \<Rightarrow> uintptr \<Rightarrow> bool" where
  "areas_apart h x y \<longleftrightarrow> x \<noteq> y \<and> (\<forall>s t. spans h x = Some s \<longrightarrow> spans h y = Some t \<longrightarrow> span_area s \<inter> span_area t = {})"

definition spans_placed :: "uintptr set \<Rightarrow> 'a xSpanPool_scheme \<Rightarrow> bool" where
  "spans_placed A h \<longleftrightarrow> (\<forall>sc. distinct (reg h sc) \<and> (\<forall>x \<in> set (reg h sc). span_placed A h sc x)) \<and>
     (\<forall>sc sc' x y. x \<in> set (reg h sc) \<longrightarrow> y \<in> set (reg h sc') \<longrightarrow> (sc, x) \<noteq> (sc', y) \<longrightarrow> areas_apart h x y)"

text \<open>
  Every span the heap keeps, in a list or not: the page tables lead from each of its addresses to it, its
  magic numbers are those of its class, and its bit maps are metadata; no byte marks one object and
  allocates another, and two spans share no marks. So any object handed out earlier can be found and marked.
\<close>

definition span_known :: "'a xHeap_scheme \<Rightarrow> uintptr \<Rightarrow> xSpan \<Rightarrow> bool" where
  "span_known h x s \<longleftrightarrow> x \<noteq> 0 \<and> x \<in> pool_used h \<and> span_class s \<and> bitmap (mem h) (gcmarkBits s) (bitmap_words (nelems s)) \<and>
     map_bytes (gcmarkBits s) (nelems s) \<union> map_bytes (allocBits s) (nelems s) \<subseteq> pool_used h \<and>
     unat (startAddr s) + unat (nelems s) * unat (classSize s) \<le> 2 ^ 47 \<and> span_area s \<subseteq> heap_used h \<and>
     (\<forall>p \<in> span_area s. spanOf p h = Some (Inr x))"

definition spans_known :: "'a xHeap_scheme \<Rightarrow> bool" where
  "spans_known h \<longleftrightarrow> (\<forall>x s. spans h x = Some s \<longrightarrow> span_known h x s) \<and>
     (\<forall>x y s t. spans h x = Some s \<longrightarrow> spans h y = Some t \<longrightarrow>
        map_bytes (gcmarkBits s) (nelems s) \<inter> map_bytes (allocBits t) (nelems t) = {} \<and>
        (x \<noteq> y \<longrightarrow> map_bytes (gcmarkBits s) (nelems s) \<inter> map_bytes (gcmarkBits t) (nelems t) = {}))"

text \<open>The addresses of objects, free or not.\<close>

definition objects :: "'a xHeap_scheme \<Rightarrow> uintptr set" where
  "objects h = {p. \<exists>x s. spans h x = Some s \<and> p \<in> span_area s}"

definition serving :: "os \<Rightarrow> uintptr set \<Rightarrow> 'a xSpanPool_scheme \<Rightarrow> bool" where
  "serving os A h \<longleftrightarrow> (\<exists>cs. pages_ok os h cs) \<and> - heap_used h \<subseteq> A \<and> pool_clean h \<and> os_apart os A \<and> A \<subseteq> dom (mem h) \<and>
     0 \<notin> A \<and> (\<forall>x \<in> A. unat x < 2 ^ 47) \<and> classFree h = (\<lambda>_. 0) \<and> spans_placed A h \<and> spans_known h"

text \<open>What is not available to later requests.\<close>

definition serve_used :: "'a xSpanPool_scheme \<Rightarrow> uintptr set" where
  "serve_used h = {a. a \<in> heap_used h \<and> (\<forall>sc. \<forall>x \<in> set (reg h sc). \<forall>s. spans h x = Some s \<longrightarrow> a \<notin> span_avail (mem h) s)}"

lemma serving_pool: "serving os A h \<Longrightarrow> pool_inv os h \<and> pool_clean h \<and> pool_used h \<inter> A = {}"
  using os_apart_used by (auto simp: serving_def pages_ok_def heap_rep_def)

lemma reg_span:
  assumes "serving os A h" and "x \<in> set (reg h sc)"
  shows "\<exists>s. x \<noteq> 0 \<and> spans h x = Some s \<and> span_good h sc s \<and> span_area s \<subseteq> A \<inter> heap_used h"
proof -
  have "span_placed A h sc x" using assms by (simp add: serving_def spans_placed_def)
  then show ?thesis unfolding span_placed_def by blast
qed

lemma obj_addrs_area:
  assumes "i < unat (nelems s)"
  shows "obj_addrs s i \<subseteq> span_area s"
proof -
  have "(i + 1) * unat (classSize s) \<le> unat (nelems s) * unat (classSize s)" using assms by (intro mult_le_mono1) simp
  then show ?thesis by (auto simp: obj_addrs_def span_area_def)
qed

lemma span_avail_area: "span_avail m s \<subseteq> span_area s"
proof -
  have "obj_addrs s i \<subseteq> span_area s" if "i \<in> span_free m s" for i
    using that obj_addrs_area by (auto simp: span_free_def)
  then show ?thesis by (auto simp: span_avail_def)
qed

lemma finite_span_free [simp]: "finite (span_free m s)"
  by (rule finite_subset [of _ "{..< unat (nelems s)}"]) (auto simp: span_free_def)

text \<open>Bit maps in memory that does not change keep their spans as they are.\<close>

lemma span_good_mem:
  assumes g: "span_good h sc s" and m: "\<forall>x \<in> pool_used h. mem h' x = mem h x" and u: "pool_used h \<subseteq> pool_used h'"
  shows "span_good h' sc s" and "span_free (mem h') s = span_free (mem h) s" and "span_avail (mem h') s = span_avail (mem h) s"
proof -
  have b: "\<forall>k < 4 * bitmap_words (nelems s). allocBits s + of_nat k \<in> pool_used h" using g by (simp add: span_good_def)
  then have e: "\<forall>k < 4 * bitmap_words (nelems s). mem h' (allocBits s + of_nat k) = mem h (allocBits s + of_nat k)" using m by blast
  note sm = span_ok_mem [OF e]
  then show f: "span_free (mem h') s = span_free (mem h) s" by blast
  then show "span_avail (mem h') s = span_avail (mem h) s" by (simp add: span_avail_def)
  show "span_good h' sc s" using g sm(1) f b u unfolding span_good_def by auto
qed

lemma heap_used_write: "heap_used (h\<lparr>spans := S, mem := m\<rparr>) = heap_used h"
proof -
  have "pool_used (h\<lparr>spans := S, mem := m\<rparr>) = pool_used h" by (rule pool_used_cong) simp_all
  then have "treap_rep (h\<lparr>spans := S, mem := m\<rparr>) cs = treap_rep h cs" for cs by (simp add: treap_rep_def treap_ok_def)
  then show ?thesis by (simp add: heap_used_def)
qed

lemma pages_ok_write: "dom m = dom (mem h) \<Longrightarrow> pages_ok os (h\<lparr>spans := S, mem := m\<rparr>) cs = pages_ok os h cs"
proof -
  assume d: "dom m = dom (mem h)"
  have u: "pool_used (h\<lparr>spans := S, mem := m\<rparr>) = pool_used h" by (rule pool_used_cong) simp_all
  have "pool_inv os (h\<lparr>spans := S, mem := m\<rparr>) = pool_inv os (h\<lparr>mem := m\<rparr>)" by (rule pool_inv_cong) simp_all
  then have "pool_inv os (h\<lparr>spans := S, mem := m\<rparr>) = pool_inv os h" using pool_inv_write [OF d] by simp
  then show ?thesis using u
    by (simp add: pages_ok_def heap_rep_def treap_rep_def treap_ok_def tables_ok_def page_span_def table_of_def)
qed

subsection \<open>Spans that stay known\<close>

lemma spanOf_tables: "addrMap h' = addrMap h \<Longrightarrow> rawLinear h' = rawLinear h \<Longrightarrow> spanOf p h' = spanOf p h"
  unfolding spanOf_def addr_entry_def by (simp only:)

lemma same_geometry_known:
  assumes g: "same_geometry s s'"
  shows "span_class s \<Longrightarrow> span_class s'" and "span_area s' = span_area s"
    and "map_bytes (gcmarkBits s') (nelems s') = map_bytes (gcmarkBits s) (nelems s)"
    and "map_bytes (allocBits s') (nelems s') = map_bytes (allocBits s) (nelems s)"
proof -
  note e = same_geometryD [OF g]
  show "span_class s'" if "span_class s"
    using that e(7) unfolding span_class_def e(3-6) by blast
  show "span_area s' = span_area s" by (simp add: span_area_def e)
  show "map_bytes (gcmarkBits s') (nelems s') = map_bytes (gcmarkBits s) (nelems s)"
    "map_bytes (allocBits s') (nelems s') = map_bytes (allocBits s) (nelems s)" by (simp_all add: e)
qed

lemma span_known_moves:
  assumes k: "span_known h x s" and d: "dom (mem h) \<subseteq> dom (mem h')" and u: "pool_used h \<subseteq> pool_used h'" "heap_used h \<subseteq> heap_used h'"
    and t: "\<forall>p \<in> heap_used h. unat p < 2 ^ 47 \<longrightarrow> spanOf p h' = spanOf p h" and g: "same_geometry s s'"
  shows "span_known h' x s'"
proof -
  note g1 = same_geometryD [OF g] and g2 = same_geometry_known [OF g]
  have "unat p < 2 ^ 47" if "p \<in> span_area s" for p using k that by (auto simp: span_known_def span_area_def)
  then have "\<forall>p \<in> span_area s. spanOf p h' = Some (Inr x)" using k t by (auto simp: span_known_def)
  moreover have "bitmap (mem h') (gcmarkBits s) (bitmap_words (nelems s))"
    using k d by (auto simp: span_known_def bitmap_def intro: bytes_at_dom)
  ultimately show ?thesis using k u g1 g2 by (auto simp: span_known_def)
qed

lemma same_geometry_refl [simp]: "same_geometry s s"
  by (simp add: same_geometry_def)

lemma spans_known_keep:
  assumes K: "spans_known h" and d: "dom (mem h) \<subseteq> dom (mem h')" and u: "pool_used h \<subseteq> pool_used h'" "heap_used h \<subseteq> heap_used h'"
    and t: "\<forall>p \<in> heap_used h. unat p < 2 ^ 47 \<longrightarrow> spanOf p h' = spanOf p h"
    and s: "\<forall>x. rel_option same_geometry (spans h x) (spans h' x)"
  shows "spans_known h'" and "objects h' = objects h"
proof -
  have src: "\<exists>s. spans h x = Some s \<and> same_geometry s s'" if "spans h' x = Some s'" for x s'
    using s [rule_format, of x] that by (cases "spans h x") auto
  have "span_known h' x s'" if x: "spans h' x = Some s'" for x s'
  proof -
    obtain s where "spans h x = Some s" "same_geometry s s'" using src [OF x] by blast
    then show ?thesis using span_known_moves [OF _ d u t] K unfolding spans_known_def by blast
  qed
  moreover have "map_bytes (gcmarkBits s') (nelems s') \<inter> map_bytes (allocBits t') (nelems t') = {} \<and>
      (x \<noteq> y \<longrightarrow> map_bytes (gcmarkBits s') (nelems s') \<inter> map_bytes (gcmarkBits t') (nelems t') = {})"
    if xy: "spans h' x = Some s'" "spans h' y = Some t'" for x y s' t'
  proof -
    obtain a b where "spans h x = Some a" "same_geometry a s'" "spans h y = Some b" "same_geometry b t'"
      using src [OF xy(1)] src [OF xy(2)] by blast
    then show ?thesis using K same_geometry_known [of a s'] same_geometry_known [of b t'] by (simp add: spans_known_def)
  qed
  ultimately show "spans_known h'" by (simp add: spans_known_def)
  have "(\<exists>s. spans h' x = Some s \<and> p \<in> span_area s) = (\<exists>s. spans h x = Some s \<and> p \<in> span_area s)" for x p
    using s [rule_format, of x] same_geometry_known(2) by (cases "spans h x"; cases "spans h' x") auto
  then show "objects h' = objects h" by (simp add: objects_def)
qed

lemma spans_known_new:
  assumes K: "spans_known h" and d: "dom (mem h) \<subseteq> dom (mem h')" and u: "pool_used h \<subseteq> pool_used h'" "heap_used h \<subseteq> heap_used h'"
    and t: "\<forall>p \<in> heap_used h. unat p < 2 ^ 47 \<longrightarrow> spanOf p h' = spanOf p h"
    and x: "x \<notin> pool_used h" "spans h' = (spans h)(x \<mapsto> s)" "span_known h' x s"
      "(map_bytes (gcmarkBits s) (nelems s) \<union> map_bytes (allocBits s) (nelems s)) \<inter> pool_used h = {}"
      "map_bytes (gcmarkBits s) (nelems s) \<inter> map_bytes (allocBits s) (nelems s) = {}"
  shows "spans_known h'" and "objects h' = objects h \<union> span_area s"
proof -
  have o: "map_bytes (gcmarkBits t) (nelems t) \<union> map_bytes (allocBits t) (nelems t) \<subseteq> pool_used h" "z \<in> pool_used h" if "spans h z = Some t" for z t
    using K that by (simp_all add: spans_known_def span_known_def)
  have "span_known h' z t'" if z: "spans h' z = Some t'" for z t'
  proof (cases "z = x")
    case True
    then show ?thesis using z x by simp
  next
    case False
    then show ?thesis using z x(2) K span_known_moves [OF _ d u t same_geometry_refl] by (simp add: spans_known_def)
  qed
  moreover have "map_bytes (gcmarkBits a) (nelems a) \<inter> map_bytes (allocBits b) (nelems b) = {} \<and>
      (y \<noteq> z \<longrightarrow> map_bytes (gcmarkBits a) (nelems a) \<inter> map_bytes (gcmarkBits b) (nelems b) = {})"
    if ab: "spans h' y = Some a" "spans h' z = Some b" for y z a b
  proof (cases "y = x"; cases "z = x")
    assume "y \<noteq> x" "z \<noteq> x"
    then show ?thesis using ab x(2) K by (simp add: spans_known_def)
  next
    assume yz: "y = x" "z \<noteq> x"
    then show ?thesis using ab x(2,4) o(1) [of z b] by auto
  next
    assume yz: "y \<noteq> x" "z = x"
    then show ?thesis using ab x(2,4) o(1) [of y a] by auto
  qed (use ab x(2,5) in auto)
  ultimately show "spans_known h'" unfolding spans_known_def by blast
  have "spans h x = None" using o(2) x(1) by (cases "spans h x") auto
  then have "z \<noteq> x" if "spans h z = Some t" for z t using that by auto
  then have "p \<in> objects h'" if "spans h z = Some t" "p \<in> span_area t" for p z t
    using that unfolding objects_def x(2) by (auto intro!: exI [of _ z])
  moreover have "p \<in> objects h'" if "p \<in> span_area s" for p
    using that unfolding objects_def x(2) by (auto intro!: exI [of _ x])
  moreover have "p \<in> objects h \<union> span_area s" if "p \<in> objects h'" for p
    using that unfolding objects_def x(2) by (auto split: if_splits)
  ultimately show "objects h' = objects h \<union> span_area s" unfolding objects_def by blast
qed

subsection \<open>One span changes\<close>

lemma serving_update:
  assumes S: "serving os A h" and x: "x \<in> set (reg h sc)" "spans h x = Some s"
    and s': "span_ok m s'" "span_free m s' = span_free (mem h) s - I" "I \<subseteq> span_free (mem h) s"
      "nelems s' = nelems s" "startAddr s' = startAddr s" "classSize s' = classSize s" "allocBits s' = allocBits s"
      "extensionPoint s' = extensionPoint s" "allocCount s' = allocCount s + of_nat (card I)" "same_geometry s s'"
    and m: "dom m = dom (mem h)" "\<forall>y. y \<notin> span_area s \<longrightarrow> m y = mem h y"
  defines "h' \<equiv> h\<lparr>spans := (spans h)(x \<mapsto> s'), mem := m\<rparr>"
  shows "serving os A h'" and "serve_used h \<union> (\<Union>i \<in> I. obj_addrs s i) \<subseteq> serve_used h'"
    and "(\<Union>i \<in> I. obj_addrs s i) \<inter> serve_used h = {}" and "(\<Union>i \<in> I. obj_addrs s i) \<subseteq> A" and "objects h' = objects h"
    and "(\<Union>i \<in> I. obj_addrs s i) \<subseteq> objects h'"
proof -
  have r: "reg h' = reg h" by (simp add: fun_eq_iff reg_def h'_def)
  have hu: "heap_used h' = heap_used h" unfolding h'_def by (rule heap_used_write)
  have pu: "pool_used h' = pool_used h" unfolding h'_def by (rule pool_used_cong) simp_all
  have mh: "mem h' = m" "spans h' = (spans h)(x \<mapsto> s')" by (simp_all add: h'_def)
  have P: "spans_placed A h" using S by (simp add: serving_def)
  have px: "span_placed A h sc x" using P x(1) by (simp add: spans_placed_def)
  have g: "span_good h sc s" "span_area s \<subseteq> A \<inter> heap_used h" using px x(2) by (auto simp: span_placed_def)
  have out: "\<forall>y \<in> pool_used h. mem h' y = mem h y" using serving_pool [OF S] g(2) m(2) unfolding mh by blast
  have area: "span_area s' = span_area s" by (simp add: span_area_def s')
  have objs: "obj_addrs s' = obj_addrs s" by (simp add: fun_eq_iff obj_addrs_def s')
  have fin: "finite I" using s'(3) finite_subset finite_span_free by blast
  have cI: "card (span_free m s') + card I = card (span_free (mem h) s)"
    using card_Diff_subset [OF fin s'(3)] card_mono [OF finite_span_free s'(3)] by (simp add: s'(2))
  have cn: "unat (allocCount s) + card (span_free (mem h) s) = unat (nelems s)" using g(1) by (simp add: span_good_def)
  then have "unat (allocCount s') = unat (allocCount s) + card I"
  proof -
    have "unat (nelems s) \<le> 2 ^ 40" using g(1) by (simp add: span_good_def span_ok_def)
    then show ?thesis unfolding s'(9) using cn cI by (intro unat_offset) simp
  qed
  then have gs': "span_good h' sc s'" using g(1) s' cI cn pu unfolding span_good_def mh by simp
  have gx: "span_placed A h' sc x" using px gs' g(2) area by (simp add: span_placed_def mh pu hu)
  have gy: "span_placed A h' k y" if "y \<in> set (reg h k)" for k y
  proof (cases "y = x")
    case True
    have "k = sc" using P x(1) that True unfolding spans_placed_def areas_apart_def by blast
    then show ?thesis using gx True by simp
  next
    case False
    obtain t where "spans h y = Some t" "span_good h k t" "span_area t \<subseteq> A \<inter> heap_used h" "y \<noteq> 0" "y \<in> pool_used h"
      using P \<open>y \<in> set (reg h k)\<close> unfolding spans_placed_def span_placed_def by blast
    then show ?thesis using False span_good_mem(1) [OF _ out, of k t] by (auto simp: span_placed_def mh pu hu)
  qed
  have ap: "areas_apart h' a b" if "areas_apart h a b" for a b
    using that area x(2) unfolding areas_apart_def mh by (auto split: if_splits)
  have "spans_placed A h'" using P gy ap unfolding spans_placed_def r by blast
  moreover have "\<exists>cs. pages_ok os h' cs" using S pages_ok_write [OF m(1)] unfolding h'_def serving_def by blast
  moreover have "pool_clean h'"
  proof -
    have "\<forall>y. y \<notin> pool_used h \<longrightarrow> (y \<in> region z \<longrightarrow> m y = mem h y)" if "z \<in> set (pool_xrm h)" for z
    proof -
      have "region z \<inter> A = {}" using S that serving_pool [OF S] unfolding serving_def os_apart_def pool_inv_def region_def by blast
      then show ?thesis using m(2) g(2) by blast
    qed
    moreover have "pool_xrm h' = pool_xrm h" by (simp add: h'_def)
    ultimately show ?thesis using S by (auto simp: serving_def pool_clean_def pu mh)
  qed
  moreover have kn: "spans_known h'" "objects h' = objects h"
  proof -
    have t: "\<forall>p \<in> heap_used h. unat p < 2 ^ 47 \<longrightarrow> spanOf p h' = spanOf p h" using spanOf_tables [of h' h] by (simp add: h'_def)
    have "\<forall>y. rel_option same_geometry (spans h y) (spans h' y)" using x(2) s'(10) by (simp add: mh option.rel_refl)
    from spans_known_keep [OF _ _ _ _ t this] show "spans_known h'" "objects h' = objects h"
      using S m(1) pu hu by (simp_all add: serving_def mh)
  qed
  ultimately show "serving os A h'" using S m(1) unfolding serving_def hu mh by (simp add: h'_def)
  show "objects h' = objects h" by (rule kn)
  have sub: "(\<Union>i \<in> I. obj_addrs s i) \<subseteq> span_area s" using s'(3) span_avail_area [of "mem h" s] by (auto simp: span_avail_def)
  then show "(\<Union>i \<in> I. obj_addrs s i) \<subseteq> objects h'" using x(2) unfolding kn(2) by (auto simp: objects_def)
  show "(\<Union>i \<in> I. obj_addrs s i) \<inter> serve_used h = {}" using x s'(3) by (fastforce simp: serve_used_def span_avail_def)
  show "(\<Union>i \<in> I. obj_addrs s i) \<subseteq> A" using sub g(2) by blast
  have av: "span_avail m s' \<inter> (\<Union>i \<in> I. obj_addrs s i) = {}" "span_avail m s' \<subseteq> span_avail (mem h) s"
  proof -
    have "obj_addrs s j \<inter> obj_addrs s i = {}" if "j \<in> span_free (mem h) s - I" "i \<in> I" for i j
      using that by (intro obj_addrs_disjoint) auto
    then show "span_avail m s' \<inter> (\<Union>i \<in> I. obj_addrs s i) = {}" by (auto simp: span_avail_def s'(2) objs)
    show "span_avail m s' \<subseteq> span_avail (mem h) s" by (auto simp: span_avail_def s'(2) objs)
  qed
  show "serve_used h \<union> (\<Union>i \<in> I. obj_addrs s i) \<subseteq> serve_used h'"
  proof
    fix a assume a: "a \<in> serve_used h \<union> (\<Union>i \<in> I. obj_addrs s i)"
    then have "a \<in> heap_used h" using sub g(2) by (auto simp: serve_used_def)
    moreover have "a \<notin> span_avail m t" if y: "y \<in> set (reg h k)" "spans h' y = Some t" for k y t
    proof (cases "y = x")
      case True
      then have "t = s'" using y(2) mh by simp
      then show ?thesis using a av x by (auto simp: serve_used_def)
    next
      case False
      then have t: "spans h y = Some t" using y(2) mh by simp
      then have "span_area t \<inter> span_area s = {}" using P y(1) x False unfolding spans_placed_def areas_apart_def by blast
      moreover have "span_avail m t = span_avail (mem h) t"
        using P y(1) t span_good_mem(3) [OF _ out] unfolding spans_placed_def span_placed_def mh pu by fastforce
      ultimately show ?thesis using a sub span_avail_area [of "mem h" t] y(1) t by (auto simp: serve_used_def)
    qed
    ultimately show "a \<in> serve_used h'" by (simp add: serve_used_def r hu mh)
  qed
qed


subsection \<open>An object is taken\<close>

definition no_room :: "'a xSpanPool_scheme \<Rightarrow> xSpan option \<Rightarrow> bool" where
  "no_room h so \<longleftrightarrow> (\<exists>s. so = Some s \<and> span_free (mem h) s = {})"

text \<open>Taking an object, or finding a span full, changes the spans and the memory only.\<close>

lemma takeObject_serving:
  assumes "serving os A h" and "set xs \<subseteq> set (reg h sc)" and c: "c = ucast (class_to_size ! sc)"
  shows "\<exists>r S m. takeObject c k xs h = Some (r, h\<lparr>spans := S, mem := m\<rparr>) \<and> serving os A (h\<lparr>spans := S, mem := m\<rparr>) \<and>
    serve_used h \<subseteq> serve_used (h\<lparr>spans := S, mem := m\<rparr>) \<and> (\<forall>y. y \<notin> set xs \<longrightarrow> S y = spans h y) \<and>
    objects (h\<lparr>spans := S, mem := m\<rparr>) = objects h \<and>
    (case r of
       None \<Rightarrow> m = mem h \<and> (\<forall>x \<in> set xs. no_room h (spans h x) \<and> no_room h (S x))
     | Some (i, p, g) \<Rightarrow> blk p c \<subseteq> A \<inter> objects h \<and> blk p c \<inter> serve_used h = {} \<and> blk p c \<subseteq> serve_used (h\<lparr>spans := S, mem := m\<rparr>) \<and>
         (\<forall>y. m y = (if y \<in> blk p c then Some 0 else mem h y)))"
  using assms(1,2)
proof (induction xs arbitrary: h k)
  case Nil
  then show ?case by (intro exI [of _ None] exI [of _ "spans h"] exI [of _ "mem h"]) simp
next
  case (Cons x xs)
  have xr: "x \<in> set (reg h sc)" "set xs \<subseteq> set (reg h sc)" using Cons.prems(2) by simp_all
  then obtain s where s: "x \<noteq> 0" "spans h x = Some s" "span_good h sc s" "span_area s \<subseteq> A \<inter> heap_used h"
    using reg_span [OF Cons.prems(1)] by metis
  have ok: "span_ok (mem h) s" and cs: "classSize s = c" and bits: "\<forall>k < 4 * bitmap_words (nelems s). allocBits s + of_nat k \<in> pool_used h"
    using s(3) by (simp_all add: span_good_def c)
  from ok show ?case
  proof (cases rule: freeOffset_cases)
    case (full t)
    let ?h = "h\<lparr>spans := (spans h)(x \<mapsto> t), mem := mem h\<rparr>"
    have S: "serving os A ?h"
      using full by (intro serving_update(1) [OF Cons.prems(1) xr(1) s(2) full(3), of "{}"]) simp_all
    have "serve_used h \<union> (\<Union>i \<in> {}. obj_addrs s i) \<subseteq> serve_used ?h"
      using full by (intro serving_update(2) [OF Cons.prems(1) xr(1) s(2) full(3), of "{}"]) simp_all
    then have S': "serve_used h \<subseteq> serve_used ?h" by simp
    have O: "objects ?h = objects h"
      using full by (intro serving_update(5) [OF Cons.prems(1) xr(1) s(2) full(3), of "{}"]) simp_all
    have "set xs \<subseteq> set (reg ?h sc)" using xr(2) by (simp add: reg_def)
    from Cons.IH [OF S this, of "k + 1"] obtain r S m where R: "takeObject c (k + 1) xs ?h = Some (r, ?h\<lparr>spans := S, mem := m\<rparr>)"
      "serving os A (?h\<lparr>spans := S, mem := m\<rparr>)" "serve_used ?h \<subseteq> serve_used (?h\<lparr>spans := S, mem := m\<rparr>)"
      "\<forall>y. y \<notin> set xs \<longrightarrow> S y = spans ?h y" "objects (?h\<lparr>spans := S, mem := m\<rparr>) = objects ?h"
      "case r of None \<Rightarrow> m = mem ?h \<and> (\<forall>x \<in> set xs. no_room ?h (spans ?h x) \<and> no_room ?h (S x))
       | Some (i, p, g) \<Rightarrow> blk p c \<subseteq> A \<inter> objects ?h \<and> blk p c \<inter> serve_used ?h = {} \<and> blk p c \<subseteq> serve_used (?h\<lparr>spans := S, mem := m\<rparr>) \<and>
           (\<forall>y. m y = (if y \<in> blk p c then Some 0 else mem ?h y))" by blast
    have "takeObject c k (x # xs) h = Some (r, h\<lparr>spans := S, mem := m\<rparr>)" using s(1,2) full(4) R(1) by (simp add: Let_def)
    moreover have "no_room ?h u = no_room h u" for u by (simp add: no_room_def)
    then have "no_room h (spans h y) \<and> no_room h (S y)" if "r = None" "y = x \<or> y \<in> set xs" for y
      using R(4,6) full(1,2) s(2) that by (cases "y = x"; cases "x \<in> set xs") (auto simp: no_room_def)
    ultimately show ?thesis using R S' unfolding O
      by (intro exI [of _ r] exI [of _ S] exI [of _ m]) (auto split: option.splits)
  next
    case (object i t)
    have i: "i < unat (nelems s)" using object(1) by (simp add: span_free_def)
    let ?p = "of_nat i * classSize s + startAddr s"
    note b = obj_addrs_blk [OF ok i]
    note sub = obj_addrs_area [OF i]
    have "(i + 1) * unat (classSize s) \<le> unat (nelems s) * unat (classSize s)" using i by (intro mult_le_mono1) simp
    then have "unat ?p + unat (classSize s) \<le> 2 ^ 64" using ok span_index_bound(5) [OF ok i] by (simp add: span_ok_def)
    moreover have "\<forall>y \<in> obj_addrs s i. mem h y \<noteq> None" using sub s(4) Cons.prems(1) by (auto simp: serving_def)
    ultimately obtain m where m: "clear ?p (classSize s) (h\<lparr>spans := (spans h)(x \<mapsto> t)\<rparr>) = Some (h\<lparr>spans := (spans h)(x \<mapsto> t), mem := m\<rparr>)"
      "\<forall>y. m y = (if y \<in> obj_addrs s i then Some 0 else mem h y)"
      using clear_ok [of ?p "classSize s" "h\<lparr>spans := (spans h)(x \<mapsto> t)\<rparr>"] unfolding b by auto
    let ?h = "h\<lparr>spans := (spans h)(x \<mapsto> t), mem := m\<rparr>"
    have "pool_used h \<inter> obj_addrs s i = {}" using serving_pool [OF Cons.prems(1)] sub s(4) by blast
    then have "\<forall>y \<in> pool_used h. m y = mem h y" using m(2) by (metis disjoint_iff)
    then have "\<forall>k < 4 * bitmap_words (nelems t). m (allocBits t + of_nat k) = mem h (allocBits t + of_nat k)"
      using bits by (simp add: object)
    from span_ok_mem [OF this] object(3,4) have t: "span_ok m t" "span_free m t = span_free (mem h) s - {i}" by simp_all
    have dm: "dom m = dom (mem h)" "\<forall>y. y \<notin> span_area s \<longrightarrow> m y = mem h y"
      using m(2) sub s(4) Cons.prems(1) by (auto simp: serving_def dom_def split: if_splits)
    have S: "serving os A ?h" "serve_used h \<union> obj_addrs s i \<subseteq> serve_used ?h" "obj_addrs s i \<inter> serve_used h = {}" "obj_addrs s i \<subseteq> A \<inter> objects h"
      "objects ?h = objects h"
      using serving_update [OF Cons.prems(1) xr(1) s(2) t(1), of "{i}"] t(2) object dm by simp_all
    have "takeObject c k (x # xs) h = Some (Some (k, ?p, needGrow t), ?h)"
      using s(1,2) object(5) m(1) cs by (simp add: Let_def)
    moreover have "\<forall>y. y \<notin> set (x # xs) \<longrightarrow> ((spans h)(x \<mapsto> t)) y = spans h y" by simp
    moreover have "blk ?p c = obj_addrs s i" using b cs by simp
    then have "blk ?p c \<subseteq> A \<inter> objects h" "blk ?p c \<inter> serve_used h = {}" "blk ?p c \<subseteq> serve_used ?h" "serve_used h \<subseteq> serve_used ?h"
      "\<forall>y. m y = (if y \<in> blk ?p c then Some 0 else mem h y)"
      using S m(2) by (simp_all only: simp_thms Un_subset_iff)
    ultimately show ?thesis using S(1,5)
      by (intro exI [of _ "Some (k, ?p, needGrow t)"] exI [of _ "(spans h)(x \<mapsto> t)"] exI [of _ m])
        (unfold option.case prod.case, intro conjI; assumption)
  qed
qed


subsection \<open>What does not matter\<close>

lemma span_next_good:
  "span_ok m (s\<lparr>next_span := n\<rparr>) = span_ok m s" "span_free m (s\<lparr>next_span := n\<rparr>) = span_free m s"
  "span_area (s\<lparr>next_span := n\<rparr>) = span_area s" "span_avail m (s\<lparr>next_span := n\<rparr>) = span_avail m s"
  by (simp_all add: span_ok_def span_free_def span_area_def span_avail_def cache_at_def obj_addrs_def)

lemma pages_ok_cong:
  assumes "pool_xrm h' = pool_xrm h" "pool_index h' = pool_index h" "mem h' = mem h" "calls h' = calls h"
    and "treap h' = treap h" "treap_nodes h' = treap_nodes h" "chunks h' = chunks h" "addrMap h' = addrMap h" "rawLinear h' = rawLinear h"
  shows "pages_ok os h' cs = pages_ok os h cs" and "heap_used h' = heap_used h" and "pool_used h' = pool_used h"
    and "pool_clean h' = pool_clean h"
proof -
  show u: "pool_used h' = pool_used h" by (rule pool_used_cong) (simp_all add: assms)
  show "pool_clean h' = pool_clean h" by (rule pool_clean_cong) (simp_all add: assms)
  have "pool_inv os h' = pool_inv os h" by (rule pool_inv_cong) (simp_all add: assms)
  moreover have r: "treap_rep h' cs = treap_rep h cs" for cs using u assms by (simp add: treap_rep_def treap_ok_def)
  ultimately show "pages_ok os h' cs = pages_ok os h cs" using u assms
    by (simp add: pages_ok_def heap_rep_def tables_ok_def page_span_def table_of_def)
  show "heap_used h' = heap_used h" using r assms by (simp add: heap_used_def)
qed

text \<open>
  Links between spans, pending growth and generations do not matter, and a span may leave its list: then
  all its objects count as used.
\<close>

lemma serving_frame:
  assumes S: "serving os A h"
    and e: "pool_xrm h' = pool_xrm h" "pool_index h' = pool_index h" "mem h' = mem h" "calls h' = calls h"
      "treap h' = treap h" "treap_nodes h' = treap_nodes h" "chunks h' = chunks h" "addrMap h' = addrMap h" "rawLinear h' = rawLinear h"
      "classFree h' = classFree h"
    and r: "\<forall>k. set (reg h' k) \<subseteq> set (reg h k) \<and> distinct (reg h' k)"
    and n: "\<forall>x. \<exists>n. spans h' x = map_option (\<lambda>s. s\<lparr>next_span := n\<rparr>) (spans h x)"
  shows "serving os A h'" and "serve_used h \<subseteq> serve_used h'" and "objects h' = objects h"
proof -
  note c = pages_ok_cong [OF e(1-9)]
  have P: "spans_placed A h" using S by (simp add: serving_def)
  have sp: "span_placed A h' k x" if "x \<in> set (reg h' k)" for k x
  proof -
    have "x \<in> set (reg h k)" using r that by blast
    then obtain s where s: "x \<noteq> 0" "spans h x = Some s" "span_good h k s" "span_area s \<subseteq> A \<inter> heap_used h" "x \<in> pool_used h"
      using P unfolding spans_placed_def span_placed_def by blast
    obtain n where "spans h' x = Some (s\<lparr>next_span := n\<rparr>)" using n s(2) by (metis option.simps(9))
    moreover have "span_good h' k (s\<lparr>next_span := n\<rparr>)" using s(3) by (simp add: span_good_def span_next_good e c)
    ultimately show ?thesis using s by (simp add: span_placed_def span_next_good c)
  qed
  have src: "\<exists>s n. spans h x = Some s \<and> t = s\<lparr>next_span := n\<rparr>" if "spans h' x = Some t" for x t
  proof -
    obtain m where "spans h' x = map_option (\<lambda>s. s\<lparr>next_span := m\<rparr>) (spans h x)" using n by blast
    then show ?thesis using that by (cases "spans h x") auto
  qed
  have ap: "areas_apart h' x y" if a: "areas_apart h x y" for x y
  proof -
    have "span_area s \<inter> span_area t = {}" if st: "spans h' x = Some s" "spans h' y = Some t" for s t
    proof -
      obtain s0 where "spans h x = Some s0" "span_area s = span_area s0" using src [OF st(1)] span_next_good(3) by blast
      moreover obtain t0 where "spans h y = Some t0" "span_area t = span_area t0" using src [OF st(2)] span_next_good(3) by blast
      ultimately show ?thesis using a by (simp add: areas_apart_def)
    qed
    then show ?thesis using a by (simp add: areas_apart_def)
  qed
  have "areas_apart h' x y" if xy: "x \<in> set (reg h' j)" "y \<in> set (reg h' k)" "(j, x) \<noteq> (k, y)" for j k x y
  proof (rule ap)
    have "x \<in> set (reg h j)" "y \<in> set (reg h k)" using r xy(1,2) by blast+
    then show "areas_apart h x y" using P xy(3) unfolding spans_placed_def by blast
  qed
  moreover have "distinct (reg h' k)" for k using r by blast
  ultimately have "spans_placed A h'" using sp unfolding spans_placed_def by blast
  moreover have "\<forall>y. rel_option same_geometry (spans h y) (spans h' y)"
  proof
    fix y
    obtain k where "spans h' y = map_option (\<lambda>s. s\<lparr>next_span := k\<rparr>) (spans h y)" using n by blast
    then show "rel_option same_geometry (spans h y) (spans h' y)" by (cases "spans h y") (simp_all add: same_geometry_def)
  qed
  from spans_known_keep [OF _ _ _ _ _ this] have "spans_known h'" "objects h' = objects h"
    using S spanOf_tables [OF e(8,9)] by (simp_all add: serving_def c e)
  ultimately show "serving os A h'" "objects h' = objects h" using S by (simp_all add: serving_def c e)
  have "a \<notin> span_avail (mem h') t" if a: "a \<in> serve_used h" and t: "x \<in> set (reg h' k)" "spans h' x = Some t" for a k x t
  proof -
    obtain s where "spans h x = Some s" "span_avail (mem h') t = span_avail (mem h') s"
      using src [OF t(2)] span_next_good(4) by blast
    moreover have "x \<in> set (reg h k)" using r t(1) by blast
    ultimately show ?thesis using a unfolding serve_used_def e(3) by blast
  qed
  then show "serve_used h \<subseteq> serve_used h'" by (auto simp: serve_used_def c)
qed

lemma same_next: "\<exists>n. spans h x = map_option (\<lambda>s. s\<lparr>next_span := n\<rparr>) (spans h x)"
proof (cases "spans h x")
  case (Some s)
  then show ?thesis by (intro exI [of _ "next_span s"]) simp
qed simp

lemma serving_quiet:
  assumes "serving os A h"
  shows "serving os A (h\<lparr>inuse := I, spanGen := G, pending := P\<rparr>)" and "serve_used (h\<lparr>inuse := I, spanGen := G, pending := P\<rparr>) = serve_used h"
    and "objects (h\<lparr>inuse := I, spanGen := G, pending := P\<rparr>) = objects h"
proof -
  let ?h = "h\<lparr>inuse := I, spanGen := G, pending := P\<rparr>"
  have r: "reg ?h = reg h" by (simp add: fun_eq_iff reg_def)
  have "distinct (reg h k)" for k using assms by (simp add: serving_def spans_placed_def)
  then show "serving os A ?h" using same_next [of h] by (intro serving_frame(1) [OF assms]) (simp_all add: r)
  have "heap_used ?h = heap_used h" by (rule pages_ok_cong) simp_all
  then show "serve_used ?h = serve_used h" by (simp add: serve_used_def r)
  show "objects ?h = objects h" by (simp add: objects_def)
qed

lemma serving_async:
  assumes "serving os A h"
  shows "serving os A (addInuse sc (if g then startAsync sc gen h else h))"
    and "serve_used (addInuse sc (if g then startAsync sc gen h else h)) = serve_used h"
    and "classSpans (addInuse sc (if g then startAsync sc gen h else h)) = classSpans h"
    and "objects (addInuse sc (if g then startAsync sc gen h else h)) = objects h"
proof -
  let ?h = "addInuse sc (if g then startAsync sc gen h else h)"
  obtain I G P where e: "?h = h\<lparr>inuse := I, spanGen := G, pending := P\<rparr>"
  proof -
    have "?h = h\<lparr>inuse := inuse ?h, spanGen := spanGen ?h, pending := pending ?h\<rparr>"
      by (simp add: addInuse_def startAsync_def needExpendAsync_def)
    then show ?thesis by (rule that)
  qed
  show "serving os A ?h" "serve_used ?h = serve_used h" "classSpans ?h = classSpans h" "objects ?h = objects h"
    unfolding e using serving_quiet [OF assms] by simp_all
qed

text \<open>The free chunks and the metadata pool are as they were.\<close>

definition same_stock :: "'a xHeap_scheme \<Rightarrow> 'a xHeap_scheme \<Rightarrow> bool" where
  "same_stock h h' \<longleftrightarrow> pool_xrm h' = pool_xrm h \<and> pool_index h' = pool_index h \<and> treap h' = treap h \<and>
     treap_nodes h' = treap_nodes h \<and> chunks h' = chunks h"

lemma removeHead_serving:
  assumes S: "serving os A h"
  shows "\<exists>h'. growSpan os rnd sc RemoveHead gen h = Some (Inr (), h') \<and> serving os A h' \<and> serve_used h \<subseteq> serve_used h' \<and> mem h' = mem h \<and>
    same_stock h h' \<and> objects h' = objects h"
proof (cases "reg h sc")
  case Nil
  then show ?thesis using S by (simp add: growSpan_def reg_def same_stock_def)
next
  case (Cons x xs)
  then obtain s where s: "x \<noteq> 0" "spans h x = Some s" using reg_span [OF S, of x sc] by auto
  have C: "classSpans h sc = Some (x # xs)" using Cons by (simp add: reg_def split: option.splits)
  show ?thesis
  proof (cases "isFull s")
    case False
    then show ?thesis using S C s by (simp add: growSpan_def same_stock_def)
  next
    case True
    obtain n where n: "list_insert x (classFull h sc, spans h) = Some (x, (spans h)(x \<mapsto> s\<lparr>next_span := n\<rparr>))"
    proof (cases "classFull h sc = 0")
      case True
      then show ?thesis using s that [of 0] by (simp add: list_insert_def set_next_def)
    next
      case False
      then show ?thesis using s that [of "classFull h sc"] by (simp add: list_insert_def set_next_def)
    qed
    let ?g = "if sint gen < 0 then 1 else gen"
    let ?h = "h\<lparr>classFull := (classFull h)(sc := x), spans := (spans h)(x \<mapsto> s\<lparr>next_span := n\<rparr>), classSpans := (classSpans h)(sc := Some xs),
      spanGen := (spanGen h)(sc := ?g + 1)\<rparr>"
    have g: "growSpan os rnd sc RemoveHead gen h = Some (Inr (), ?h)"
      using C s True n by (simp add: growSpan_def releaseSpan_def)
    have r: "\<forall>k. set (reg ?h k) \<subseteq> set (reg h k) \<and> distinct (reg ?h k)"
    proof
      fix k
      have "distinct (reg h k)" using S by (simp add: serving_def spans_placed_def)
      then show "set (reg ?h k) \<subseteq> set (reg h k) \<and> distinct (reg ?h k)" using C by (auto simp: reg_def)
    qed
    have "\<forall>y. \<exists>m. spans ?h y = map_option (\<lambda>s. s\<lparr>next_span := m\<rparr>) (spans h y)"
    proof
      fix y
      show "\<exists>m. spans ?h y = map_option (\<lambda>s. s\<lparr>next_span := m\<rparr>) (spans h y)"
        using same_next [of h y] s(2) by (cases "y = x") auto
    qed
    note fr = serving_frame [OF S _ _ _ _ _ _ _ _ _ _ r this]
    have "serving os A ?h" "serve_used h \<subseteq> serve_used ?h" "objects ?h = objects h" by (rule fr; simp)+
    moreover have "mem ?h = mem h" "same_stock h ?h" by (simp_all add: same_stock_def)
    ultimately show ?thesis using g by blast
  qed
qed

end
