(* ===== verification/SpanOpen.thy ===== *)
theory SpanOpen
  imports Serving
begin

text \<open>
  A new span for a class, from the metadata for its record over the pages of a free chunk and the page
  tables to its bit maps and its place in the list: the invariant of \<open>Serving\<close> holds again, and all
  objects of the span were free pages before.
\<close>

subsection \<open>A new span\<close>

lemma reg_append: "reg (h\<lparr>classSpans := (classSpans h)(sc := Some (reg h sc @ [x]))\<rparr>) = (reg h)(sc := reg h sc @ [x])"
  by (simp add: fun_eq_iff reg_def)

text \<open>A span that was not known before: its bit maps are new memory.\<close>

definition span_new :: "'a xHeap_scheme \<Rightarrow> 'a xHeap_scheme \<Rightarrow> uintptr \<Rightarrow> xSpan \<Rightarrow> bool" where
  "span_new h h' x s \<longleftrightarrow> span_known h' x s \<and>
     (map_bytes (gcmarkBits s) (nelems s) \<union> map_bytes (allocBits s) (nelems s)) \<inter> pool_used h = {} \<and>
     map_bytes (gcmarkBits s) (nelems s) \<inter> map_bytes (allocBits s) (nelems s) = {}"

lemma serving_extend:
  assumes S: "serving os A h" and cs: "pages_ok os h cs" and cs': "pages_ok os h' cs'"
    and B: "B \<subseteq> free_bytes (chunks h) cs" "free_bytes (chunks h') cs' = free_bytes (chunks h) cs - B"
    and mv: "pool_moves os A h h'" and cf: "classFree h' = classFree h"
    and x: "x \<noteq> 0" "x \<notin> pool_used h" "x \<in> pool_used h'" "spans h' = (spans h)(x \<mapsto> s)" "span_good h' sc s" "span_area s \<subseteq> B"
    and r: "reg h' = (reg h)(sc := reg h sc @ [x])"
    and k: "span_new h h' x s" "\<forall>p. unat p < 2 ^ 47 \<longrightarrow> p \<notin> B \<longrightarrow> spanOf p h' = spanOf p h"
  shows "serving os A h'" and "serve_used h \<subseteq> serve_used h'" and "objects h \<subseteq> objects h'"
proof -
  have hu: "heap_used h = - free_bytes (chunks h) cs" "heap_used h' = - free_bytes (chunks h') cs'"
    using cs cs' by (simp_all add: pages_ok_def heap_rep_def heap_used_rep)
  then have up: "heap_used h \<subseteq> heap_used h'" and new: "span_area s \<subseteq> A \<inter> heap_used h'" "span_area s \<inter> heap_used h = {}"
    using B x(6) S by (auto simp: serving_def)
  have P: "spans_placed A h" using S by (simp add: serving_def)
  have pu: "pool_used h \<subseteq> pool_used h'" "\<forall>y \<in> pool_used h. mem h' y = mem h y" using mv by (auto simp: pool_moves_def)
  have old: "y \<noteq> x \<and> y \<in> pool_used h \<and> (\<exists>t. y \<noteq> 0 \<and> spans h y = Some t \<and> span_good h k t \<and> span_area t \<subseteq> A \<inter> heap_used h)"
    if "y \<in> set (reg h k)" for k y
    using P that x(2) unfolding spans_placed_def span_placed_def by blast
  have placed: "span_placed A h' k y" if y: "y \<in> set (reg h' k)" for k y
  proof (cases "y \<in> set (reg h k)")
    case True
    then obtain t where "y \<noteq> x" "y \<in> pool_used h" "y \<noteq> 0" "spans h y = Some t" "span_good h k t" "span_area t \<subseteq> A \<inter> heap_used h"
      using old by blast
    then show ?thesis using span_good_mem(1) [OF _ pu(2,1)] up pu(1) x(4) by (auto simp: span_placed_def)
  next
    case False
    then have "y = x" "k = sc" using y r by (auto split: if_splits)
    then show ?thesis using x new(1) by (simp add: span_placed_def)
  qed
  have apart: "areas_apart h' y z" if y: "y \<in> set (reg h' j)" "z \<in> set (reg h' k)" "(j, y) \<noteq> (k, z)" for j k y z
  proof -
    have sp: "spans h' v = (if v = x then Some s else spans h v)" for v by (simp add: x(4))
    consider "y \<in> set (reg h j)" "z \<in> set (reg h k)" | "y = x" "j = sc" "z \<in> set (reg h k)" | "y \<in> set (reg h j)" "z = x" "k = sc"
      using y r by (auto split: if_splits)
    then show ?thesis
    proof cases
      case 1
      then have "areas_apart h y z" using P y(3) unfolding spans_placed_def by blast
      then show ?thesis using old 1 by (auto simp: areas_apart_def sp)
    next
      case 2
      then obtain t where "z \<noteq> x" "spans h z = Some t" "span_area t \<subseteq> heap_used h" using old by blast
      then show ?thesis using new(2) 2 by (auto simp: areas_apart_def sp)
    next
      case 3
      then obtain t where "y \<noteq> x" "spans h y = Some t" "span_area t \<subseteq> heap_used h" using old by blast
      then show ?thesis using new(2) 3 by (auto simp: areas_apart_def sp)
    qed
  qed
  have "distinct (reg h' k)" for k
  proof -
    have "distinct (reg h k)" using P by (simp add: spans_placed_def)
    then show ?thesis using old [of x k] r by auto
  qed
  then have "spans_placed A h'" using placed apart unfolding spans_placed_def by blast
  moreover have "- heap_used h' \<subseteq> A" using up S by (auto simp: serving_def)
  moreover have "pool_clean h'" "A \<subseteq> dom (mem h')" using mv S by (auto simp: pool_moves_def serving_def)
  moreover have kn: "spans_known h'" "objects h' = objects h \<union> span_area s"
  proof -
    have t: "\<forall>p \<in> heap_used h. unat p < 2 ^ 47 \<longrightarrow> spanOf p h' = spanOf p h" using k(2) B(1) hu(1) by auto
    have "dom (mem h) \<subseteq> dom (mem h')" using mv by (simp add: pool_moves_def)
    from spans_known_new [OF _ this pu(1) up t x(2,4)] show "spans_known h'" "objects h' = objects h \<union> span_area s"
      using S k(1) by (simp_all add: serving_def span_new_def)
  qed
  ultimately show "serving os A h'" using S cs' by (auto simp: serving_def cf)
  show "objects h \<subseteq> objects h'" using kn(2) by blast
  have "a \<notin> span_avail (mem h') t" if a: "a \<in> serve_used h" and y: "y \<in> set (reg h' k)" "spans h' y = Some t" for a k y t
  proof (cases "y \<in> set (reg h k)")
    case True
    then obtain u where u: "y \<noteq> x" "spans h y = Some u" "span_good h k u" using old by blast
    have "span_avail (mem h') u = span_avail (mem h) u" by (rule span_good_mem(3) [OF u(3) pu(2,1)])
    then show ?thesis using a True u y(2) x(4) by (auto simp: serve_used_def)
  next
    case False
    then have "y = x" using y(1) r by (auto split: if_splits)
    then have "t = s" using y(2) x(4) by simp
    then show ?thesis using a new(2) span_avail_area [of "mem h'" s] by (auto simp: serve_used_def)
  qed
  then show "serve_used h \<subseteq> serve_used h'" using up by (auto simp: serve_used_def)
qed


lemma raw_more_heap:
  "raw_pool.more h' = raw_pool.more h \<Longrightarrow> treap h' = treap h \<and> treap_nodes h' = treap_nodes h \<and> chunks h' = chunks h \<and>
    addrMap h' = addrMap h \<and> rawLinear h' = rawLinear h \<and> spans h' = spans h \<and> classFree h' = classFree h \<and>
    xHeap.more h' = xHeap.more (h :: 'a xHeap_scheme)"
  by (cases h; cases h') simp

lemma heap_more_reg: "xHeap.more h' = xHeap.more h \<Longrightarrow> classSpans h' = classSpans h"
  by (cases h; cases h') simp

lemma pages_ok_pool:
  assumes p: "pages_ok os h cs" and mv: "pool_moves os A h h'" and m: "raw_pool.more h' = raw_pool.more (h :: 'a xHeap_scheme)"
  shows "pages_ok os h' cs"
proof -
  note e = raw_more_heap [OF m]
  obtain T where T: "treap_ok h T" "cs = map (chunk_of (treap_nodes h)) (inorder T)"
    using p by (auto simp: pages_ok_def heap_rep_def treap_rep_def)
  have "treap_ok h' T" using T(1) mv e by (auto simp: treap_ok_def pool_moves_def)
  then have "treap_rep h' cs" using T(2) e by (auto simp: treap_rep_def)
  then show ?thesis using p mv e
    by (simp add: pages_ok_def heap_rep_def tables_ok_def page_span_def table_of_def pool_moves_def)
qed

lemma span_Init_more: "span_Init os f s p = Some (r, s', p') \<Longrightarrow> raw_pool.more p' = raw_pool.more p"
proof -
  have n: "newMarkBits os n z p = Some (r, p') \<Longrightarrow> raw_pool.more p' = raw_pool.more p" for n z p r p'
    by (auto simp: newMarkBits_unfold dest: pool_alloc_more split: option.splits sum.splits prod.splits if_splits)
  assume "span_Init os f s p = Some (r, s', p')"
  then show ?thesis
    by (auto simp: span_Init_def Let_def newAllocBits_def dest!: n split: option.splits sum.splits prod.splits)
qed

text \<open>Three quarters of a small number of objects are no more than all of them.\<close>

lemma round24_small: "n < 2 ^ 24 \<Longrightarrow> round24 n = n"
proof -
  have "bit_length n \<le> k" if "n < 2 ^ k" for n k
    using that
  proof (induction k arbitrary: n)
    case (Suc k)
    then have "n div 2 < 2 ^ k" by auto
    from Suc.IH [OF this] show ?case by (simp del: bit_length.simps add: bit_length.simps [of n])
  qed simp
  moreover assume "n < 2 ^ 24"
  ultimately have "bit_length n - 24 = 0" by simp
  then show ?thesis by (simp add: round24_def Let_def del: bit_length.simps)
qed

lemma extension_le: "unat n < 2 ^ 22 \<Longrightarrow> extension n (3, 2) \<le> n"
proof -
  assume n: "unat n < 2 ^ 22"
  then have r: "round24 (unat n) = unat n" "round24 (unat n * 3) = unat n * 3" by (simp_all add: round24_small)
  then have "unat (extension n (3, 2)) = unat n * 3 div 4" using n by (simp add: extension_def unat_of_nat)
  then show ?thesis by (simp add: word_le_nat_alt)
qed


lemma class_span_fresh:
  assumes c: "0 < sc" "sc < NumSizeClasses" and st: "start \<noteq> 0" "unat start + unat (class_pages sc) * 4096 \<le> 2 ^ 47"
  defines "s \<equiv> zero_span\<lparr>startAddr := start, classIndex := sc, classSize := ucast (class_to_size ! sc), npages := ucast (class_pages sc)\<rparr>"
  shows "span_fresh s" and "0 < span_objects s" and "span_objects s < 2 ^ 22"
    and "span_objects s * unat (ucast (class_to_size ! sc) :: uintptr) \<le> unat (class_pages sc) * 4096"
    and "unat (ucast (class_pages sc) :: uintptr) = unat (class_pages sc)" and "0 < (ucast (class_pages sc) :: uintptr)"
    and "span_objects s \<le> 32768"
proof -
  have z: "0 < class_size sc" "class_size sc \<le> unat (class_pages sc) * 4096" "unat (class_pages sc) \<le> 10"
    using class_size_le_span [of sc] class_pages_le [of sc] c by simp_all
  have uc: "unat (ucast (class_to_size ! sc) :: uintptr) = class_size sc" by (simp add: unat_ucast_16_64)
  show up: "unat (ucast (class_pages sc) :: uintptr) = unat (class_pages sc)" by (simp add: unat_ucast_8_64)
  then show "0 < (ucast (class_pages sc) :: uintptr)" using z by (cases "class_pages sc = 0") (auto simp: word_less_nat_alt)
  have f: "npages s = ucast (class_pages sc)" "classSize s = ucast (class_to_size ! sc)" "startAddr s = start" "classIndex s = sc"
    by (simp_all add: s_def)
  show "span_fresh s" using z st c by (simp add: span_fresh_def f up word_less_nat_alt uc unat_gt_0)
  have o: "span_objects s = unat (class_pages sc) * 4096 div class_size sc" by (simp add: span_objects_def f up uc)
  show "0 < span_objects s" using z by (simp add: o div_greater_zero_iff)
  have "span_objects s \<le> unat (class_pages sc) * 4096" by (simp add: o)
  then show "span_objects s < 2 ^ 22" using z(3) by simp
  have "class_size 1 \<le> class_size sc" using c by (intro class_size_mono) simp_all
  then have "8 \<le> class_size sc" by (simp add: class_to_size_def)
  then have "span_objects s \<le> unat (class_pages sc) * 4096 div 8" unfolding o by (rule div_le_mono2 [rotated]) simp
  then show "span_objects s \<le> 32768" using z(3) by simp
  show "span_objects s * unat (ucast (class_to_size ! sc) :: uintptr) \<le> unat (class_pages sc) * 4096" by (simp only: o uc div_times_less_eq_dividend)
qed


text \<open>
  A new span of a class, while a free chunk has the pages for it: the operation returns, and without
  an error the span is there, all its objects free, in the pages it took from the chunk.
\<close>

lemma class_allocnpages_pos: "0 < c \<Longrightarrow> c < NumSizeClasses \<Longrightarrow> class_to_allocnpages ! c \<noteq> 0"
proof -
  have "list_all (\<lambda>p. p \<noteq> 0) (tl class_to_allocnpages)" "length class_to_allocnpages = 67" by (simp_all add: class_to_allocnpages_def)
  moreover assume "0 < c" "c < NumSizeClasses"
  moreover from this have "c - 1 < length (tl class_to_allocnpages)" "tl class_to_allocnpages ! (c - 1) = class_to_allocnpages ! c"
    by (simp_all add: nth_tl)
  ultimately show ?thesis unfolding list_all_length by metis
qed

lemma new_struct_serving:
  fixes h :: "'a xHeap_scheme"
  assumes inv: "pool_inv os h" "pool_clean h" and A: "os_apart os A" and n: "0 < sz" "unat sz \<le> 4096"
  obtains (error) e h' where "new_struct os sz h = Some (Inl e, h')" "within_meta 1 h (Inl e :: goerr + uintptr) h'"
  | (ok) x h' where "new_struct os sz h = Some (Inr x, h')" "x \<noteq> 0" "x \<notin> pool_used h" "x \<in> pool_used h'"
      "pool_moves os A h h'" "raw_pool.more h' = raw_pool.more h" "within_meta 1 h (Inr x :: goerr + uintptr) h'"
proof -
  obtain r h' where al: "pool_alloc os sz h = Some (r, h')" using pool_alloc_safe [OF inv(1)] by fastforce
  then have st: "new_struct os sz h = Some (r, h')" by (simp add: new_struct_def xAllocator_alloc_def newXAllocator_def Let_def)
  note w = pool_alloc_within [OF inv(1) n(2) al]
  show ?thesis
  proof (cases r)
    case (Inl e)
    then show ?thesis using st error w by blast
  next
    case (Inr x)
    note so = pool_alloc_sound [OF inv(1) al [unfolded Inr]]
    have "x \<in> blk x sz" using n(1) by (simp add: word_less_nat_alt)
    then show ?thesis using ok [OF st [unfolded Inr] so(5) _ _ pool_alloc_moves [OF inv A al [unfolded Inr]] pool_alloc_more [OF al] w [unfolded Inr]] so(2,3)
      by blast
  qed
qed

lemma heap_allocSpan_fresh:
  fixes h :: "'a xHeap_scheme"
  assumes inv: "pages_ok os h cs" "pool_clean h" and A: "os_apart os A" "free_bytes (chunks h) cs \<subseteq> A" "0 \<notin> A"
    and c: "0 < sc" "sc < NumSizeClasses" and fit: "best_fit (chunks h) (ucast (class_pages sc)) cs = Some d"
  defines "np \<equiv> ucast (class_pages sc)" and "sz \<equiv> ucast (class_to_size ! sc)"
  shows "\<exists>r h'. heap_allocSpan os rnd np sc sz (3, 2) h = Some (r, h') \<and>
    (\<forall>x. r = Inr x \<longrightarrow> (\<exists>s B cs'. x \<noteq> 0 \<and> x \<notin> pool_used h \<and> x \<in> pool_used h' \<and> spans h' = (spans h)(x \<mapsto> s) \<and>
       span_good h' sc s \<and> span_free (mem h') s \<noteq> {} \<and> span_area s \<subseteq> B \<and> B \<subseteq> free_bytes (chunks h) cs \<and>
       pages_ok os h' cs' \<and> free_bytes (chunks h') cs' = free_bytes (chunks h) cs - B \<and> room_kept np (chunks h) cs (chunks h') cs' \<and>
       pool_moves os A h h' \<and> classFree h' = classFree h \<and> xHeap.more h' = xHeap.more h \<and>
       span_new h h' x s \<and> (\<forall>p. unat p < 2 ^ 47 \<longrightarrow> p \<notin> B \<longrightarrow> spanOf p h' = spanOf p h))) \<and> within_meta 4 h r h'"
proof -
  have np: "0 < np" unfolding np_def using class_span_fresh(6) [OF c, of 4096] class_pages_le [of sc] c by simp
  have pi: "pool_inv os h" using inv(1) by (simp add: pages_ok_def heap_rep_def)
  from pi inv(2) A(1) show ?thesis
  proof (rule new_struct_serving [of os h A xSpanSize])
    show "0 < xSpanSize" "unat xSpanSize \<le> 4096" by simp_all
  next
    fix e h' assume "new_struct os xSpanSize h = Some (Inl e, h')" and w: "within_meta 1 h (Inl e :: goerr + uintptr) h'"
    then show ?thesis using within_meta_mono [OF w, of 4] by (simp add: heap_allocSpan_def)
  next
    fix x h1 assume st1: "new_struct os xSpanSize h = Some (Inr x, h1)" and x: "x \<noteq> 0" "x \<notin> pool_used h" "x \<in> pool_used h1"
      and mv1: "pool_moves os A h h1" and more1: "raw_pool.more h1 = raw_pool.more h"
      and w1: "within_meta 1 h (Inr x :: goerr + uintptr) h1"
    note e1 = raw_more_heap [OF more1]
    let ?h2 = "h1\<lparr>spans := (spans h1)(x \<mapsto> zero_span)\<rparr>"
    have "pages_ok os ?h2 cs = pages_ok os h1 cs" "pool_clean ?h2 = pool_clean h1" by (rule pages_ok_cong; simp)+
    then have p2: "pages_ok os ?h2 cs" "pool_clean ?h2" using pages_ok_pool [OF inv(1) mv1 more1] mv1 by (simp_all add: pool_moves_def)
    have C: "chunks ?h2 = chunks h" using e1 by simp
    obtain r2 h3 where sp: "spanPages os rnd np x ?h2 = Some (r2, h3)" and
      R: "\<forall>start. r2 = Inr start \<longrightarrow> 4096 dvd unat start \<and> blk start (np * PageSize) \<subseteq> free_bytes (chunks ?h2) cs \<and>
       (\<exists>cs'. pages_ok os h3 cs' \<and> free_bytes (chunks h3) cs' = free_bytes (chunks ?h2) cs - blk start (np * PageSize) \<and>
          room_kept np (chunks ?h2) cs (chunks h3) cs') \<and>
       (\<forall>p. unat p < 2 ^ 47 \<longrightarrow> spanOf p h3 = (if p \<in> blk start (np * PageSize) then Some (Inr x) else spanOf p ?h2)) \<and>
       unat start + unat np * 4096 \<le> 2 ^ 47 \<and> (pool_clean ?h2 \<longrightarrow> (\<forall>A. os_apart os A \<longrightarrow> pool_moves os A ?h2 h3)) \<and>
       spans h3 = spans ?h2 \<and> classFree h3 = classFree ?h2 \<and> classFull h3 = classFull ?h2 \<and> xHeap.more h3 = xHeap.more ?h2" and w2: "within_meta 1 ?h2 r2 h3"
      using spanPages_ok [OF p2(1) _ np, of d rnd x] fit C unfolding np_def by auto
    have "within_meta 1 h1 r2 h3" by (rule within_meta_same [OF w2]) auto
    then have w12: "within_meta 2 h r2 h3" using within_meta_trans [OF w1, of 1 r2 h3] by (simp add: numeral_2_eq_2)
    show ?thesis
    proof (cases r2)
      case (Inl e)
      then show ?thesis using st1 sp np within_meta_mono [OF w12, of 4] by (simp add: heap_allocSpan_def)
    next
      case (Inr start)
      let ?s = "zero_span\<lparr>startAddr := start, classIndex := sc, classSize := sz, npages := np\<rparr>"
      from R Inr obtain cs' where b: "blk start (np * PageSize) \<subseteq> free_bytes (chunks h) cs" "pages_ok os h3 cs'"
        "free_bytes (chunks h3) cs' = free_bytes (chunks h) cs - blk start (np * PageSize)" "unat start + unat np * 4096 \<le> 2 ^ 47"
        "pool_moves os A ?h2 h3" "spans h3 = (spans h)(x \<mapsto> zero_span)" "classFree h3 = classFree h" "xHeap.more h3 = xHeap.more h"
        "room_kept np (chunks h) cs (chunks h3) cs'"
        "\<forall>p. unat p < 2 ^ 47 \<longrightarrow> spanOf p h3 = (if p \<in> blk start (np * PageSize) then Some (Inr x) else spanOf p ?h2)"
        using p2(2) A(1) C e1 by auto
      have tb: "spanOf p ?h2 = spanOf p h" for p using e1 by (intro spanOf_tables) simp_all
      have un: "unat np = unat (class_pages sc)" "unat (np * PageSize) = unat np * 4096"
      proof -
        show "unat np = unat (class_pages sc)" by (simp add: np_def unat_ucast_8_64)
        then show "unat (np * PageSize) = unat np * 4096" using class_pages_le [of sc] c(2) by (simp add: unat_mult_noof)
      qed
      then have "start \<in> blk start (np * PageSize)" using np by (simp add: word_less_nat_alt)
      then have s0: "start \<noteq> 0" using b(1) A(2,3) by blast
      note cf = class_span_fresh [OF c s0 b(4) [unfolded un(1)], folded sz_def np_def]
      have i3: "pool_inv os h3" "pool_clean h3" using b(5) by (simp_all add: pool_moves_def)
      obtain r3 s' h4 where si: "span_Init os (3, 2) ?s h3 = Some (r3, s', h4)" and
        I: "r3 = Inr () \<longrightarrow> pool_inv os h4 \<and> pool_clean h4 \<and> span_ok (mem h4) s' \<and> span_free (mem h4) s' = {..< span_objects ?s} \<and>
         unat (nelems s') = span_objects ?s \<and> allocCount s' = allocCount ?s \<and> startAddr s' = startAddr ?s \<and> classSize s' = classSize ?s \<and>
         bitmap (mem h4) (gcmarkBits s') (bitmap_words (nelems s')) \<and> (\<forall>i < span_objects ?s. \<not> membit (mem h4) (gcmarkBits s') i) \<and>
         pool_used h3 \<subseteq> pool_used h4 \<and> (\<forall>x \<in> pool_used h3. mem h4 x = mem h3 x) \<and>
         extensionPoint s' = extension (nelems s') (3, 2) \<and> (\<forall>k < 4 * bitmap_words (nelems s'). allocBits s' + of_nat k \<in> pool_used h4) \<and>
         (\<forall>A. os_apart os A \<longrightarrow> pool_moves os A h3 h4)"
        using span_Init_sound [OF i3 cf(1), of "(3, 2)"] by blast
      let ?h5 = "h4\<lparr>spans := (spans h4)(x \<mapsto> s')\<rparr>"
      have w4: "within_meta 4 h r3 h4"
        using within_meta_trans [OF w12, of 2 r3 h4] span_Init_within [OF i3 cf(1,7) si] by simp
      have al: "heap_allocSpan os rnd np sc sz (3, 2) h = Some (case r3 of Inl e \<Rightarrow> (Inl e, ?h5) | Inr _ \<Rightarrow> (Inr x, ?h5))"
        using st1 sp Inr np si by (simp add: heap_allocSpan_def Let_def split: sum.splits)
      show ?thesis
      proof (cases r3)
        case (Inl e)
        have "within_meta 4 h (Inl e :: goerr + uintptr) ?h5" by (rule within_meta_same [OF w4]) (simp_all add: Inl)
        then show ?thesis using al Inl by simp
      next
        case N: (Inr u)
        from I N have ok: "span_ok (mem h4) s'" "span_free (mem h4) s' = {..< span_objects ?s}" "unat (nelems s') = span_objects ?s"
          "allocCount s' = 0" "startAddr s' = start" "classSize s' = sz" "extensionPoint s' = extension (nelems s') (3, 2)"
          "\<forall>k < 4 * bitmap_words (nelems s'). allocBits s' + of_nat k \<in> pool_used h4" "pool_moves os A h3 h4"
          using A(1) by (auto simp: zero_span_def)
        note more4 = span_Init_more [OF si]
        have e5: "pages_ok os ?h5 cs' = pages_ok os h4 cs'" "pool_used ?h5 = pool_used h4" by (rule pages_ok_cong; simp)+
        have "pages_ok os ?h5 cs'" unfolding e5 by (rule pages_ok_pool [OF b(2) ok(9) more4])
        moreover have m13: "pool_moves os A h1 h3" using b(5) pool_moves_cong [of h3 h3 h1 ?h2] by (simp add: same_pool_def)
        have "pool_moves os A h ?h5"
        proof -
          from m13 have "pool_moves os A h h4" using mv1 ok(9) pool_moves_trans by blast
          then show ?thesis using pool_moves_cong [of h4 ?h5 h h] by (simp add: same_pool_def)
        qed
        moreover have "span_good ?h5 sc s'"
        proof -
          have "extensionPoint s' \<le> nelems s'" unfolding ok(7) using cf(3) ok(3) by (intro extension_le) simp
          then show ?thesis using ok e5(2) by (simp add: span_good_def sz_def)
        qed
        moreover have "span_area s' \<subseteq> blk start (np * PageSize)"
          using cf(4) by (auto simp: span_area_def ok un)
        moreover have "x \<in> pool_used ?h5" using x(3) m13 ok(9) unfolding e5(2) pool_moves_def by blast
        moreover have "spans ?h5 = (spans h)(x \<mapsto> s')" "classFree ?h5 = classFree h" "xHeap.more ?h5 = xHeap.more h" "chunks ?h5 = chunks h3"
          using raw_more_heap [OF more4] b by simp_all
        moreover have sp5: "spanOf p ?h5 = spanOf p h3" for p using raw_more_heap [OF more4] by (intro spanOf_tables) simp_all
        then have "\<forall>p. unat p < 2 ^ 47 \<longrightarrow> p \<notin> blk start (np * PageSize) \<longrightarrow> spanOf p ?h5 = spanOf p h" using b(10) tb by simp
        moreover have "span_new h ?h5 x s'"
        proof -
          note mp = span_Init_maps [OF i3 cf(1) si [unfolded N]]
          have u: "unat (nelems s') * unat (classSize s') \<le> unat np * 4096" using cf(4) by (simp add: ok un)
          have "unat p < 2 ^ 47" "p \<in> blk start (np * PageSize)" if "p \<in> span_area s'" for p
            using that u b(4) by (auto simp: span_area_def ok un)
          then have "\<forall>p \<in> span_area s'. spanOf p ?h5 = Some (Inr x)" using b(10) sp5 by simp
          moreover have "heap_used ?h5 = - free_bytes (chunks h3) cs'"
            using heap_used_rep [of ?h5 cs'] \<open>pages_ok os ?h5 cs'\<close> raw_more_heap [OF more4] by (simp add: pages_ok_def heap_rep_def)
          then have "span_area s' \<subseteq> heap_used ?h5" using b(3) \<open>span_area s' \<subseteq> blk start (np * PageSize)\<close> by blast
          moreover have "classIndex s' = sc" using mp(1) by simp
          then have "span_class s'" using mp(2) c(1) u by (simp add: span_class_def ok sz_def unat_ucast_16_64 un(1))
          moreover have "bitmap (mem h4) (gcmarkBits s') (bitmap_words (nelems s'))" using I N by simp
          moreover have "pool_used h \<subseteq> pool_used h3" using mv1 m13 by (auto simp: pool_moves_def)
          moreover have "unat (startAddr s') + unat (nelems s') * unat (classSize s') \<le> 2 ^ 47" using u b(4) by (simp add: ok)
          moreover have "pool_used h \<subseteq> pool_used h4" using ok(9) mv1 m13 unfolding pool_moves_def by blast
          moreover have "x \<in> pool_used h4" using x(3) m13 ok(9) unfolding pool_moves_def by blast
          ultimately have "span_known ?h5 x s'" using mp(3) x(1) unfolding span_known_def e5(2) by auto
          moreover have "(map_bytes (gcmarkBits s') (nelems s') \<union> map_bytes (allocBits s') (nelems s')) \<inter> pool_used h = {}"
            using mp(3) \<open>pool_used h \<subseteq> pool_used h3\<close> by blast
          ultimately show ?thesis using mp(4) by (simp add: span_new_def)
        qed
        moreover have "span_free (mem ?h5) s' \<noteq> {}" using ok(2) cf(2) by (simp add: lessThan_empty_iff)
        moreover have "within_meta 4 h (Inr x :: goerr + uintptr) ?h5" by (rule within_meta_same [OF w4]) simp_all
        moreover have "free_bytes (chunks ?h5) cs' = free_bytes (chunks h) cs - blk start (np * PageSize)"
          "room_kept np (chunks h) cs (chunks ?h5) cs'" using b(3,9) raw_more_heap [OF more4] by simp_all
        ultimately have "x \<noteq> 0 \<and> x \<notin> pool_used h \<and> x \<in> pool_used ?h5 \<and> spans ?h5 = (spans h)(x \<mapsto> s') \<and>
          span_good ?h5 sc s' \<and> span_free (mem ?h5) s' \<noteq> {} \<and> span_area s' \<subseteq> blk start (np * PageSize) \<and>
          blk start (np * PageSize) \<subseteq> free_bytes (chunks h) cs \<and> pages_ok os ?h5 cs' \<and>
          free_bytes (chunks ?h5) cs' = free_bytes (chunks h) cs - blk start (np * PageSize) \<and>
          room_kept np (chunks h) cs (chunks ?h5) cs' \<and> pool_moves os A h ?h5 \<and> classFree ?h5 = classFree h \<and>
          xHeap.more ?h5 = xHeap.more h \<and> span_new h ?h5 x s' \<and>
          (\<forall>p. unat p < 2 ^ 47 \<longrightarrow> p \<notin> blk start (np * PageSize) \<longrightarrow> spanOf p ?h5 = spanOf p h)"
          using x(1,2) b(1) by - (intro conjI; assumption)
        then show ?thesis using al N \<open>within_meta 4 h (Inr x :: goerr + uintptr) ?h5\<close>
          by (intro exI [of _ "Inr x"] exI [of _ ?h5] conjI allI impI) (simp, blast, assumption)
      qed
    qed
  qed
qed


text \<open>
  Room for \<open>k\<close> new spans of any classes: a chunk of ten pages for each, and metadata. The second
  definition says that a step leaves room for all but \<open>k\<close> of them.
\<close>

definition room :: "nat \<Rightarrow> 'a xHeap_scheme \<Rightarrow> bool" where
  "room k h \<longleftrightarrow> (\<exists>cs. treap_rep h cs \<and> chunk_room (chunks h) cs k) \<and> meta_room (4 * k) h"

definition within_room :: "'a xHeap_scheme \<Rightarrow> goerr + 'r \<Rightarrow> 'a xHeap_scheme \<Rightarrow> bool" where
  "within_room h r h' \<longleftrightarrow> (\<forall>k. room (Suc k) h \<longrightarrow> (\<exists>x. r = Inr x) \<and> room k h')"

text \<open>A free chunk that has the pages of a class.\<close>

definition growable :: "nat \<Rightarrow> 'a xSpanPool_scheme \<Rightarrow> bool" where
  "growable sc h \<longleftrightarrow> treap_find (ucast (class_pages sc)) h \<noteq> Some (Inl EmptyError)"

lemma room_cong:
  assumes "pool_xrm h' = pool_xrm h" "pool_index h' = pool_index h" "treap h' = treap h" "treap_nodes h' = treap_nodes h" "chunks h' = chunks h"
  shows "room k h' = room k h"
proof -
  have "pool_used h' = pool_used h" by (rule pool_used_cong) (simp_all add: assms)
  then have "treap_rep h' cs = treap_rep h cs" for cs using assms by (simp add: treap_rep_def treap_ok_def)
  then show ?thesis using assms by (simp add: room_def meta_room_def)
qed

lemma same_stock_room: "same_stock h h' \<Longrightarrow> room k h' = room k h"
  unfolding same_stock_def by (intro room_cong) simp_all

lemma room_mono: "room k h \<Longrightarrow> j \<le> k \<Longrightarrow> room j h"
proof -
  assume r: "room k h" and j: "j \<le> k"
  then have "chunk_room C cs k \<Longrightarrow> chunk_room C cs j" for C cs by (fastforce simp: chunk_room_def)
  then show ?thesis using r j meta_room_mono [of "4 * k" h "4 * j"] by (auto simp: room_def)
qed

lemma room_growable:
  assumes "room (Suc k) h" and "sc < NumSizeClasses"
  shows "growable sc h"
proof -
  obtain cs c ch where cs: "treap_rep h cs" "c \<in> set cs" "chunks h c = Some ch" "10 * Suc k \<le> unat (chunk_npages ch)"
    using assms(1) by (auto simp: room_def chunk_room_def)
  have "ucast (class_pages sc) \<le> fst (chunk_key (chunks h) c)"
    using cs(3,4) class_pages_le [of sc] assms(2) by (simp add: chunk_key_def word_le_nat_alt unat_ucast_8_64)
  then have "best_fit (chunks h) (ucast (class_pages sc)) cs \<noteq> None" using cs(2) by (auto simp: best_fit_def find_None_iff)
  then show ?thesis using treap_find_rep [OF cs(1), of "ucast (class_pages sc)"] by (auto simp: growable_def)
qed

lemma growClassSpan_serving:
  assumes S: "serving os A h" and c: "0 < sc" "sc < NumSizeClasses" and g: "growable sc h"
  shows "\<exists>r h'. growClassSpan os rnd sc (reg h sc) h = Some (r, h') \<and>
    (r = Inr () \<longrightarrow> serving os A h' \<and> serve_used h \<subseteq> serve_used h' \<and> objects h \<subseteq> objects h' \<and> (\<forall>y \<in> A. mem h' y = mem h y) \<and>
       (\<exists>x s. reg h' sc = reg h sc @ [x] \<and> spans h' x = Some s \<and> span_free (mem h') s \<noteq> {})) \<and> within_room h r h'"
proof -
  let ?np = "ucast (class_pages sc) :: uintptr" and ?sz = "ucast (class_to_size ! sc) :: uintptr"
  obtain cs where cs: "pages_ok os h cs" using S by (auto simp: serving_def)
  have "treap_rep h cs" using cs by (simp add: pages_ok_def heap_rep_def)
  then have fb: "free_bytes (chunks h) cs \<subseteq> A" using S heap_used_rep [of h cs] by (simp add: serving_def)
  obtain d where fit: "best_fit (chunks h) ?np cs = Some d"
    using g treap_find_none [OF \<open>treap_rep h cs\<close>, of ?np] by (cases "best_fit (chunks h) ?np cs") (auto simp: growable_def)
  have A: "os_apart os A" "0 \<notin> A" "pool_clean h" "classFree h = (\<lambda>_. 0)" using S by (simp_all add: serving_def)
  obtain r h1 where al: "heap_allocSpan os rnd ?np sc ?sz (3, 2) h = Some (r, h1)" and
    R: "\<forall>x. r = Inr x \<longrightarrow> (\<exists>s B cs'. x \<noteq> 0 \<and> x \<notin> pool_used h \<and> x \<in> pool_used h1 \<and> spans h1 = (spans h)(x \<mapsto> s) \<and>
       span_good h1 sc s \<and> span_free (mem h1) s \<noteq> {} \<and> span_area s \<subseteq> B \<and> B \<subseteq> free_bytes (chunks h) cs \<and>
       pages_ok os h1 cs' \<and> free_bytes (chunks h1) cs' = free_bytes (chunks h) cs - B \<and> room_kept ?np (chunks h) cs (chunks h1) cs' \<and>
       pool_moves os A h h1 \<and> classFree h1 = classFree h \<and> xHeap.more h1 = xHeap.more h \<and>
       span_new h h1 x s \<and> (\<forall>p. unat p < 2 ^ 47 \<longrightarrow> p \<notin> B \<longrightarrow> spanOf p h1 = spanOf p h))" and w: "within_meta 4 h r h1"
    using heap_allocSpan_fresh [OF cs A(3,1) fb A(2) c fit, of rnd] by blast
  have gr: "growClassSpan os rnd sc (reg h sc) h =
      Some (case r of Inl e \<Rightarrow> (Inl e, h1) | Inr x \<Rightarrow> (Inr (), h1\<lparr>classSpans := (classSpans h1)(sc := Some (reg h sc @ [x]))\<rparr>))"
    using al class_allocnpages_pos [OF c] c(2) A(4)
    by (simp add: growClassSpan_def allocClassSpan_def class_allocSpan_def split: sum.splits)
  have m4: "meta_room (4 * Suc k) h \<Longrightarrow> (\<exists>x. r = Inr x) \<and> meta_room (4 * k) h1" for k using w by (auto simp: within_meta_def)
  show ?thesis
  proof (cases r)
    case (Inl e)
    then have "within_room h (Inl e :: goerr + unit) h1" using m4 by (auto simp: within_room_def room_def)
    then show ?thesis using gr Inl by simp
  next
    case (Inr x)
    let ?h = "h1\<lparr>classSpans := (classSpans h1)(sc := Some (reg h sc @ [x]))\<rparr>"
    obtain s B cs' where s: "x \<noteq> 0" "x \<notin> pool_used h" "x \<in> pool_used h1" "spans h1 = (spans h)(x \<mapsto> s)"
       "span_good h1 sc s" "span_free (mem h1) s \<noteq> {}" "span_area s \<subseteq> B" "B \<subseteq> free_bytes (chunks h) cs"
       "pages_ok os h1 cs'" "free_bytes (chunks h1) cs' = free_bytes (chunks h) cs - B"
       "pool_moves os A h h1" "classFree h1 = classFree h" "xHeap.more h1 = xHeap.more h"
       "room_kept ?np (chunks h) cs (chunks h1) cs'" "span_new h h1 x s" "\<forall>p. unat p < 2 ^ 47 \<longrightarrow> p \<notin> B \<longrightarrow> spanOf p h1 = spanOf p h"
      using R Inr by blast
    have "within_room h (Inr () :: goerr + unit) h1"
      unfolding within_room_def
    proof (intro allI impI conjI)
      fix k assume "room (Suc k) h"
      then have "chunk_room (chunks h) cs (Suc k)" "meta_room (4 * Suc k) h"
        using treap_rep_unique [OF \<open>treap_rep h cs\<close>] by (auto simp: room_def)
      moreover have "unat ?np \<le> 10" using class_pages_le [of sc] c(2) by (simp add: unat_ucast_8_64)
      ultimately have "chunk_room (chunks h1) cs' k" "meta_room (4 * k) h1" using s(14) m4 by (auto simp: room_kept_def)
      moreover have "treap_rep h1 cs'" using s(9) by (simp add: pages_ok_def heap_rep_def)
      ultimately show "room k h1" by (auto simp: room_def)
    qed simp
    moreover have "room k ?h = room k h1" for k by (rule room_cong) simp_all
    ultimately have wr: "within_room h (Inr () :: goerr + unit) ?h" by (simp add: within_room_def)
    have e: "pages_ok os ?h cs' = pages_ok os h1 cs'" "pool_used ?h = pool_used h1" by (rule pages_ok_cong; simp)+
    have "reg h1 = reg h" using heap_more_reg [OF s(13)] by (simp add: fun_eq_iff reg_def)
    then have r: "reg ?h = (reg h)(sc := reg h sc @ [x])" by (simp add: fun_eq_iff reg_def)
    have mv: "pool_moves os A h ?h" using s(11) pool_moves_cong [of h1 ?h h h] by (simp add: same_pool_def)
    have good: "span_good ?h sc s" using s(5) e(2) by (simp add: span_good_def)
    have tb: "spanOf p ?h = spanOf p h1" for p by (rule spanOf_tables) simp_all
    have e2: "heap_used ?h = heap_used h1" by (rule pages_ok_cong) simp_all
    have new: "span_new h ?h x s" using s(15) e(2) e2 tb by (simp add: span_new_def span_known_def)
    have frm: "\<forall>p. unat p < 2 ^ 47 \<longrightarrow> p \<notin> B \<longrightarrow> spanOf p ?h = spanOf p h" using s(16) tb by simp
    have st: "serving os A ?h" "serve_used h \<subseteq> serve_used ?h" "objects h \<subseteq> objects ?h"
      using serving_extend [OF S cs _ s(8) _ mv _ s(1,2) _ _ good s(7) r new frm, of cs'] s e by simp_all
    have "reg ?h sc = reg h sc @ [x] \<and> spans ?h x = Some s \<and> span_free (mem ?h) s \<noteq> {}" using r s(4,6) by simp
    moreover have "growClassSpan os rnd sc (reg h sc) h = Some (Inr (), ?h)" using gr Inr by simp
    moreover have "\<forall>y \<in> A. mem ?h y = mem h y" using mv by (simp add: pool_moves_def)
    ultimately show ?thesis using st wr by blast
  qed
qed

text \<open>When no span has a free object, the last one is past its extension point, so the synchronous growth adds a span.\<close>

lemma growSpan_serving:
  assumes S: "serving os A h" and c: "0 < sc" "sc < NumSizeClasses" and g: "growable sc h"
    and full: "\<forall>x \<in> set (reg h sc). no_room h (spans h x)"
  shows "\<exists>r h'. growSpan os rnd sc ExpendSync gen h = Some (r, h') \<and>
    (r = Inr () \<longrightarrow> serving os A h' \<and> serve_used h \<subseteq> serve_used h' \<and> objects h \<subseteq> objects h' \<and> (\<forall>y \<in> A. mem h' y = mem h y) \<and>
       (\<exists>x s. x \<in> set (reg h' sc) \<and> spans h' x = Some s \<and> span_free (mem h') s \<noteq> {})) \<and> within_room h r h'"
proof -
  have "lastHasRoom (reg h sc) h = Some False"
  proof (cases "reg h sc = []")
    case False
    then have l: "last (reg h sc) \<in> set (reg h sc)" by simp
    then obtain s where s: "spans h (last (reg h sc)) = Some s" "span_free (mem h) s = {}" using full by (auto simp: no_room_def)
    moreover have "span_good h sc s" using reg_span [OF S l] s(1) by auto
    then have "extensionPoint s \<le> nelems s" "unat (allocCount s) = unat (nelems s)" using s(2) by (simp_all add: span_good_def)
    ultimately show ?thesis using False by (simp add: lastHasRoom_def needGrow_def word_le_nat_alt)
  qed (simp add: lastHasRoom_def)
  then have G: "growSpan os rnd sc ExpendSync gen h = Option.bind (growClassSpan os rnd sc (reg h sc) h) (\<lambda>(r, h).
      case r of Inl e \<Rightarrow> Some (Inl e, h)
      | Inr _ \<Rightarrow> Some (Inr (), h\<lparr>spanGen := (spanGen h)(sc := (if sint gen < 0 then 1 else gen) + 1)\<rparr>))"
    by (simp add: growSpan_def reg_def Let_def)
  obtain r h1 where r: "growClassSpan os rnd sc (reg h sc) h = Some (r, h1)" and
    R: "r = Inr () \<longrightarrow> serving os A h1 \<and> serve_used h \<subseteq> serve_used h1 \<and> objects h \<subseteq> objects h1 \<and> (\<forall>y \<in> A. mem h1 y = mem h y) \<and>
       (\<exists>x s. reg h1 sc = reg h sc @ [x] \<and> spans h1 x = Some s \<and> span_free (mem h1) s \<noteq> {})" and w: "within_room h r h1"
    using growClassSpan_serving [OF S c g, of rnd] by blast
  show ?thesis
  proof (cases r)
    case (Inl e)
    then show ?thesis using G r w by simp
  next
    case (Inr u)
    then obtain x s where h1: "serving os A h1" "serve_used h \<subseteq> serve_used h1" "reg h1 sc = reg h sc @ [x]" "spans h1 x = Some s"
      "span_free (mem h1) s \<noteq> {}" "\<forall>y \<in> A. mem h1 y = mem h y" "objects h \<subseteq> objects h1" using R by auto
    let ?h = "h1\<lparr>spanGen := (spanGen h1)(sc := (if sint gen < 0 then 1 else gen) + 1)\<rparr>"
    have "?h = h1\<lparr>inuse := inuse h1, spanGen := spanGen ?h, pending := pending h1\<rparr>" by simp
    then have "serving os A ?h" "serve_used h \<subseteq> serve_used ?h" "objects h \<subseteq> objects ?h" using serving_quiet [OF h1(1)] h1(2,7) by metis+
    moreover have "x \<in> set (reg ?h sc) \<and> spans ?h x = Some s \<and> span_free (mem ?h) s \<noteq> {}" using h1(3-5) by (simp add: reg_def)
    moreover have "growSpan os rnd sc ExpendSync gen h = Some (Inr (), ?h)" using G r Inr by simp
    moreover have "\<forall>y \<in> A. mem ?h y = mem h y" using h1(6) by simp
    moreover have "room k ?h = room k h1" for k by (rule room_cong) simp_all
    then have "within_room h (Inr () :: goerr + unit) ?h" using w by (simp add: within_room_def)
    ultimately show ?thesis by blast
  qed
qed

end
