(* ===== verification/AllocRun.thy ===== *)
theory AllocRun
  imports SpanOpen
begin

text \<open>
  Alloc of small sizes from any consistent state: it takes an object from an open span or opens a new
  one, and as a layer that hands out blocks it never hands out a byte twice.
\<close>

subsection \<open>Alloc\<close>

text \<open>What Alloc does once a span with a free object is in the list.\<close>

lemma pool_Alloc_found:
  assumes S: "serving os A h" and sz: "sz \<le> MaxSmallSize"
    and t: "takeObject (ucast (class_to_size ! unat (size_class sz))) 0 (reg h (unat (size_class sz))) h =
      Some (Some (i, p, g), h1)" and S1: "serving os A h1"
  shows "\<exists>h'. pool_Alloc os rnd sz h = Some (Inr p, h') \<and> serving os A h' \<and> serve_used h1 \<subseteq> serve_used h' \<and> mem h' = mem h1 \<and>
    same_stock h1 h' \<and> objects h' = objects h1"
proof -
  let ?sc = "unat (size_class sz)"
  obtain gen where xs: "getSpan ?sc h = (reg h ?sc, gen)" by (cases "classSpans h ?sc") (simp_all add: getSpan_def reg_def)
  let ?h = "addInuse ?sc (if g then startAsync ?sc gen h1 else h1)"
  have h2: "serving os A ?h" "serve_used ?h = serve_used h1" "objects ?h = objects h1" using serving_async [OF S1] by simp_all
  have m: "mem ?h = mem h1" "same_stock h1 ?h" by (simp_all add: addInuse_def startAsync_def needExpendAsync_def same_stock_def)
  obtain h3 where h3: "growSpan os rnd ?sc RemoveHead gen ?h = Some (Inr (), h3)" "serving os A h3" "serve_used ?h \<subseteq> serve_used h3"
    "mem h3 = mem ?h" "same_stock ?h h3" "objects h3 = objects ?h" using removeHead_serving [OF h2(1)] by blast
  have P: "pool_Alloc os rnd sz h = (if i < 1 then Some (Inr p, ?h)
      else map_option (\<lambda>(_, h). (Inr p, h)) (growSpan os rnd ?sc RemoveHead gen ?h))"
    using sz xs t by (subst pool_Alloc.simps) (simp add: Let_def not_less [symmetric])
  show ?thesis
  proof (cases "i < 1")
    case True
    then show ?thesis using P h2 m by simp
  next
    case False
    have "same_stock h1 h3" using m(2) h3(5) by (simp add: same_stock_def)
    then show ?thesis using P h3 h2(2,3) m False by simp
  qed
qed

text \<open>
  What a request gets: a block that was in no use, zero, inside known objects; nothing else that
  was handed out changes.
\<close>

definition serves_block :: "os \<Rightarrow> uintptr set \<Rightarrow> 'a xSpanPool_scheme \<Rightarrow> uintptr \<Rightarrow> uintptr \<Rightarrow> 'a xSpanPool_scheme \<Rightarrow> bool" where
  "serves_block os A h p c h' \<longleftrightarrow> serving os A h' \<and> serve_used h \<union> blk p c \<subseteq> serve_used h' \<and> blk p c \<inter> serve_used h = {} \<and>
     blk p c \<subseteq> A \<and> objects h \<union> blk p c \<subseteq> objects h' \<and> (\<forall>y \<in> A. mem h' y = (if y \<in> blk p c then Some 0 else mem h y))"

lemma pool_Alloc_serving:
  fixes h :: "'a xSpanPool_scheme"
  assumes S: "serving os A h" and sz: "0 < sz" "sz \<le> MaxSmallSize" and g: "growable (unat (size_class sz)) h"
  defines "c \<equiv> ucast (class_to_size ! unat (size_class sz))"
  shows "\<exists>r h'. pool_Alloc os rnd sz h = Some (r, h') \<and>
    (\<forall>p. r = Inr p \<longrightarrow> serves_block os A h p c h') \<and> within_room h r h'"
proof -
  let ?sc = "unat (size_class sz)"
  have sc: "0 < ?sc" "?sc < NumSizeClasses"
    using size_class_bounds [OF _ _ refl, of sz] sz by (simp_all add: word_less_nat_alt word_le_nat_alt)
  have found: "\<exists>r h'. pool_Alloc os rnd z g = Some (r, h') \<and>
    (\<forall>p. r = Inr p \<longrightarrow> serves_block os A g p c h') \<and> (\<exists>p. r = Inr p) \<and> same_stock g h'"
    if z: "z \<le> MaxSmallSize" "unat (size_class z) = ?sc" and G: "serving os A g" and t: "takeObject c 0 (reg g ?sc) g = Some (Some q, g\<lparr>spans := S, mem := m\<rparr>)" 
    for g :: "'a xSpanPool_scheme" and q S m z
  proof -
    obtain r S' m' where T: "takeObject c 0 (reg g ?sc) g = Some (r, g\<lparr>spans := S', mem := m'\<rparr>)" "serving os A (g\<lparr>spans := S', mem := m'\<rparr>)"
      "serve_used g \<subseteq> serve_used (g\<lparr>spans := S', mem := m'\<rparr>)" "objects (g\<lparr>spans := S', mem := m'\<rparr>) = objects g"
      "case r of None \<Rightarrow> m' = mem g \<and> (\<forall>x \<in> set (reg g ?sc). no_room g (spans g x) \<and> no_room g (S' x))
       | Some (i, p, g') \<Rightarrow> blk p c \<subseteq> A \<inter> objects g \<and> blk p c \<inter> serve_used g = {} \<and> blk p c \<subseteq> serve_used (g\<lparr>spans := S', mem := m'\<rparr>) \<and>
         (\<forall>y. m' y = (if y \<in> blk p c then Some 0 else mem g y))"
      using takeObject_serving [OF G subset_refl c_def [THEN meta_eq_to_obj_eq], of 0] by blast
    obtain i p b where q: "r = Some (i, p, b)" using T(1) t by (cases q) auto
    obtain h' where "pool_Alloc os rnd z g = Some (Inr p, h')" "serving os A h'" "serve_used (g\<lparr>spans := S', mem := m'\<rparr>) \<subseteq> serve_used h'"
      "mem h' = m'" "same_stock (g\<lparr>spans := S', mem := m'\<rparr>) h'" "objects h' = objects (g\<lparr>spans := S', mem := m'\<rparr>)" using pool_Alloc_found [OF G z(1), unfolded z(2), OF T(1) [unfolded q c_def] T(2), of rnd] by auto
    moreover from this have "same_stock g h'" by (simp add: same_stock_def)
    ultimately show ?thesis using T(3-5) q
      by (intro exI [of _ "Inr p"] exI [of _ h']) (auto simp: serves_block_def simp del: mem_blk)
  qed
  obtain r S' m where T: "takeObject c 0 (reg h ?sc) h = Some (r, h\<lparr>spans := S', mem := m\<rparr>)" "serving os A (h\<lparr>spans := S', mem := m\<rparr>)"
      "serve_used h \<subseteq> serve_used (h\<lparr>spans := S', mem := m\<rparr>)" "objects (h\<lparr>spans := S', mem := m\<rparr>) = objects h"
      "case r of None \<Rightarrow> m = mem h \<and> (\<forall>x \<in> set (reg h ?sc). no_room h (spans h x) \<and> no_room h (S' x))
       | Some (i, p, g') \<Rightarrow> blk p c \<subseteq> A \<inter> objects h \<and> blk p c \<inter> serve_used h = {} \<and> blk p c \<subseteq> serve_used (h\<lparr>spans := S', mem := m\<rparr>) \<and>
         (\<forall>y. m y = (if y \<in> blk p c then Some 0 else mem h y))"
    using takeObject_serving [OF S subset_refl c_def [THEN meta_eq_to_obj_eq], of 0] by blast
  show ?thesis
  proof (cases r)
    case (Some q)
    from found [OF sz(2) refl S T(1) [unfolded Some]] show ?thesis
      using same_stock_room room_mono by (fastforce simp: within_room_def)
  next
    case None
    let ?h1 = "h\<lparr>spans := S', mem := m\<rparr>"
    have m: "m = mem h" and nr: "\<forall>x \<in> set (reg ?h1 ?sc). no_room ?h1 (spans ?h1 x)" using T(5) None by (simp_all add: no_room_def reg_def)
    have gr: "growable ?sc ?h1" using g by (simp add: growable_def treap_find_def)
    obtain gen where xs: "getSpan ?sc h = (reg h ?sc, gen)" by (cases "classSpans h ?sc") (simp_all add: getSpan_def reg_def)
    obtain r2 h2 where G: "growSpan os rnd ?sc ExpendSync gen ?h1 = Some (r2, h2)" and
      R: "r2 = Inr () \<longrightarrow> serving os A h2 \<and> serve_used ?h1 \<subseteq> serve_used h2 \<and> objects ?h1 \<subseteq> objects h2 \<and> (\<forall>y \<in> A. mem h2 y = mem ?h1 y) \<and>
       (\<exists>x s. x \<in> set (reg h2 ?sc) \<and> spans h2 x = Some s \<and> span_free (mem h2) s \<noteq> {})" and w: "within_room ?h1 r2 h2"
      using growSpan_serving [OF T(2) sc gr nr] by blast
    have P: "pool_Alloc os rnd sz h = (case r2 of Inl e \<Rightarrow> Some (Inl e, h2) | Inr _ \<Rightarrow> pool_Alloc os rnd c h2)"
      using sz(2) xs T(1) None G unfolding c_def by (subst pool_Alloc.simps) (simp add: Let_def not_less [symmetric])
    have "room k ?h1 = room k h" for k by (rule room_cong) simp_all
    then have w2: "within_room h r2 h2" using w by (simp add: within_room_def)
    show ?thesis
    proof (cases r2)
      case (Inl e)
      have "within_room h (Inl e :: goerr + uintptr) h2" using w2 Inl by (simp add: within_room_def)
      then show ?thesis using P Inl by simp
    next
      case (Inr u)
      have h2: "serving os A h2" "serve_used h \<subseteq> serve_used h2" "\<forall>y \<in> A. mem h2 y = mem h y" "objects h \<subseteq> objects h2"
        using R Inr T(3,4) m by auto
      obtain x s where x: "x \<in> set (reg h2 ?sc)" "spans h2 x = Some s" "span_free (mem h2) s \<noteq> {}" using R Inr by auto
      have cz: "c \<le> MaxSmallSize" "unat (size_class c) = ?sc"
        using class_size_le_max [of ?sc] size_class_of_class [of ?sc] sc by (simp_all add: c_def word_le_nat_alt unat_ucast_16_64)
      obtain r3 S3 m3 where T3: "takeObject c 0 (reg h2 ?sc) h2 = Some (r3, h2\<lparr>spans := S3, mem := m3\<rparr>)"
        "case r3 of None \<Rightarrow> m3 = mem h2 \<and> (\<forall>x \<in> set (reg h2 ?sc). no_room h2 (spans h2 x) \<and> no_room h2 (S3 x))
         | Some (i, p, g') \<Rightarrow> blk p c \<subseteq> A \<inter> objects h2 \<and> blk p c \<inter> serve_used h2 = {} \<and> blk p c \<subseteq> serve_used (h2\<lparr>spans := S3, mem := m3\<rparr>) \<and>
           (\<forall>y. m3 y = (if y \<in> blk p c then Some 0 else mem h2 y))"
        using takeObject_serving [OF h2(1) subset_refl c_def [THEN meta_eq_to_obj_eq], of 0] by blast
      have "r3 \<noteq> None"
      proof
        assume "r3 = None"
        then have "no_room h2 (spans h2 x)" using T3(2) x(1) by simp
        then show False using x(2,3) by (simp add: no_room_def)
      qed
      then obtain q where q: "r3 = Some q" by blast
      obtain r h' where F: "pool_Alloc os rnd c h2 = Some (r, h')"
        "\<forall>p. r = Inr p \<longrightarrow> serves_block os A h2 p c h'" "\<exists>p. r = Inr p" "same_stock h2 h'"
        using found [OF cz h2(1) T3(1) [unfolded q]] by blast
      have "serves_block os A h p c h'" if "r = Inr p" for p
        using F(2) that h2(2-4) by (auto simp: serves_block_def simp del: mem_blk)
      moreover have "within_room h r h'" using w2 same_stock_room [OF F(4)] F(3) by (simp add: within_room_def)
      ultimately show ?thesis using P Inr F(1) by simp
    qed
  qed
qed


text \<open>
  Alloc as a layer that hands out blocks: the block is the whole object. In the second step a state whose
  heap has no pages for another span of the class, where Alloc would have to ask the system, ends
  the run.
\<close>

definition alloc_step ::
  "os \<Rightarrow> (nat \<Rightarrow> uint32) \<Rightarrow> uintptr \<Rightarrow> 'a xSpanPool_scheme \<Rightarrow> ((goerr + uintptr \<times> uintptr) \<times> 'a xSpanPool_scheme) option" where
  "alloc_step os rnd sz h =
     map_option (\<lambda>(r, h). (map_sum id (\<lambda>p. (p, ucast (class_to_size ! unat (size_class sz)))) r, h)) (mm_Alloc os rnd sz h)"

definition object_step ::
  "os \<Rightarrow> (nat \<Rightarrow> uint32) \<Rightarrow> uintptr \<Rightarrow> 'a xSpanPool_scheme \<Rightarrow> ((goerr + uintptr \<times> uintptr) \<times> 'a xSpanPool_scheme) option" where
  "object_step os rnd sz h = (if growable (unat (size_class sz)) h then alloc_step os rnd sz h else Some (Inl EmptyError, h))"

definition small_request :: "uintptr \<Rightarrow> bool" where
  "small_request sz \<longleftrightarrow> 0 < sz \<and> sz \<le> MaxSmallSize"

lemma mm_Alloc_serving:
  assumes S: "serving os A h" and sz: "small_request sz" and g: "growable (unat (size_class sz)) h"
  shows "\<exists>r h'. mm_Alloc os rnd sz h = Some (r, h') \<and>
    (\<forall>p. r = Inr p \<longrightarrow> serves_block os A h p (ucast (class_to_size ! unat (size_class sz))) h') \<and> within_room h r h'"
proof -
  have z: "0 < sz" "sz \<le> MaxSmallSize" using sz by (simp_all add: small_request_def)
  then have "mm_Alloc os rnd sz h = pool_Alloc os rnd sz h" by (auto simp: mm_Alloc_def word_less_nat_alt)
  then show ?thesis using pool_Alloc_serving [OF S z g, of rnd] by simp
qed

lemma object_step_Inr:
  assumes S: "serving os A h" and sz: "small_request sz" and st: "object_step os rnd sz h = Some (Inr b, h')"
  shows "serving os A h'" and "blk (fst b) (snd b) \<inter> (serve_used h \<union> - A) = {}"
    and "(serve_used h \<union> - A) \<union> blk (fst b) (snd b) \<subseteq> serve_used h' \<union> - A"
proof -
  have g: "growable (unat (size_class sz)) h" using st by (auto simp: object_step_def split: if_splits)
  obtain r h1 where A: "mm_Alloc os rnd sz h = Some (r, h1)"
    and R: "\<forall>p. r = Inr p \<longrightarrow> serves_block os A h p (ucast (class_to_size ! unat (size_class sz))) h1"
    using mm_Alloc_serving [OF S sz g, of rnd] by blast
  obtain p where p: "r = Inr p" "h1 = h'" "b = (p, ucast (class_to_size ! unat (size_class sz)))"
    using st g A by (cases r) (auto simp: object_step_def alloc_step_def)
  show "serving os A h'" "blk (fst b) (snd b) \<inter> (serve_used h \<union> - A) = {}"
    "(serve_used h \<union> - A) \<union> blk (fst b) (snd b) \<subseteq> serve_used h' \<union> - A"
    using R p by (auto simp: serves_block_def simp del: mem_blk)
qed

interpretation serve: fresh_blocks small_request "object_step os rnd" "serving os A" "\<lambda>h. serve_used h \<union> - A" for os rnd A
proof
  fix sz h assume "small_request sz" "serving os A h"
  from mm_Alloc_serving [OF this(2,1), of rnd] show "object_step os rnd sz h \<noteq> None"
    by (cases "growable (unat (size_class sz)) h") (auto simp: object_step_def alloc_step_def)
next
  fix sz b h h' assume "small_request sz" "serving os A h" "object_step os rnd sz h = Some (Inr b, h')"
  note st = object_step_Inr [OF this(2,1,3)]
  show "serving os A h'" "blk (fst b) (snd b) \<inter> (serve_used h \<union> - A) = {}"
    "(serve_used h \<union> - A) \<union> blk (fst b) (snd b) \<subseteq> serve_used h' \<union> - A" by (fact st)+
qed

text \<open>With room for a span per request no request fails.\<close>

lemma alloc_run_room:
  "serving os A h \<Longrightarrow> list_all small_request szs \<Longrightarrow> room (length szs) h \<Longrightarrow>
    \<exists>bs h'. alloc_run (alloc_step os rnd) szs h = Some (bs, h') \<and> alloc_run (object_step os rnd) szs h = Some (bs, h') \<and>
      list_all2 (\<lambda>sz b. sz \<le> snd b) szs bs"
proof (induction szs arbitrary: h)
  case (Cons sz szs)
  have sz: "small_request sz" "list_all small_request szs" using Cons.prems(2) by simp_all
  let ?c = "ucast (class_to_size ! unat (size_class sz)) :: uintptr"
  have b: "unat (size_class sz) < NumSizeClasses" "sz \<le> ?c"
    using size_class_bounds [OF _ _ refl, of sz] sz(1)
    by (simp_all add: small_request_def unat_ucast_16_64 word_less_nat_alt word_le_nat_alt)
  have g: "growable (unat (size_class sz)) h" using room_growable [OF _ b(1)] Cons.prems(3) by simp
  from mm_Alloc_serving [OF Cons.prems(1) sz(1) g, of rnd] obtain r h1 where A: "mm_Alloc os rnd sz h = Some (r, h1)"
    "\<forall>p. r = Inr p \<longrightarrow> serving os A h1" "within_room h r h1" unfolding serves_block_def by blast
  obtain p where p: "r = Inr p" "room (length szs) h1" using A(3) Cons.prems(3) by (auto simp: within_room_def)
  obtain bs h' where R: "alloc_run (alloc_step os rnd) szs h1 = Some (bs, h')" "alloc_run (object_step os rnd) szs h1 = Some (bs, h')"
    "list_all2 (\<lambda>sz b. sz \<le> snd b) szs bs"
    using Cons.IH [OF _ sz(2) p(2)] A(2) p(1) by blast
  have st: "alloc_step os rnd sz h = Some (Inr (p, ?c), h1)" "object_step os rnd sz h = Some (Inr (p, ?c), h1)"
    using A(1) p(1) g by (simp_all add: alloc_step_def object_step_def)
  then show ?case using R b(2) by (intro exI [of _ "(p, ?c) # bs"] exI [of _ h']) simp
qed simp

text \<open>With room for one more span a small request is served.\<close>

lemma mm_Alloc_room:
  assumes "serving os A h" and "small_request sz" and "room (Suc k) h"
    and "c = ucast (class_to_size ! unat (size_class sz))"
  shows "\<exists>p h'. mm_Alloc os rnd sz h = Some (Inr p, h') \<and> sz \<le> c \<and> room k h' \<and> serves_block os A h p c h'"
proof -
  have b: "unat (size_class sz) < NumSizeClasses" "sz \<le> c" using size_class_bounds [OF _ _ refl, of sz] assms(2)
    by (simp_all add: assms(4) small_request_def unat_ucast_16_64 word_less_nat_alt word_le_nat_alt)
  obtain r h' where A: "mm_Alloc os rnd sz h = Some (r, h')" "within_room h r h'"
    "\<forall>p. r = Inr p \<longrightarrow> serves_block os A h p c h'"
    using mm_Alloc_serving [OF assms(1,2) room_growable [OF assms(3) b(1)], of rnd] unfolding assms(4) by blast
  obtain p where "r = Inr p" "room k h'" using A(2) assms(3) by (auto simp: within_room_def)
  then show ?thesis using A b(2) by blast
qed

subsection \<open>A state for the witnesses\<close>

text \<open>A heap with one free chunk of 128 MB, and no span in use.\<close>

abbreviation demo_area :: "uintptr set" where
  "demo_area \<equiv> {x. 0x50000000 \<le> unat x \<and> unat x < 0x60000000}"

definition demo_stock :: xSpanPool where
  "demo_stock = demo_pool\<lparr>chunks := [16 \<mapsto> \<lparr>chunk_start = 0x50000000, chunk_npages = 0x8000\<rparr>],
     treap_nodes := [0x40000000 \<mapsto> \<lparr>lnk_left = 0, lnk_right = 0, lnk_parent = 0, npagesKey = 0x8000, priority = 5, node_chunk = 16\<rparr>],
     treap := 0x40000000, spans := Map.empty\<rparr>"

lemma demo_stock_simps [simp]:
  "chunks demo_stock = [16 \<mapsto> \<lparr>chunk_start = 0x50000000, chunk_npages = 0x8000\<rparr>]" "mem demo_stock = demo_mem"
  "treap_nodes demo_stock = [0x40000000 \<mapsto> \<lparr>lnk_left = 0, lnk_right = 0, lnk_parent = 0, npagesKey = 0x8000, priority = 5, node_chunk = 16\<rparr>]"
  "treap demo_stock = 0x40000000" "pool_xrm demo_stock = pool_xrm demo_pool" "pool_index demo_stock = 1024"
  "addrMap demo_stock = addrMap demo_heap" "rawLinear demo_stock = rawLinear demo_pool" "classFree demo_stock = (\<lambda>_. 0)"
  "classSpans demo_stock = (\<lambda>_. None)" "spans demo_stock = Map.empty"
  by (simp_all add: demo_stock_def)

lemma demo_stock_rep: "heap_rep demo_os demo_stock [16]" "pool_clean demo_stock"
proof -
  have pu: "pool_used demo_stock = pool_used demo_pool" by (rule pool_used_cong) (simp_all add: demo_stock_def)
  have "0x40000000 \<in> pool_used demo_stock" unfolding pu demo_pool_inv by simp
  then have "treap_ok demo_stock \<langle>\<langle>\<rangle>, 0x40000000, \<langle>\<rangle>\<rangle>"
    by (simp add: treap_ok_def linked_tree_def ordered_def node_ok_def)
  then have "treap_rep demo_stock [16]" unfolding treap_rep_def by (force simp: chunk_of_def)
  moreover have "pool_inv demo_os demo_stock = pool_inv demo_os demo_pool" by (rule pool_inv_cong) (simp_all add: demo_stock_def)
  moreover have "chunks_apart (chunks demo_stock) {16}" by (simp add: chunks_apart_def chunk_fits_def)
  ultimately show "heap_rep demo_os demo_stock [16]" using demo_pool_inv by (simp add: heap_rep_def)
  have "pool_clean demo_stock = pool_clean demo_pool" by (rule pool_clean_cong) (simp_all add: demo_stock_def)
  then show "pool_clean demo_stock" using demo_pool_inv by simp
qed

lemma demo_room: "k \<le> 3000 \<Longrightarrow> room k demo_stock"
  using demo_stock_rep(1) by (auto simp: room_def heap_rep_def chunk_room_def meta_room_def intro!: exI [of _ "[16]"])

lemma demo_serving: "serving demo_os demo_area demo_stock"
proof -
  have ar: "unat x div 4096 div 65536 = 5 \<and> x \<in> demo_area" if "x \<in> free_bytes (chunks demo_stock) [16]" for x
    using that by (auto simp: free_bytes_def chunk_bytes_def div_mult2_eq [symmetric] intro!: div_nat_eqI)
  have "tables_ok demo_stock" by (simp add: tables_ok_def)
  then have "pages_ok demo_os demo_stock [16]" using demo_stock_rep(1) ar by (auto simp: pages_ok_def page_span_def table_of_def)
  moreover have "heap_used demo_stock = - free_bytes (chunks demo_stock) [16]" 
    using demo_stock_rep(1) heap_used_rep [of demo_stock "[16]"] by (simp add: heap_rep_def)
  moreover have "os_apart demo_os demo_area"
  proof -
    have "\<not> (0x50000000 \<le> unat x \<and> unat x < 0x60000000)" if "i < 10" "x \<in> blk (word_of_nat ((i + 1) * 2 ^ 30)) metadataRawMemoryBytes"
      for i and x :: uintptr
    proof -
      have "(i + 1) * 2 ^ 30 < (2 :: nat) ^ 64" using that(1) by simp
      then have "unat (word_of_nat ((i + 1) * 2 ^ 30) :: uintptr) = (i + 1) * 2 ^ 30" using unat_offset [of 0 "(i + 1) * 2 ^ 30"] by simp
      then have "(i + 1) * 2 ^ 30 \<le> unat x" "unat x < (i + 1) * 2 ^ 30 + 2 ^ 28" using that(2) by simp_all
      then show ?thesis by (cases "i = 0") auto
    qed
    then show ?thesis by (auto simp: os_apart_def demo_os_def split: if_splits)
  qed
  moreover have "demo_area \<subseteq> dom demo_mem"
  proof
    fix x assume "x \<in> demo_area"
    then have "x - 0x40000000 < 0x20000000" by (subst diff_less_iff_blk) auto
    then show "x \<in> dom demo_mem" by (auto simp: demo_mem_def)
  qed
  moreover have "spans_known demo_stock" by (simp add: spans_known_def)
  moreover have "spans_placed demo_area demo_stock" by (simp add: spans_placed_def reg_def)
  ultimately show ?thesis using demo_stock_rep(2) ar by (auto simp: serving_def)
qed

subsection \<open>Properties\<close>

text \<open>
  C2: Alloc never hands out memory twice and does not fail while resources last: from any state in
  which chunks, spans, page tables and metadata are consistent and there is room for a span per request,
  every request of a run of small requests, of any classes, is served, each with an object
  at least as large as asked for; the objects are pairwise disjoint, in the memory of the heap, and
  were not handed out before the run.
\<close>
theorem Alloc_blocks_disjoint:
  assumes "serving os A h" and "list_all small_request szs" and "room (length szs) h"
  shows "\<exists>bs h'. alloc_run (alloc_step os rnd) szs h = Some (bs, h') \<and> list_all2 (\<lambda>sz b. sz \<le> snd b) szs bs \<and>
    serving os A h' \<and> disjoint_blocks bs \<and>
    (\<forall>b \<in> set bs. blk (fst b) (snd b) \<subseteq> A \<and> blk (fst b) (snd b) \<inter> serve_used h = {} \<and> blk (fst b) (snd b) \<subseteq> serve_used h')"
proof -
  obtain bs h' where A: "alloc_run (alloc_step os rnd) szs h = Some (bs, h')" and R: "alloc_run (object_step os rnd) szs h = Some (bs, h')"
    and sz: "list_all2 (\<lambda>sz b. sz \<le> snd b) szs bs" using alloc_run_room [OF assms, of rnd] by blast
  note u = serve.run_used [OF assms(2,1) R] and f = serve.run_fresh [OF assms(2,1) R]
  have "blk (fst b) (snd b) \<subseteq> A \<and> blk (fst b) (snd b) \<inter> serve_used h = {} \<and> blk (fst b) (snd b) \<subseteq> serve_used h'"
    if "b \<in> set bs" for b
  proof -
    have "blk (fst b) (snd b) \<inter> (serve_used h \<union> - A) = {}" "blk (fst b) (snd b) \<subseteq> serve_used h' \<union> - A" using f u that by blast+
    then show ?thesis by blast
  qed
  then show ?thesis using A sz u f by blast
qed

theorem Alloc_blocks_disjoint_witness:
  "\<exists>bs h'. alloc_run (alloc_step demo_os (\<lambda>_. 3)) [24, 24, 5000, 24] demo_stock = Some (bs, h') \<and> length bs = 4 \<and> disjoint_blocks bs"
proof -
  have "list_all small_request [24, 24, 5000, 24]" by (simp add: small_request_def)
  from Alloc_blocks_disjoint [OF demo_serving this demo_room] show ?thesis by (fastforce dest: list_all2_lengthD)
qed

text \<open>
  C3: A small Alloc with room for one more span succeeds and leaves room for all but one; the object is at
  least as large as asked for, is all zero whatever it held, was not in use, and no other byte of
  the heap changes, whether it came from an open span or from a new one.
\<close>
theorem Alloc_fresh_zeroed:
  assumes "serving os A h" and "small_request sz" and "room (Suc k) h"
    and "c = ucast (class_to_size ! unat (size_class sz))"
  shows "\<exists>p h'. mm_Alloc os rnd sz h = Some (Inr p, h') \<and> sz \<le> c \<and> serving os A h' \<and> room k h' \<and>
    serve_used h \<union> blk p c \<subseteq> serve_used h' \<and> blk p c \<inter> serve_used h = {} \<and> blk p c \<subseteq> A \<and>
    (\<forall>y \<in> A. mem h' y = (if y \<in> blk p c then Some 0 else mem h y))"
  using mm_Alloc_room [OF assms, of rnd] unfolding serves_block_def by blast

theorem Alloc_fresh_zeroed_witness:
  "\<exists>p h'. mm_Alloc demo_os (\<lambda>_. 3) 5000 demo_stock = Some (Inr p, h') \<and> serving demo_os demo_area h'"
proof -
  have "small_request 5000" by (simp add: small_request_def)
  from Alloc_fresh_zeroed [OF demo_serving this demo_room refl, of 0] show ?thesis by fastforce
qed

end
