(* ===== verification/Release.thy ===== *)
theory Release
  imports AllocRun
begin

text \<open>
  Alloc and Free together. An object that was handed out is found by Free, through the page tables, its
  span and the magic numbers of its class, and its mark is flipped; nothing else changes. So a user may allocate, free
  and write to its objects in any order, and no two objects overlap. The collector is off here
  (\<open>gc_done\<close>): then a freed object is marked and stays out of use.
\<close>

subsection \<open>Writes that do not matter\<close>

text \<open>The marks of all spans.\<close>

definition mark_bytes :: "'a xHeap_scheme \<Rightarrow> uintptr set" where
  "mark_bytes h = {y. \<exists>x s. spans h x = Some s \<and> y \<in> map_bytes (gcmarkBits s) (nelems s)}"

lemma spans_knownD:
  assumes "spans_known h" and "spans h x = Some s"
  shows "span_known h x s" and "spans h y = Some t \<Longrightarrow> map_bytes (gcmarkBits s) (nelems s) \<inter> map_bytes (allocBits t) (nelems t) = {}"
    and "spans h y = Some t \<Longrightarrow> x \<noteq> y \<Longrightarrow> map_bytes (gcmarkBits s) (nelems s) \<inter> map_bytes (gcmarkBits t) (nelems t) = {}"
  using assms unfolding spans_known_def by blast+

lemma serving_write:
  fixes h :: "'a xSpanPool_scheme"
  assumes S: "serving os A h" and d: "dom m = dom (mem h)" and w: "\<forall>y. y \<notin> A \<union> mark_bytes h \<longrightarrow> m y = mem h y"
  shows "serving os A (h\<lparr>mem := m\<rparr>)" and "serve_used (h\<lparr>mem := m\<rparr>) = serve_used h" and "objects (h\<lparr>mem := m\<rparr>) = objects h"
    and "room k (h\<lparr>mem := m\<rparr>) = room k h"
proof -
  let ?h = "h\<lparr>mem := m\<rparr>"
  note P = serving_pool [OF S]
  have K: "spans_known h" using S by (simp add: serving_def)
  have hu: "heap_used ?h = heap_used h" using heap_used_write [where h = h and S = "spans h" and m = m] by simp
  have pu: "pool_used ?h = pool_used h" by (rule pool_used_cong) simp_all
  have r: "reg ?h = reg h" by (simp add: fun_eq_iff reg_def)
  have mu: "mark_bytes h \<subseteq> pool_used h" using K unfolding mark_bytes_def spans_known_def span_known_def by blast
  have good: "span_good ?h sc s = span_good h sc s" "span_avail m s = span_avail (mem h) s" if x: "spans h x = Some s" for x sc s
  proof -
    have "map_bytes (allocBits s) (nelems s) \<subseteq> pool_used h" using spans_knownD(1) [OF K x] by (simp add: span_known_def)
    moreover have "map_bytes (allocBits s) (nelems s) \<inter> mark_bytes h = {}" using spans_knownD(2) [OF K _ x] unfolding mark_bytes_def by blast
    ultimately have "\<forall>y \<in> map_bytes (allocBits s) (nelems s). m y = mem h y" using w P by blast
    then have "\<forall>k < 4 * bitmap_words (nelems s). m (allocBits s + of_nat k) = mem h (allocBits s + of_nat k)" by (simp add: map_bytes_def)
    from span_ok_mem [OF this] show "span_good ?h sc s = span_good h sc s" "span_avail m s = span_avail (mem h) s"
      by (simp_all add: span_good_def span_avail_def pu)
  qed
  have "span_placed A ?h sc x" if "x \<in> set (reg h sc)" for sc x
  proof -
    have "span_placed A h sc x" using S that by (simp add: serving_def spans_placed_def)
    then show ?thesis using good(1) by (auto simp: span_placed_def pu hu)
  qed
  moreover have "areas_apart ?h a b = areas_apart h a b" for a b by (simp add: areas_apart_def)
  ultimately have "spans_placed A ?h" using S by (simp add: serving_def spans_placed_def r)
  moreover have "pages_ok os ?h = pages_ok os h"
    using pages_ok_write [OF d, where os = os and S = "spans h"] by (simp add: fun_eq_iff)
  moreover have "pool_clean ?h"
  proof -
    have "\<forall>y. y \<notin> pool_used h \<longrightarrow> (y \<in> region z \<longrightarrow> m y = mem h y)" if "z \<in> set (pool_xrm h)" for z
    proof -
      have "region z \<inter> A = {}" using S that P unfolding serving_def os_apart_def pool_inv_def region_def by blast
      then show ?thesis using w mu by blast
    qed
    then show ?thesis using P by (auto simp: pool_clean_def pu)
  qed
  moreover have kn: "spans_known ?h" "objects ?h = objects h"
    using spans_known_keep [OF K, of ?h] spanOf_tables [of ?h h] by (simp_all add: d pu hu option.rel_refl)
  ultimately show "serving os A ?h" "objects ?h = objects h" using S d unfolding serving_def hu by simp_all
  show "serve_used ?h = serve_used h" using good(2) reg_span [OF S] by (fastforce simp: serve_used_def r hu)
  show "room k ?h = room k h" by (rule room_cong) simp_all
qed

subsection \<open>Free finds its object\<close>

text \<open>The state of the collector, and what a user can see of the memory.\<close>

lemma obj_of_area:
  assumes "p \<in> span_area s" and "0 < classSize s"
  obtains i where "i < unat (nelems s)" "p \<in> obj_addrs s i"
proof -
  let ?c = "unat (classSize s)" and ?d = "unat p - unat (startAddr s)"
  have c: "0 < ?c" using assms(2) by (simp add: word_less_nat_alt)
  have d: "unat (startAddr s) \<le> unat p" "?d < unat (nelems s) * ?c" using assms(1) by (auto simp: span_area_def)
  define q where "q = ?d div ?c"
  have "q < unat (nelems s)" using d(2) c by (simp add: q_def less_mult_imp_div_less)
  moreover have "q * ?c \<le> ?d" "?d < (q + 1) * ?c" using c dividend_less_div_times [of ?c ?d] by (simp_all add: q_def)
  then have "p \<in> obj_addrs s q" using d(1) unfolding obj_addrs_def mem_Collect_eq by linarith
  ultimately show ?thesis by (rule that)
qed

lemma bits_upd_map_bytes:
  assumes "bits_upd m m' b (bitmap_words n) f" and "unat n \<le> 2 ^ 40"
  shows "dom m' = dom m" and "\<forall>y. y \<notin> map_bytes b n \<longrightarrow> m' y = m y" and "\<forall>k < unat n. membit m' b k = f k"
proof -
  note w = newMarkBits_words [OF assms(2)]
  show "dom m' = dom m" using assms(1) by (simp add: bits_upd_def)
  show "\<forall>k < unat n. membit m' b k = f k" using assms(1) bitmap_words_ge [of n] by (simp add: bits_upd_def)
  show "\<forall>y. y \<notin> map_bytes b n \<longrightarrow> m' y = m y"
  proof (intro allI impI)
    fix y assume y: "y \<notin> map_bytes b n"
    have "\<not> y - b < of_nat (4 * bitmap_words n)"
    proof
      assume "y - b < of_nat (4 * bitmap_words n)"
      then have "unat (y - b) < 4 * bitmap_words n" using w(5) by (simp add: word_less_nat_alt)
      moreover have "y = b + of_nat (unat (y - b))" by simp
      ultimately show False using y unfolding map_bytes_def by blast
    qed
    then show "m' y = m y" using assms(1) by (simp add: bits_upd_def)
  qed
qed

lemma span_class_bounds:
  assumes "span_class s"
  shows "0 < classSize s" and "unat (nelems s) \<le> 2 ^ 40"
proof -
  have c: "0 < classIndex s" "classIndex s < 67" using assms by (auto simp: span_class_def setDivMagic_def split: if_splits)
  then have z: "0 < unat (classSize s)" using class_size_strict [of 0 "classIndex s"] assms by (simp add: span_class_def)
  then show "0 < classSize s" by (simp add: word_less_nat_alt)
  have "unat (nelems s) * 1 \<le> unat (nelems s) * unat (classSize s)" using z by (intro mult_le_mono2) simp
  also have "\<dots> \<le> 10 * 4096" using assms class_pages_le [of "classIndex s"] c(2) by (auto simp: span_class_def)
  finally show "unat (nelems s) \<le> 2 ^ 40" by simp
qed

text \<open>What a Free of an object does: the mark of object i of the span at x is flipped.\<close>

definition frees_object :: "os \<Rightarrow> uintptr set \<Rightarrow> 'a xSpanPool_scheme \<Rightarrow> uintptr \<Rightarrow> 'a xSpanPool_scheme \<Rightarrow> bool" where
  "frees_object os A h p h' \<longleftrightarrow> serving os A h' \<and> gc_done h' \<and> spans h' = spans h \<and> serve_used h' = serve_used h \<and>
     objects h' = objects h \<and> (\<forall>y \<in> A. mem h' y = mem h y) \<and> (\<forall>k. room k h' = room k h) \<and>
     (\<exists>x s i. spans h x = Some s \<and> i < unat (nelems s) \<and> p \<in> obj_addrs s i \<and> freeCapacity h' = freeCapacity h + classSize s \<and>
        (i \<in> marked h' s \<longleftrightarrow> i \<notin> marked h s) \<and>
        (\<forall>y t j. spans h y = Some t \<longrightarrow> (y, j) \<noteq> (x, i) \<longrightarrow> (j \<in> marked h' t \<longleftrightarrow> j \<in> marked h t)))"

lemma Free_object:
  assumes S: "serving os A h" and g: "gc_done h" and p: "p \<in> objects h" "p \<noteq> 0"
  shows "\<exists>h'. mm_Free os rnd t1 t2 p h = Some (Inr (), h') \<and> frees_object os A h p h'"
proof -
  have K: "spans_known h" using S by (simp add: serving_def)
  obtain x s where x: "spans h x = Some s" "p \<in> span_area s" using p(1) by (auto simp: objects_def)
  then have k: "span_known h x s" using K by (simp add: spans_known_def)
  have n: "0 < classSize s" "unat (nelems s) \<le> 2 ^ 40" using k span_class_bounds by (simp_all add: span_known_def)
  from obj_of_area [OF x(2) n(1)] obtain i where i: "i < unat (nelems s)" "p \<in> obj_addrs s i" .
  obtain m where m: "heap_mark p h = Some (Inr (), h\<lparr>freeCapacity := freeCapacity h + classSize s, mem := m\<rparr>)"
    "bits_upd (mem h) m (gcmarkBits s) (bitmap_words (nelems s))
      (\<lambda>k. if k = i then \<not> membit (mem h) (gcmarkBits s) k else membit (mem h) (gcmarkBits s) k)"
    using heap_mark_obj [OF _ _ x(1) _ _ i] k x(2) by (auto simp: span_known_def)
  note b = bits_upd_map_bytes [OF m(2) n(2)]
  let ?h1 = "h\<lparr>freeCapacity := freeCapacity h + classSize s, mem := m\<rparr>"
  have "gc_done ?h1" using g by (simp add: gc_done_def)
  from sweep_done [OF this, of os rnd t1 t2] obtain ctl t where
    sw: "sweep os rnd t1 t2 ?h1 = Some (?h1\<lparr>sweepCtl := ctl, sweepLastTime := t\<rparr>)" by blast
  let ?h = "?h1\<lparr>sweepCtl := ctl, sweepLastTime := t\<rparr>"
  have F: "mm_Free os rnd t1 t2 p h = Some (Inr (), ?h)"
    using p(2) m(1) sw by (simp add: mm_Free_def pool_Free_def heap_free_def word_less_nat_alt unat_eq_0 not_less)
  have "\<forall>y. y \<notin> A \<union> mark_bytes h \<longrightarrow> m y = mem h y" using b(2) x(1) by (auto simp: mark_bytes_def)
  note W = serving_write [OF S b(1) this]
  let ?m = "h\<lparr>mem := m\<rparr>"
  have "\<forall>k. set (reg ?h k) \<subseteq> set (reg ?m k) \<and> distinct (reg ?h k)"
    using W(1) by (auto simp: serving_def spans_placed_def reg_def)
  then have e1: "serving os A ?h" using same_next [of ?m] by (intro serving_frame(1) [OF W(1)]) simp_all
  have "heap_used ?h = heap_used ?m" by (rule pages_ok_cong) simp_all
  then have e: "serve_used ?h = serve_used ?m" "objects ?h = objects ?m" "room k ?h = room k ?m" for k
    by (simp_all add: serve_used_def reg_def objects_def room_cong [of ?h ?m])
  have "membit m (gcmarkBits t) j = membit (mem h) (gcmarkBits t) j"
    if t: "spans h y = Some t" "(y, j) \<noteq> (x, i)" "j < unat (nelems t)" for y t j
  proof (cases "y = x")
    case True
    then show ?thesis using t x(1) b(3) by simp
  next
    case False
    then have "map_bytes (gcmarkBits t) (nelems t) \<inter> map_bytes (gcmarkBits s) (nelems s) = {}" using spans_knownD(3) [OF K t(1) x(1)] by simp
    then have "\<forall>z \<in> map_bytes (gcmarkBits t) (nelems t). m z = mem h z" using b(2) by blast
    then have "\<forall>k < 4 * bitmap_words (nelems t). m (gcmarkBits t + of_nat k) = mem h (gcmarkBits t + of_nat k)" by (simp add: map_bytes_def)
    from membit_cong [OF this] show ?thesis using t(3) bitmap_words_ge [of "nelems t"] by simp
  qed
  then have oth: "\<forall>y t j. spans h y = Some t \<longrightarrow> (y, j) \<noteq> (x, i) \<longrightarrow> (j \<in> marked ?h t \<longleftrightarrow> j \<in> marked h t)" by (auto simp: marked_def)
  have "membit m (gcmarkBits s) i = (\<not> membit (mem h) (gcmarkBits s) i)" using b(3) i(1) by simp
  then have "i \<in> marked ?h s \<longleftrightarrow> i \<notin> marked h s" using i(1) by (simp add: marked_def)
  then have "\<exists>x s i. spans h x = Some s \<and> i < unat (nelems s) \<and> p \<in> obj_addrs s i \<and> freeCapacity ?h = freeCapacity h + classSize s \<and>
        (i \<in> marked ?h s \<longleftrightarrow> i \<notin> marked h s) \<and>
        (\<forall>y t j. spans h y = Some t \<longrightarrow> (y, j) \<noteq> (x, i) \<longrightarrow> (j \<in> marked ?h t \<longleftrightarrow> j \<in> marked h t))"
    using x(1) i oth by (intro exI [of _ x] exI [of _ s] exI [of _ i] conjI) simp_all
  moreover have "\<forall>y \<in> A. m y = mem h y"
  proof -
    have "map_bytes (gcmarkBits s) (nelems s) \<inter> A = {}" using k serving_pool [OF S] by (auto simp: span_known_def)
    then show ?thesis using b(2) by blast
  qed
  moreover have "gc_done ?h" using g by (simp add: gc_done_def)
  ultimately have "frees_object os A h p ?h" using W e e1 unfolding frees_object_def by simp
  then show ?thesis using F by blast
qed

subsection \<open>A user of the library\<close>

text \<open>
  What a user may do: ask for a small block, free any block it was given, again even, and write to its blocks. The
  list holds all blocks it was given since the state h.
\<close>

inductive user_run ::
  "os \<Rightarrow> (nat \<Rightarrow> uint32) \<Rightarrow> 'a xSpanPool_scheme \<Rightarrow> (uintptr \<times> uintptr) list \<Rightarrow> 'a xSpanPool_scheme \<Rightarrow> bool" for os rnd h where
  Start: "user_run os rnd h [] h"
| Take: "user_run os rnd h bs g \<Longrightarrow> small_request sz \<Longrightarrow> mm_Alloc os rnd sz g = Some (Inr p, g') \<Longrightarrow>
    user_run os rnd h ((p, sz) # bs) g'"
| Give: "user_run os rnd h bs g \<Longrightarrow> (p, sz) \<in> set bs \<Longrightarrow> mm_Free os rnd t1 t2 p g = Some (r, g') \<Longrightarrow> user_run os rnd h bs g'"
| Write: "user_run os rnd h bs g \<Longrightarrow> dom m = dom (mem g) \<Longrightarrow> \<forall>y. (\<forall>b \<in> set bs. y \<notin> blk (fst b) (snd b)) \<longrightarrow> m y = mem g y \<Longrightarrow>
    user_run os rnd h bs (g\<lparr>mem := m\<rparr>)"

text \<open>A block of the user: an object in use that was not in use in the state h.\<close>

definition user_block :: "uintptr set \<Rightarrow> 'a xSpanPool_scheme \<Rightarrow> 'a xSpanPool_scheme \<Rightarrow> uintptr \<times> uintptr \<Rightarrow> bool" where
  "user_block A h g b \<longleftrightarrow> fst b \<noteq> 0 \<and> 0 < snd b \<and> blk (fst b) (snd b) \<subseteq> A \<inter> objects g \<inter> serve_used g \<and>
     blk (fst b) (snd b) \<inter> serve_used h = {}"

definition user_ok :: "os \<Rightarrow> uintptr set \<Rightarrow> 'a xSpanPool_scheme \<Rightarrow> (uintptr \<times> uintptr) list \<Rightarrow> 'a xSpanPool_scheme \<Rightarrow> bool" where
  "user_ok os A h bs g \<longleftrightarrow> serving os A g \<and> gc_done g \<and> serve_used h \<subseteq> serve_used g \<and> disjoint_blocks bs \<and>
     (\<forall>b \<in> set bs. user_block A h g b)"

lemma user_block_start: "user_block A h g b \<Longrightarrow> fst b \<in> objects g \<and> fst b \<noteq> 0"
  using blk_start by (auto simp: user_block_def simp del: mem_blk)

lemma user_take:
  assumes u: "user_ok os A h bs g" and sz: "small_request sz" and k: "room (Suc k) g"
  shows "\<exists>p g'. mm_Alloc os rnd sz g = Some (Inr p, g') \<and> user_ok os A h ((p, sz) # bs) g' \<and> room k g' \<and>
    (\<forall>b \<in> set bs. \<forall>y \<in> blk (fst b) (snd b). mem g' y = mem g y) \<and> (\<forall>y \<in> blk p sz. mem g' y = Some 0)"
proof -
  define c where "c = (ucast (class_to_size ! unat (size_class sz)) :: uintptr)"
  have S: "serving os A g" "gc_done g" "serve_used h \<subseteq> serve_used g" "disjoint_blocks bs" "\<forall>b \<in> set bs. user_block A h g b"
    using u by (simp_all add: user_ok_def)
  from mm_Alloc_room [OF S(1) sz k c_def, of rnd] obtain p g' where A: "mm_Alloc os rnd sz g = Some (Inr p, g')" "sz \<le> c" "room k g'"
    "serves_block os A g p c g'" by blast
  have B: "serving os A g'" "serve_used g \<union> blk p c \<subseteq> serve_used g'" "blk p c \<inter> serve_used g = {}" "blk p c \<subseteq> A"
    "objects g \<union> blk p c \<subseteq> objects g'" "\<forall>y \<in> A. mem g' y = (if y \<in> blk p c then Some 0 else mem g y)"
    using A(4) by (simp_all add: serves_block_def del: mem_blk)
  have sub: "blk p sz \<subseteq> blk p c" using A(2) by (auto simp: word_le_nat_alt)
  have z: "0 < sz" using sz by (simp add: small_request_def)
  have "0 \<notin> A" using S(1) by (simp add: serving_def)
  then have "p \<noteq> 0" using blk_start [OF z, of p] sub B(4) by blast
  moreover have "blk p sz \<subseteq> A \<inter> objects g' \<inter> serve_used g'" "blk p sz \<inter> serve_used h = {}" using sub B(2-5) S(3) by blast+
  ultimately have new: "user_block A h g' (p, sz)" using z by (simp add: user_block_def del: mem_blk)
  have old: "user_block A h g' b" "blk p sz \<inter> blk (fst b) (snd b) = {}" "\<forall>y \<in> blk (fst b) (snd b). mem g' y = mem g y" if "b \<in> set bs" for b
  proof -
    have b: "fst b \<noteq> 0" "0 < snd b" "blk (fst b) (snd b) \<subseteq> A \<inter> objects g \<inter> serve_used g" "blk (fst b) (snd b) \<inter> serve_used h = {}"
      using S(5) that by (simp_all add: user_block_def del: mem_blk)
    show "user_block A h g' b" using b B unfolding user_block_def by blast
    show "blk p sz \<inter> blk (fst b) (snd b) = {}" using b B(3) sub by blast
    show "\<forall>y \<in> blk (fst b) (snd b). mem g' y = mem g y"
    proof
      fix y assume "y \<in> blk (fst b) (snd b)"
      then have "y \<in> A" "y \<notin> blk p c" using b(3) B(3) by blast+
      then show "mem g' y = mem g y" using B(6) by (simp del: mem_blk)
    qed
  qed
  have "gc_done g'" using mm_step_done [OF mm_step.Alloc [OF A(1)] S(2)] .
  moreover have "disjoint_blocks ((p, sz) # bs)" using S(4) old(2) by (simp del: mem_blk)
  ultimately have "user_ok os A h ((p, sz) # bs) g'" using B(1,2) S(3) new old(1) by (auto simp: user_ok_def simp del: mem_blk)
  moreover have "\<forall>y \<in> blk p sz. mem g' y = Some 0" using B(4,6) sub by (metis subsetD)
  ultimately show ?thesis using A(1,3) old(3) by blast
qed

lemma user_give:
  assumes u: "user_ok os A h bs g" and b: "b \<in> set bs"
  shows "\<exists>g'. mm_Free os rnd t1 t2 (fst b) g = Some (Inr (), g') \<and> frees_object os A g (fst b) g' \<and> user_ok os A h bs g'"
proof -
  have S: "serving os A g" "gc_done g" "\<forall>b \<in> set bs. user_block A h g b" using u by (simp_all add: user_ok_def)
  from user_block_start [of A h g b] S(3) b have "fst b \<in> objects g" "fst b \<noteq> 0" by blast+
  from Free_object [OF S(1,2) this, of rnd t1 t2] obtain g' where F: "mm_Free os rnd t1 t2 (fst b) g = Some (Inr (), g')"
    "frees_object os A g (fst b) g'" by blast
  then have "user_ok os A h bs g'" using u unfolding frees_object_def user_ok_def user_block_def by auto
  then show ?thesis using F by blast
qed

lemma user_write:
  assumes u: "user_ok os A h bs g" and m: "dom m = dom (mem g)" "\<forall>y. (\<forall>b \<in> set bs. y \<notin> blk (fst b) (snd b)) \<longrightarrow> m y = mem g y"
  shows "user_ok os A h bs (g\<lparr>mem := m\<rparr>)"
proof -
  have S: "serving os A g" using u by (simp add: user_ok_def)
  have "\<forall>b \<in> set bs. blk (fst b) (snd b) \<subseteq> A" using u by (simp add: user_ok_def user_block_def del: mem_blk)
  then have "\<forall>y. y \<notin> A \<union> mark_bytes g \<longrightarrow> m y = mem g y" using m(2) by blast
  from serving_write(1-3) [OF S m(1) this] show ?thesis using u unfolding user_ok_def user_block_def by (simp add: gc_done_def)
qed

lemma user_run_ok:
  "user_run os rnd h bs g \<Longrightarrow> serving os A h \<Longrightarrow> gc_done h \<Longrightarrow> room (length bs + k) h \<Longrightarrow> user_ok os A h bs g \<and> room k g"
proof (induction arbitrary: k rule: user_run.induct)
  case Start
  then show ?case by (simp add: user_ok_def)
next
  case (Take bs g sz p g')
  then have "user_ok os A h bs g" "room (Suc k) g" using Take.IH [of "Suc k"] by simp_all
  from user_take [OF this(1) Take.hyps(2) this(2), of rnd] show ?case using Take.hyps(3) by auto
next
  case (Give bs g p sz t1 t2 r g')
  then have u: "user_ok os A h bs g" "room k g" by simp_all
  from user_give [OF u(1) Give.hyps(2), of rnd t1 t2] show ?case using Give.hyps(3) u(2) by (auto simp: frees_object_def)
next
  case (Write bs g m)
  then have u: "user_ok os A h bs g" "room k g" by simp_all
  moreover have "room k (g\<lparr>mem := m\<rparr>) = room k g" by (rule room_cong) simp_all
  ultimately show ?case using user_write [OF u(1) Write.hyps(2,3)] by simp
qed

subsection \<open>A state for the witnesses\<close>

definition demo_stopped :: xSpanPool where
  "demo_stopped = demo_stock\<lparr>sweepIndex := 67\<rparr>"

lemma demo_stopped_ok: "serving demo_os demo_area demo_stopped" "gc_done demo_stopped" "k \<le> 3000 \<Longrightarrow> room k demo_stopped"
proof -
  have "\<forall>k. set (reg demo_stopped k) \<subseteq> set (reg demo_stock k) \<and> distinct (reg demo_stopped k)"
    by (simp add: reg_def demo_stopped_def)
  then show "serving demo_os demo_area demo_stopped" using same_next [of demo_stock]
    by (intro serving_frame(1) [OF demo_serving]) (simp_all add: demo_stopped_def demo_stock_def)
  show "gc_done demo_stopped" by (simp add: gc_done_def demo_stopped_def)
  show "room k demo_stopped" if "k \<le> 3000"
    using room_cong [of demo_stopped demo_stock k] demo_room [OF that] by (simp add: demo_stopped_def)
qed

subsection \<open>Properties\<close>

text \<open>
  C1: Alloc, Free and the user's own writes in any order, while the collector is off: all blocks
  handed out, freed or not, are pairwise disjoint, lie in the memory of the heap and were not in use before, and each of
  them can be freed: Free finds the object of the block, flips its mark and no other one, adds its size to the
  free capacity, and changes no byte of the heap's memory.
\<close>
theorem user_blocks_freeable:
  assumes "serving os A h" and "gc_done h" and "user_run os rnd h bs g" and "room (length bs) h"
  shows "disjoint_blocks bs \<and> (\<forall>b \<in> set bs. blk (fst b) (snd b) \<subseteq> A \<and> blk (fst b) (snd b) \<inter> serve_used h = {} \<and>
    (\<exists>g' x s i. mm_Free os rnd t1 t2 (fst b) g = Some (Inr (), g') \<and> (\<forall>y \<in> A. mem g' y = mem g y) \<and>
       spans g x = Some s \<and> i < unat (nelems s) \<and> fst b \<in> obj_addrs s i \<and> freeCapacity g' = freeCapacity g + classSize s \<and>
       (i \<in> marked g' s \<longleftrightarrow> i \<notin> marked g s) \<and>
       (\<forall>y t j. spans g y = Some t \<longrightarrow> (y, j) \<noteq> (x, i) \<longrightarrow> (j \<in> marked g' t \<longleftrightarrow> j \<in> marked g t))))"
proof -
  have u: "user_ok os A h bs g" using user_run_ok [OF assms(3,1,2), of 0] assms(4) by simp
  have "\<exists>g' x s i. mm_Free os rnd t1 t2 (fst b) g = Some (Inr (), g') \<and> (\<forall>y \<in> A. mem g' y = mem g y) \<and>
       spans g x = Some s \<and> i < unat (nelems s) \<and> fst b \<in> obj_addrs s i \<and> freeCapacity g' = freeCapacity g + classSize s \<and>
       (i \<in> marked g' s \<longleftrightarrow> i \<notin> marked g s) \<and>
       (\<forall>y t j. spans g y = Some t \<longrightarrow> (y, j) \<noteq> (x, i) \<longrightarrow> (j \<in> marked g' t \<longleftrightarrow> j \<in> marked g t))" if "b \<in> set bs" for b
    using user_give [OF u that, of rnd t1 t2] unfolding frees_object_def by blast
  then show ?thesis using u unfolding user_ok_def user_block_def by blast
qed

text \<open>
  C4: Such a user is served as long as there is room: a further small request succeeds, with a zeroed
  block, and every byte of the blocks it holds, freed or not, keeps its value.
\<close>
theorem user_always_served:
  assumes "serving os A h" and "gc_done h" and "user_run os rnd h bs g" and "room (Suc (length bs)) h" and "small_request sz"
  shows "\<exists>p g'. mm_Alloc os rnd sz g = Some (Inr p, g') \<and> disjoint_blocks ((p, sz) # bs) \<and>
    (\<forall>b \<in> set bs. \<forall>y \<in> blk (fst b) (snd b). mem g' y = mem g y) \<and> (\<forall>y \<in> blk p sz. mem g' y = Some 0)"
proof -
  have "user_ok os A h bs g" "room (Suc 0) g" using user_run_ok [OF assms(3,1,2), of 1] assms(4) by simp_all
  from user_take [OF this(1) assms(5) this(2), of rnd] show ?thesis by (auto simp: user_ok_def simp del: mem_blk)
qed

theorem user_always_served_witness:
  "\<exists>p g'. mm_Alloc demo_os (\<lambda>_. 3) 24 demo_stopped = Some (Inr p, g') \<and> (\<forall>y \<in> blk p 24. mem g' y = Some 0)"
proof -
  have "small_request 24" by (simp add: small_request_def)
  from user_always_served [OF demo_stopped_ok(1,2) Start _ this] demo_stopped_ok(3) [of 1] show ?thesis by fastforce
qed

theorem user_blocks_freeable_witness:
  "\<exists>p q g g'. user_run demo_os (\<lambda>_. 3) demo_stopped [(q, 5000), (p, 24)] g \<and> blk q 5000 \<inter> blk p 24 = {} \<and>
     mm_Free demo_os (\<lambda>_. 3) 0 0 p g = Some (Inr (), g')"
proof -
  have sz: "small_request 24" "small_request 5000" by (simp_all add: small_request_def)
  have r: "room 2 demo_stopped" by (rule demo_stopped_ok) simp
  have u0: "user_ok demo_os demo_area demo_stopped [] demo_stopped" using demo_stopped_ok by (simp add: user_ok_def)
  obtain p g1 where p: "mm_Alloc demo_os (\<lambda>_. 3) 24 demo_stopped = Some (Inr p, g1)" "user_ok demo_os demo_area demo_stopped [(p, 24)] g1"
    "room 1 g1" using user_take [OF u0 sz(1), of 1 "\<lambda>_. 3"] r by (auto simp: numeral_2_eq_2)
  obtain q g2 where q: "mm_Alloc demo_os (\<lambda>_. 3) 5000 g1 = Some (Inr q, g2)"
    using user_take [OF p(2) sz(2), of 0 "\<lambda>_. 3"] p(3) by auto
  have R: "user_run demo_os (\<lambda>_. 3) demo_stopped [(q, 5000), (p, 24)] g2" by (rule Take [OF Take [OF Start sz(1) p(1)] sz(2) q])
  have "room (length [(q, 5000 :: uintptr), (p, 24)]) demo_stopped" using r by (simp add: numeral_2_eq_2)
  note T = user_blocks_freeable [OF demo_stopped_ok(1,2) R this, of 0 0]
  then have "blk q 5000 \<inter> blk p 24 = {}" by (simp del: mem_blk)
  moreover have "\<exists>g'. mm_Free demo_os (\<lambda>_. 3) 0 0 p g2 = Some (Inr (), g')" using T by fastforce
  ultimately show ?thesis using R by blast
qed

end
