(* ===== verification/Client.thy ===== *)
theory Client
  imports Release
begin

text \<open>
  The library as its users see it: the interface \<open>XMemory\<close> of xmm.go as a record of operations, what
  a user may rely on as a locale, and the proof that the model's operations keep it. The programs
  under example are users; what they hold is words and bytes in the memory they were given.
\<close>

subsection \<open>The interface\<close>

record 's XMemory =
  xm_Alloc :: "uintptr \<Rightarrow> 's \<Rightarrow> ((goerr + uintptr) \<times> 's) option"
  xm_AllocSlice :: "uintptr \<Rightarrow> uintptr \<Rightarrow> uintptr \<Rightarrow> 's \<Rightarrow> ((goerr + uintptr) \<times> 's) option"
  xm_Free :: "uintptr \<Rightarrow> 's \<Rightarrow> ((goerr + unit) \<times> 's) option"
  xm_Copy2 :: "uint8 list \<Rightarrow> uint8 list \<Rightarrow> 's \<Rightarrow> ((goerr + slice \<times> slice) \<times> 's) option"
  xm_From :: "uint8 list \<Rightarrow> 's \<Rightarrow> ((goerr + slice) \<times> 's) option"
  xm_From2 :: "uint8 list \<Rightarrow> uint8 list \<Rightarrow> 's \<Rightarrow> ((goerr + slice \<times> slice) \<times> 's) option"
  xm_FromInAddr :: "uintptr \<Rightarrow> uint8 list list \<Rightarrow> 's \<Rightarrow> ((goerr + uintptr list) \<times> 's) option"
  xm_FreeString :: "slice \<Rightarrow> 's \<Rightarrow> ((goerr + unit) \<times> 's) option"
  xm_RawAlloc :: "uintptr \<Rightarrow> 's \<Rightarrow> ((goerr + Chunk) \<times> 's) option"
  xm_GetPageSize :: uintptr

text \<open>
  The struct \<open>mm\<close> behind the interface. Its parts, the pool, the string allocator and the heap, are
  one state here; \<open>clock\<close> says what the two readings of the time in a call of Free return.
\<close>

definition mm_interface ::
  "os \<Rightarrow> (nat \<Rightarrow> uint32) \<Rightarrow> ('a xSpanPool_scheme \<Rightarrow> int \<times> int) \<Rightarrow> 'a xSpanPool_scheme XMemory" where
  "mm_interface os rnd clock = \<lparr>
     xm_Alloc = mm_Alloc os rnd,
     xm_AllocSlice = mm_AllocSlice os rnd,
     xm_Free = (\<lambda>addr h. mm_Free os rnd (fst (clock h)) (snd (clock h)) addr h),
     xm_Copy2 = mm_Copy2 os rnd,
     xm_From = mm_From os rnd,
     xm_From2 = mm_From2 os rnd,
     xm_FromInAddr = mm_FromInAddr,
     xm_FreeString = (\<lambda>content h. mm_FreeString os rnd (fst (clock h)) (snd (clock h)) content h),
     xm_RawAlloc = mm_RawAlloc os rnd,
     xm_GetPageSize = mm_GetPageSize\<rparr>"

text \<open>A field of a struct reached by a pointer: nil panics.\<close>

definition getField :: "memory \<Rightarrow> uintptr \<Rightarrow> uintptr \<Rightarrow> uint64 option" where
  "getField m p off = (if p = 0 then None else load64 m (p + off))"

definition setField :: "memory \<Rightarrow> uintptr \<Rightarrow> uintptr \<Rightarrow> uint64 \<Rightarrow> memory option" where
  "setField m p off v = (if p = 0 then None else store64 m (p + off) v)"

subsection \<open>Cells of memory\<close>

definition cells :: "uintptr \<Rightarrow> nat \<Rightarrow> uintptr set" where
  "cells p n = {x. unat p \<le> unat x \<and> unat x < unat p + n}"

lemma cells_blk: "blk p n = cells p (unat n)"
  by (auto simp: cells_def)

lemma cells_mono: "n \<le> k \<Longrightarrow> cells p n \<subseteq> cells p k"
  by (auto simp: cells_def)

lemma cells_offset: "unat p + k + n \<le> 2 ^ 64 \<Longrightarrow> 0 < n \<Longrightarrow> k + n \<le> j \<Longrightarrow> cells (p + of_nat k) n \<subseteq> cells p j"
  using unat_offset [of p k] by (auto simp: cells_def)

lemma cells_at: "unat p + n \<le> 2 ^ 64 \<Longrightarrow> k < n \<Longrightarrow> p + of_nat k \<in> cells p n"
  using unat_offset [of p k] by (simp add: cells_def)

lemma cells_mapped: "unat p + n \<le> 2 ^ 64 \<Longrightarrow> cells p n \<subseteq> dom m \<Longrightarrow> mapped m (unat p) n"
  by (auto simp: mapped_def cells_def)

lemma load64_same:
  assumes "unat a + 8 \<le> 2 ^ 64" and "\<forall>y \<in> cells a 8. m' y = m y"
  shows "load64 m' a = load64 m a"
proof -
  have "m' (a + of_nat k) = m (a + of_nat k)" if "k < 8" for k using cells_at [OF assms(1) that] assms(2) by blast
  from this [of 0] this [of 1] this [of 2] this [of 3] this [of 4] this [of 5] this [of 6] this [of 7]
  show ?thesis by (simp add: load64_def load32_def add.assoc)
qed

lemma store64_cells:
  assumes "unat a + 8 \<le> 2 ^ 64" and "cells a 8 \<subseteq> dom m"
  obtains m' where "store64 m a v = Some m'" "load64 m' a = Some v" "dom m' = dom m" "\<forall>y. y \<notin> cells a 8 \<longrightarrow> m' y = m y"
proof -
  obtain m' where "store64 m a v = Some m'" "load64 m' a = Some v" "changes m m' (unat a) 8"
    using store64_ok [OF cells_mapped [OF assms]] by blast
  then show ?thesis by (intro that [of m']) (auto simp: changes_def cells_def)
qed

lemma storeBytes_cells:
  assumes "unat a + length bs \<le> 2 ^ 64" and "cells a (length bs) \<subseteq> dom m"
  obtains m' where "storeBytes m a bs = Some m'" "dom m' = dom m" "\<forall>y. y \<notin> cells a (length bs) \<longrightarrow> m' y = m y"
    "\<forall>i < length bs. m' (a + of_nat i) = Some (bs ! i)"
proof -
  obtain m' where "storeBytes m a bs = Some m'" "changes m m' (unat a) (length bs)" "\<forall>i < length bs. m' (a + of_nat i) = Some (bs ! i)"
    using storeBytes_ok [OF cells_mapped [OF assms]] by blast
  then show ?thesis by (intro that [of m']) (auto simp: changes_def cells_def)
qed

lemma load64_zero:
  assumes "unat a + 8 \<le> 2 ^ 64" and "\<forall>y \<in> cells a 8. m y = Some 0"
  shows "load64 m a = Some 0"
proof -
  have "m (a + of_nat k) = Some 0" if "k < 8" for k using cells_at [OF assms(1) that] assms(2) by blast
  from this [of 0] this [of 1] this [of 2] this [of 3] this [of 4] this [of 5] this [of 6] this [of 7]
  show ?thesis by (simp add: load64_def load32_def add.assoc)
qed

lemma load64_mapped:
  assumes "unat a + 8 \<le> 2 ^ 64" and "cells a 8 \<subseteq> dom m"
  obtains v where "load64 m a = Some v"
proof -
  have "\<exists>b. m (a + of_nat k) = Some b" if "k < 8" for k using cells_at [OF assms(1) that] assms(2) by auto
  from this [of 0] this [of 1] this [of 2] this [of 3] this [of 4] this [of 5] this [of 6] this [of 7]
  have "\<exists>v. load64 m a = Some v" by (auto simp: load64_def load32_def add.assoc)
  then show ?thesis using that by blast
qed

subsection \<open>What a user may rely on\<close>

text \<open>
  \<open>owned\<close> is the memory that was handed out, and \<open>ready k\<close> says that k more requests will be served. A block
  is new, zero and not nil; no call changes owned memory that is not its own, and a user may write
  to owned memory as it likes.
\<close>

locale object_memory =
  fixes alloc :: "uintptr \<Rightarrow> 'a machine_scheme \<Rightarrow> ((goerr + uintptr) \<times> 'a machine_scheme) option"
    and inv :: "'a machine_scheme \<Rightarrow> bool"
    and owned :: "'a machine_scheme \<Rightarrow> uintptr set"
    and ready :: "nat \<Rightarrow> 'a machine_scheme \<Rightarrow> bool"
  assumes alloc_fresh: "inv h \<Longrightarrow> ready (Suc k) h \<Longrightarrow> small_request sz \<Longrightarrow>
      \<exists>p h'. alloc sz h = Some (Inr p, h') \<and> inv h' \<and> ready k h' \<and> owned h \<union> cells p (unat sz) \<subseteq> owned h' \<and>
        cells p (unat sz) \<inter> owned h = {} \<and> (\<forall>y \<in> owned h. mem h' y = mem h y) \<and> (\<forall>y \<in> cells p (unat sz). mem h' y = Some 0) \<and>
        p \<noteq> 0 \<and> unat p + unat sz \<le> 2 ^ 47"
    and write_owned: "inv h \<Longrightarrow> dom m = dom (mem h) \<Longrightarrow> \<forall>y. y \<notin> owned h \<longrightarrow> m y = mem h y \<Longrightarrow>
      inv (h\<lparr>mem := m\<rparr>) \<and> owned (h\<lparr>mem := m\<rparr>) = owned h \<and> (\<forall>k. ready k (h\<lparr>mem := m\<rparr>) = ready k h)"
    and owned_mapped: "inv h \<Longrightarrow> owned h \<subseteq> dom (mem h)"

text \<open>A memory that also takes blocks back: a free changes nothing its users see.\<close>

locale freeing_memory = object_memory +
  fixes free :: "uintptr \<Rightarrow> 'a machine_scheme \<Rightarrow> ((goerr + unit) \<times> 'a machine_scheme) option"
  assumes free_owned: "inv h \<Longrightarrow> p \<in> owned h \<Longrightarrow> p \<noteq> 0 \<Longrightarrow>
      \<exists>h'. free p h = Some (Inr (), h') \<and> inv h' \<and> owned h' = owned h \<and> (\<forall>k. ready k h' = ready k h) \<and>
        (\<forall>y \<in> owned h. mem h' y = mem h y)"

subsection \<open>The model keeps it\<close>

text \<open>Objects in use: memory of known objects that is in no free chunk and no free object.\<close>

definition held :: "uintptr set \<Rightarrow> 'a xSpanPool_scheme \<Rightarrow> uintptr set" where
  "held A h = serve_used h \<inter> A \<inter> objects h"

lemma Alloc_held:
  assumes S: "serving os A h" and sz: "small_request sz" and k: "room (Suc k) h"
  shows "\<exists>p h'. mm_Alloc os rnd sz h = Some (Inr p, h') \<and> serving os A h' \<and> room k h' \<and> held A h \<union> cells p (unat sz) \<subseteq> held A h' \<and>
    cells p (unat sz) \<inter> held A h = {} \<and> (\<forall>y \<in> held A h. mem h' y = mem h y) \<and> (\<forall>y \<in> cells p (unat sz). mem h' y = Some 0) \<and>
    p \<noteq> 0 \<and> unat p + unat sz \<le> 2 ^ 47"
proof -
  define c where "c = (ucast (class_to_size ! unat (size_class sz)) :: uintptr)"
  obtain p h' where A: "mm_Alloc os rnd sz h = Some (Inr p, h')" "sz \<le> c" "room k h'" "serves_block os A h p c h'"
    using mm_Alloc_room [OF S sz k c_def] by blast
  have B: "serving os A h'" "serve_used h \<union> blk p c \<subseteq> serve_used h'" "blk p c \<inter> serve_used h = {}" "blk p c \<subseteq> A"
    "objects h \<union> blk p c \<subseteq> objects h'" "\<forall>y \<in> A. mem h' y = (if y \<in> blk p c then Some 0 else mem h y)"
    using A(4) by (simp_all add: serves_block_def del: mem_blk)
  have sub: "cells p (unat sz) \<subseteq> blk p c" using A(2) by (auto simp: cells_def word_le_nat_alt)
  have n: "0 < unat sz" "unat sz \<le> 32768" using sz by (simp_all add: small_request_def word_less_nat_alt word_le_nat_alt)
  have lim: "0 \<notin> A" "\<forall>x \<in> A. unat x < 2 ^ 47" using S by (simp_all add: serving_def)
  have "p \<in> cells p (unat sz)" using n by (simp add: cells_def)
  then have p: "p \<in> A" using sub B(4) by blast
  then have "unat p < 2 ^ 47" using lim by blast
  then have "p + of_nat (unat sz - 1) \<in> A" "unat (p + of_nat (unat sz - 1)) = unat p + (unat sz - 1)"
    using cells_at [of p "unat sz" "unat sz - 1"] unat_offset [of p "unat sz - 1"] sub B(4) n by auto
  then have "unat p + unat sz \<le> 2 ^ 47" using lim(2) n by fastforce
  moreover have "p \<noteq> 0" using p lim(1) by blast
  moreover have "\<forall>y \<in> held A h. mem h' y = mem h y" using B(3,6) by (auto simp: held_def simp del: mem_blk)
  moreover have "\<forall>y \<in> cells p (unat sz). mem h' y = Some 0" using B(4,6) sub by (metis subsetD)
  moreover have "held A h \<union> cells p (unat sz) \<subseteq> held A h'" "cells p (unat sz) \<inter> held A h = {}"
    using B(2-5) sub by (auto simp: held_def simp del: mem_blk)
  ultimately show ?thesis using A(1,3) B(1) by blast
qed

lemma write_held:
  assumes "serving os A h" and "dom m = dom (mem h)" and "\<forall>y. y \<notin> held A h \<longrightarrow> m y = mem h y"
  shows "serving os A (h\<lparr>mem := m\<rparr>)" and "held A (h\<lparr>mem := m\<rparr>) = held A h" and "room k (h\<lparr>mem := m\<rparr>) = room k h"
proof -
  have "\<forall>y. y \<notin> A \<union> mark_bytes h \<longrightarrow> m y = mem h y" using assms(3) by (auto simp: held_def)
  note w = serving_write [OF assms(1,2) this]
  then show "serving os A (h\<lparr>mem := m\<rparr>)" "held A (h\<lparr>mem := m\<rparr>) = held A h" "room k (h\<lparr>mem := m\<rparr>) = room k h"
    by (simp_all add: held_def)
qed

interpretation objects: object_memory "mm_Alloc os rnd" "serving os A" "held A" room for os rnd A
proof (unfold_locales, goal_cases)
  case (1 h k sz)
  then show ?case by (intro Alloc_held)
next
  case (2 h m)
  from write_held [OF 2] show ?case by simp
next
  case (3 h)
  then show ?case by (auto simp: held_def serving_def)
qed

text \<open>With the collector off the model also keeps the law of Free.\<close>

interpretation returned: freeing_memory "mm_Alloc os rnd" "\<lambda>h. serving os A h \<and> gc_done h" "held A" room
  "\<lambda>p h. mm_Free os rnd (fst (clock h)) (snd (clock h)) p h" for os rnd A clock
proof (unfold_locales, goal_cases)
  case (1 h k sz)
  then obtain p h' where A: "mm_Alloc os rnd sz h = Some (Inr p, h')" and
    R: "serving os A h' \<and> room k h' \<and> held A h \<union> cells p (unat sz) \<subseteq> held A h' \<and> cells p (unat sz) \<inter> held A h = {} \<and>
      (\<forall>y \<in> held A h. mem h' y = mem h y) \<and> (\<forall>y \<in> cells p (unat sz). mem h' y = Some 0) \<and> p \<noteq> 0 \<and> unat p + unat sz \<le> 2 ^ 47"
    using Alloc_held by blast
  have "gc_done h'" using mm_step_done [OF mm_step.Alloc [OF A]] 1(1) by blast
  then show ?case using A R by blast
next
  case (2 h m)
  then have "serving os A h" "gc_done (h\<lparr>mem := m\<rparr>)" by (simp_all add: gc_done_def)
  then show ?case using write_held [OF _ 2(2,3)] by simp
next
  case (3 h)
  then show ?case by (auto simp: held_def serving_def)
next
  case (4 h p)
  then have "serving os A h" "gc_done h" "p \<in> objects h" "p \<noteq> 0" by (auto simp: held_def)
  from Free_object [OF this, of rnd "fst (clock h)" "snd (clock h)"] show ?case by (auto simp: frees_object_def held_def)
qed

end
