(* ===== verification/LinkedList.thy ===== *)
theory LinkedList
  imports Client
begin

text \<open>
  The linked list of example/xmm-test02.go, whose nodes are objects of the library: two words of
  memory, the value and the next pointer. A node of the head carries no value. From a manager with room
  the list that was built shows the values that were appended, in their order.
\<close>

subsection \<open>The program\<close>

text \<open>The struct of the list is the caller's; \<open>XListNode\<close> has \<open>Val\<close> at 0 and \<open>Next\<close> at 8.\<close>

record XList =
  Head :: uintptr

definition list_Init :: "'a machine_scheme XMemory \<Rightarrow> 'a machine_scheme \<Rightarrow> (XList \<times> 'a machine_scheme) option" where
  "list_Init mm h = do {
     (r, h) \<leftarrow> xm_Alloc mm 16 h;
     (case r of Inl _ \<Rightarrow> None | Inr node \<Rightarrow> Some (\<lparr>Head = node\<rparr>, h))
   }"

partial_function (option) lastNode :: "memory \<Rightarrow> uintptr \<Rightarrow> uintptr option" where
  "lastNode m p = Option.bind (getField m p 8) (\<lambda>nxt. if nxt = 0 then Some p else lastNode m nxt)"

definition list_Append ::
  "XList \<Rightarrow> uint64 \<Rightarrow> 'a machine_scheme XMemory \<Rightarrow> 'a machine_scheme \<Rightarrow> 'a machine_scheme option" where
  "list_Append l i mm h = do {
     e \<leftarrow> lastNode (mem h) (Head l);
     (r, h) \<leftarrow> xm_Alloc mm 16 h;
     (case r of
        Inl _ \<Rightarrow> None
      | Inr node \<Rightarrow> do {
          m \<leftarrow> setField (mem h) node 0 i;
          m \<leftarrow> setField m node 8 0;
          m \<leftarrow> setField m e 8 node;
          Some (h\<lparr>mem := m\<rparr>)
        })
   }"

text \<open>What Show prints.\<close>

partial_function (option) showNodes :: "memory \<Rightarrow> uintptr \<Rightarrow> uint64 list option" where
  "showNodes m p = Option.bind (getField m p 8) (\<lambda>nxt.
     if nxt = 0 then Some []
     else Option.bind (getField m nxt 0) (\<lambda>v. Option.bind (showNodes m nxt) (\<lambda>vs. Some (v # vs))))"

definition list_Show :: "XList \<Rightarrow> memory \<Rightarrow> uint64 list option" where
  "list_Show l m = showNodes m (Head l)"

text \<open>Destroy counts the nodes after the head and then frees the last node as often as there are nodes.\<close>

partial_function (option) countNodes :: "memory \<Rightarrow> uintptr \<Rightarrow> nat option" where
  "countNodes m p = Option.bind (getField m p 8) (\<lambda>nxt.
     if nxt = 0 then Some 0 else Option.bind (countNodes m nxt) (\<lambda>n. Some (Suc n)))"

partial_function (option) lastTwo :: "memory \<Rightarrow> uintptr \<Rightarrow> uintptr \<Rightarrow> (uintptr \<times> uintptr) option" where
  "lastTwo m pre p = Option.bind (getField m p 8) (\<lambda>nxt. if nxt = 0 then Some (pre, p) else lastTwo m p nxt)"

fun freeRounds :: "nat \<Rightarrow> XList \<Rightarrow> 'a machine_scheme XMemory \<Rightarrow> 'a machine_scheme \<Rightarrow> 'a machine_scheme option" where
  "freeRounds 0 l mm h = Some h"
| "freeRounds (Suc n) l mm h = do {
     (pre, p) \<leftarrow> lastTwo (mem h) (Head l) (Head l);
     _ \<leftarrow> getField (mem h) p 0;
     (_, h) \<leftarrow> xm_Free mm p h;
     m \<leftarrow> setField (mem h) pre 8 0;
     freeRounds n l mm (h\<lparr>mem := m\<rparr>)
   }"

definition list_Destroy :: "XList \<Rightarrow> 'a machine_scheme XMemory \<Rightarrow> 'a machine_scheme \<Rightarrow> 'a machine_scheme option" where
  "list_Destroy l mm h = Option.bind (countNodes (mem h) (Head l)) (\<lambda>cnt. freeRounds (Suc cnt) l mm h)"

text \<open>The list of the main function, from the values to the list.\<close>

fun appendAll :: "XList \<Rightarrow> uint64 list \<Rightarrow> 'a machine_scheme XMemory \<Rightarrow> 'a machine_scheme \<Rightarrow> 'a machine_scheme option" where
  "appendAll l [] mm h = Some h"
| "appendAll l (i # is) mm h = Option.bind (list_Append l i mm h) (appendAll l is mm)"

definition list_build ::
  "'a machine_scheme XMemory \<Rightarrow> uint64 list \<Rightarrow> 'a machine_scheme \<Rightarrow> (XList \<times> 'a machine_scheme) option" where
  "list_build mm is h = do {
     (l, h) \<leftarrow> list_Init mm h;
     h \<leftarrow> appendAll l is mm h;
     Some (l, h)
   }"

subsection \<open>Nodes in memory\<close>

text \<open>The nodes after p, their addresses and values.\<close>

fun nodes_at :: "memory \<Rightarrow> uintptr \<Rightarrow> (uintptr \<times> uint64) list \<Rightarrow> bool" where
  "nodes_at m p [] \<longleftrightarrow> getField m p 8 = Some 0"
| "nodes_at m p ((q, v) # cs) \<longleftrightarrow> getField m p 8 = Some q \<and> q \<noteq> 0 \<and> getField m q 0 = Some v \<and> nodes_at m q cs"

lemma showNodes_at: "nodes_at m p cs \<Longrightarrow> showNodes m p = Some (map snd cs)"
  by (induction m p cs rule: nodes_at.induct) (simp_all add: showNodes.simps)

lemma lastNode_at: "nodes_at m p cs \<Longrightarrow> lastNode m p = Some (last (p # map fst cs))"
  by (induction m p cs rule: nodes_at.induct) (simp_all add: lastNode.simps)

text \<open>A list whose nodes lie apart from each other in the memory X.\<close>

definition nodes_apart :: "uintptr set \<Rightarrow> uintptr list \<Rightarrow> bool" where
  "nodes_apart X ps \<longleftrightarrow> (\<forall>p \<in> set ps. p \<noteq> 0 \<and> unat p + 16 \<le> 2 ^ 47 \<and> cells p 16 \<subseteq> X) \<and>
     sorted_wrt (\<lambda>p q. cells p 16 \<inter> cells q 16 = {}) ps"

definition list_in :: "uintptr set \<Rightarrow> memory \<Rightarrow> uintptr \<Rightarrow> (uintptr \<times> uint64) list \<Rightarrow> bool" where
  "list_in X m p cs \<longleftrightarrow> nodes_at m p cs \<and> nodes_apart X (p # map fst cs)"

lemma nodes_apart_take: "nodes_apart X ps \<Longrightarrow> nodes_apart X (take n ps)"
  by (auto simp: nodes_apart_def sorted_wrt_take dest: in_set_takeD)

lemma getField_same:
  assumes "unat p + 16 \<le> 2 ^ 47" and "unat off + 8 \<le> 16" and "\<forall>y \<in> cells p 16. m' y = m y"
  shows "getField m' p off = getField m p off"
proof -
  have u: "unat (p + off) = unat p + unat off" using unat_offset [of p "unat off"] assms by simp
  then have "cells (p + off) 8 \<subseteq> cells p 16" using assms(2) by (auto simp: cells_def)
  then have "load64 m' (p + off) = load64 m (p + off)" using assms u by (intro load64_same) auto
  then show ?thesis by (simp add: getField_def)
qed

lemma nodes_at_same:
  "nodes_at m p cs \<Longrightarrow> \<forall>q \<in> set (p # map fst cs). unat q + 16 \<le> 2 ^ 47 \<and> (\<forall>y \<in> cells q 16. m' y = m y) \<Longrightarrow> nodes_at m' p cs"
proof (induction m p cs rule: nodes_at.induct)
  case (1 m p)
  then show ?case using getField_same [of p 8 m' m] by simp
next
  case (2 m p q v cs)
  then show ?case using getField_same [of p 8 m' m] getField_same [of q 0 m' m] by simp
qed

text \<open>The next pointer of one node changes: the nodes up to it stay.\<close>

lemma nodes_at_swing:
  "nodes_at m p (cs @ ds) \<Longrightarrow> nodes_apart X (p # map fst cs) \<Longrightarrow> e = last (p # map fst cs) \<Longrightarrow>
    \<forall>y \<in> X. y \<notin> cells (e + 8) 8 \<longrightarrow> m' y = m y \<Longrightarrow> nodes_at m' e es \<Longrightarrow> nodes_at m' p (cs @ es)"
proof (induction cs arbitrary: p)
  case (Cons c cs)
  obtain a w where c: "c = (a, w)" by (cases c)
  have n: "nodes_apart X (a # map fst cs)" using Cons.prems(2) by (simp add: nodes_apart_def c)
  have e: "e = last (a # map fst cs)" "e \<in> set (a # map fst cs)"
    using Cons.prems(3) last_in_set [of "a # map fst cs"] by (simp_all add: c)
  have le: "unat e + 16 \<le> 2 ^ 47" using n e(2) by (auto simp: nodes_apart_def)
  then have ue: "unat (e + 8) = unat e + 8" using unat_offset [of e 8] by simp
  have in_e: "cells (e + 8) 8 \<subseteq> cells e 16" using ue by (auto simp: cells_def)
  have "cells p 16 \<inter> cells e 16 = {}" "cells p 16 \<subseteq> X" "unat p + 16 \<le> 2 ^ 47" using Cons.prems(2) e(2) by (auto simp: nodes_apart_def c)
  then have p: "getField m' p 8 = getField m p 8" using Cons.prems(4) in_e by (intro getField_same) auto
  have a: "getField m' a 0 = getField m a 0"
  proof -
    have la: "unat a + 16 \<le> 2 ^ 47" "cells a 16 \<subseteq> X" using n by (simp_all add: nodes_apart_def)
    have "cells a 8 \<inter> cells (e + 8) 8 = {}"
    proof (cases "a = e")
      case True
      then show ?thesis using ue by (auto simp: cells_def)
    next
      case False
      then have "e \<in> set (map fst cs)" using e(2) by simp
      then have "cells a 16 \<inter> cells e 16 = {}" using n unfolding nodes_apart_def by auto
      then show ?thesis using in_e cells_mono [of 8 16 a] by auto
    qed
    then have "load64 m' a = load64 m a" using la Cons.prems(4) cells_mono [of 8 16 a] by (intro load64_same) auto
    then show ?thesis by (simp add: getField_def)
  qed
  have "nodes_at m a (cs @ ds)" using Cons.prems(1) by (simp add: c)
  from Cons.IH [OF this n e(1) Cons.prems(4,5)] show ?case using Cons.prems(1) p a by (simp add: c)
qed simp

subsection \<open>The operations in owned memory\<close>

lemma setField_ok:
  assumes "p \<noteq> 0" and "unat p + 16 \<le> 2 ^ 47" and "unat off + 8 \<le> 16" and "cells p 16 \<subseteq> dom m"
  obtains m' where "setField m p off v = Some m'" "getField m' p off = Some v" "dom m' = dom m"
    "\<forall>y. y \<notin> cells (p + off) 8 \<longrightarrow> m' y = m y" "cells (p + off) 8 \<subseteq> cells p 16"
proof -
  have u: "unat (p + off) = unat p + unat off" using unat_offset [of p "unat off"] assms by simp
  then have c: "cells (p + off) 8 \<subseteq> cells p 16" using assms(3) by (auto simp: cells_def)
  have "unat (p + off) + 8 \<le> 2 ^ 64" "cells (p + off) 8 \<subseteq> dom m" using u assms(2,3,4) c by auto
  from store64_cells [OF this, of v] show ?thesis using assms(1) c that by (metis getField_def setField_def)
qed

context object_memory
begin

lemma Init_ok:
  assumes "xm_Alloc mm = alloc" and "inv h" and "ready (Suc k) h"
  obtains l h' where "list_Init mm h = Some (l, h')" "inv h'" "ready k h'" "list_in (owned h') (mem h') (Head l) []"
proof -
  have "small_request 16" by (simp add: small_request_def)
  from alloc_fresh [OF assms(2,3) this] obtain p h' where p: "alloc 16 h = Some (Inr p, h')" "inv h'" "ready k h'"
    "cells p 16 \<subseteq> owned h'" "\<forall>y \<in> cells p 16. mem h' y = Some 0" "p \<noteq> 0" "unat p + 16 \<le> 2 ^ 47" by auto
  have u: "unat (p + 8) = unat p + 8" using unat_offset [of p 8] p(7) by simp
  have "load64 (mem h') (p + 8) = Some 0" using u p(5,7) by (intro load64_zero) (auto simp: cells_def)
  then have "list_in (owned h') (mem h') p []" using p by (simp add: list_in_def nodes_apart_def getField_def)
  then show ?thesis using p assms(1) by (intro that [of "\<lparr>Head = p\<rparr>" h']) (simp_all add: list_Init_def)
qed

lemma Append_ok:
  assumes mm: "xm_Alloc mm = alloc" and h: "inv h" "ready (Suc k) h" and l: "list_in (owned h) (mem h) (Head l) cs"
  obtains q h' where "list_Append l v mm h = Some h'" "inv h'" "ready k h'" "list_in (owned h') (mem h') (Head l) (cs @ [(q, v)])"
proof -
  define ps where "ps = Head l # map fst cs"
  define e where "e = last ps"
  have ap: "nodes_apart (owned h) ps" and at: "nodes_at (mem h) (Head l) cs" using l by (simp_all add: list_in_def ps_def)
  have e: "e \<in> set ps" "lastNode (mem h) (Head l) = Some e" using lastNode_at [OF at] last_in_set [of ps] by (simp_all add: ps_def e_def)
  have eb: "e \<noteq> 0" "unat e + 16 \<le> 2 ^ 47" "cells e 16 \<subseteq> owned h" using ap e(1) by (auto simp: nodes_apart_def)
  have "small_request 16" by (simp add: small_request_def)
  from alloc_fresh [OF h this] obtain q h1 where A: "alloc 16 h = Some (Inr q, h1)" "inv h1" "ready k h1" "owned h \<union> cells q 16 \<subseteq> owned h1"
    "cells q 16 \<inter> owned h = {}" "\<forall>y \<in> owned h. mem h1 y = mem h y" "q \<noteq> 0" "unat q + 16 \<le> 2 ^ 47" by auto
  have d: "cells q 16 \<subseteq> dom (mem h1)" "cells e 16 \<subseteq> dom (mem h1)" using owned_mapped [OF A(2)] A(4) eb(3) by blast+
  obtain m1 where m1: "setField (mem h1) q 0 v = Some m1" "getField m1 q 0 = Some v" "dom m1 = dom (mem h1)"
    "\<forall>y. y \<notin> cells (q + 0) 8 \<longrightarrow> m1 y = mem h1 y" by (rule setField_ok [OF A(7,8) _ d(1), of 0 v]) (simp, rule that)
  obtain m2 where m2: "setField m1 q 8 0 = Some m2" "getField m2 q 8 = Some 0" "dom m2 = dom m1"
    "\<forall>y. y \<notin> cells (q + 8) 8 \<longrightarrow> m2 y = m1 y" "cells (q + 8) 8 \<subseteq> cells q 16"
    using setField_ok [OF A(7,8), of 8 m1 0] d(1) m1(3) by auto
  obtain m3 where m3: "setField m2 e 8 q = Some m3" "getField m3 e 8 = Some q" "dom m3 = dom m2"
    "\<forall>y. y \<notin> cells (e + 8) 8 \<longrightarrow> m3 y = m2 y" "cells (e + 8) 8 \<subseteq> cells e 16"
    using setField_ok [OF eb(1,2), of 8 m2 q] d(2) m1(3) m2(3) by auto
  have q8: "cells q 8 \<subseteq> cells q 16" by (rule cells_mono) simp
  have uq: "unat (q + 8) = unat q + 8" using unat_offset [of q 8] A(8) by simp
  have "\<forall>y \<in> cells q 8. m2 y = m1 y" using m2(4) uq by (auto simp: cells_def)
  then have "load64 m2 q = load64 m1 q" using A(8) by (intro load64_same) auto
  then have v: "getField m2 q 0 = Some v" using m1(2) A(7) by (simp add: getField_def)
  have "\<forall>y \<in> cells q 16. m3 y = m2 y" using m3(4,5) A(5) eb(3) by blast
  then have q: "getField m3 q 0 = Some v" "getField m3 q 8 = Some 0"
    using getField_same [OF A(8), of 0 m3 m2] getField_same [OF A(8), of 8 m3 m2] v m2(2) by simp_all
  have same: "\<forall>y \<in> owned h. y \<notin> cells (e + 8) 8 \<longrightarrow> m3 y = mem h y"
  proof (intro ballI impI)
    fix y assume y: "y \<in> owned h" "y \<notin> cells (e + 8) 8"
    then have "y \<notin> cells (q + 0) 8" "y \<notin> cells (q + 8) 8" using A(5) m2(5) q8 by auto
    then show "m3 y = mem h y" using m1(4) m2(4) m3(4) A(6) y by simp
  qed
  have at': "nodes_at m3 (Head l) (cs @ [(q, v)])"
    using nodes_at_swing [of "mem h" "Head l" cs "[]" "owned h" e m3 "[(q, v)]"] at ap same m3(2) A(7) q by (simp add: e_def ps_def)
  have out: "\<forall>y. y \<notin> owned h1 \<longrightarrow> m3 y = mem h1 y"
  proof (intro allI impI)
    fix y assume "y \<notin> owned h1"
    then have "y \<notin> cells (q + 0) 8" "y \<notin> cells (q + 8) 8" "y \<notin> cells (e + 8) 8" using A(4) m2(5) m3(5) eb(3) q8 by auto
    then show "m3 y = mem h1 y" using m1(4) m2(4) m3(4) by simp
  qed
  have w: "inv (h1\<lparr>mem := m3\<rparr>)" "owned (h1\<lparr>mem := m3\<rparr>) = owned h1" "ready k (h1\<lparr>mem := m3\<rparr>)"
    using write_owned [OF A(2) _ out] m1(3) m2(3) m3(3) A(3) by simp_all
  have "sorted_wrt (\<lambda>p q. cells p 16 \<inter> cells q 16 = {}) (ps @ [q])"
    using ap A(5) by (auto simp: nodes_apart_def sorted_wrt_append)
  then have "nodes_apart (owned h1) (ps @ [q])" using ap A(4,7,8) unfolding nodes_apart_def by auto
  then have "list_in (owned h1) m3 (Head l) (cs @ [(q, v)])" using at' by (simp add: list_in_def ps_def)
  moreover have "list_Append l v mm h = Some (h1\<lparr>mem := m3\<rparr>)" using e(2) A(1) m1(1) m2(1) m3(1) mm by (simp add: list_Append_def)
  ultimately show ?thesis using w by (intro that [of "h1\<lparr>mem := m3\<rparr>" q]) simp_all
qed

lemma appendAll_ok:
  "xm_Alloc mm = alloc \<Longrightarrow> inv h \<Longrightarrow> ready (length vs + k) h \<Longrightarrow> list_in (owned h) (mem h) (Head l) cs \<Longrightarrow>
    \<exists>ds h'. appendAll l vs mm h = Some h' \<and> inv h' \<and> ready k h' \<and> list_in (owned h') (mem h') (Head l) (cs @ ds) \<and> map snd ds = vs"
proof (induction vs arbitrary: h cs)
  case Nil
  then show ?case by (intro exI [of _ "[]"]) simp
next
  case (Cons v vs)
  have r: "ready (Suc (length vs + k)) h" using Cons.prems(3) by simp
  obtain q h1 where A: "list_Append l v mm h = Some h1" "inv h1" "ready (length vs + k) h1"
    "list_in (owned h1) (mem h1) (Head l) (cs @ [(q, v)])" by (rule Append_ok [OF Cons.prems(1,2) r Cons.prems(4)])
  obtain ds h' where "appendAll l vs mm h1 = Some h'" "inv h'" "ready k h'" "list_in (owned h') (mem h') (Head l) ((cs @ [(q, v)]) @ ds)"
    "map snd ds = vs" using Cons.IH [OF Cons.prems(1) A(2,3,4)] by blast
  then show ?case using A(1) by (intro exI [of _ "(q, v) # ds"] exI [of _ h']) simp
qed

lemma build_ok:
  assumes mm: "xm_Alloc mm = alloc" and h: "inv h" "ready (Suc (length vs)) h"
  shows "\<exists>l h' cs. list_build mm vs h = Some (l, h') \<and> inv h' \<and> list_in (owned h') (mem h') (Head l) cs \<and> map snd cs = vs"
proof -
  obtain l h1 where I: "list_Init mm h = Some (l, h1)" "inv h1" "ready (length vs) h1" "list_in (owned h1) (mem h1) (Head l) []"
    using Init_ok [OF mm h] .
  obtain ds h' where "appendAll l vs mm h1 = Some h'" "inv h'" "list_in (owned h') (mem h') (Head l) ([] @ ds)" "map snd ds = vs"
    using appendAll_ok [where k = 0, OF mm I(2) _ I(4), of vs] I(3) by auto
  then show ?thesis using I(1) by (auto simp: list_build_def)
qed

end

text \<open>Destroy: each round frees the last node and cuts it off.\<close>

lemma countNodes_at: "nodes_at m p cs \<Longrightarrow> countNodes m p = Some (length cs)"
  by (induction m p cs rule: nodes_at.induct) (simp_all add: countNodes.simps)

lemma lastTwo_at: "nodes_at m p cs \<Longrightarrow> lastTwo m e p = Some (last (butlast (e # p # map fst cs)), last (p # map fst cs))"
  by (induction m p cs arbitrary: e rule: nodes_at.induct) (simp_all add: lastTwo.simps)

context freeing_memory
begin

lemma freeRound_ok:
  assumes mm: "xm_Free mm = free" and h: "inv h" and l: "list_in (owned h) (mem h) (Head l) cs"
  obtains h' where "freeRounds (Suc n) l mm h = freeRounds n l mm h'" "inv h'" "owned h' = owned h" "\<forall>k. ready k h' = ready k h"
    "list_in (owned h') (mem h') (Head l) (butlast cs)"
proof -
  define ps where "ps = Head l # map fst cs"
  define e where "e = last ps"
  define pre where "pre = last (butlast (Head l # ps))"
  have ap: "nodes_apart (owned h) ps" and at: "nodes_at (mem h) (Head l) cs" using l by (simp_all add: list_in_def ps_def)
  have two: "lastTwo (mem h) (Head l) (Head l) = Some (pre, e)" using lastTwo_at [OF at] by (simp add: pre_def e_def ps_def)
  have pre: "pre = last (Head l # map fst (butlast cs))" by (cases cs) (simp_all add: pre_def ps_def map_butlast)
  have "Head l # map fst (butlast cs) = take (Suc (length cs - 1)) ps" by (simp add: ps_def butlast_conv_take take_map)
  then have ap': "nodes_apart (owned h) (Head l # map fst (butlast cs))" "set (Head l # map fst (butlast cs)) \<subseteq> set ps"
    using nodes_apart_take [OF ap] set_take_subset by metis+
  then have mem: "pre \<in> set ps" "e \<in> set ps" using last_in_set [of "Head l # map fst (butlast cs)"] last_in_set [of ps]
    unfolding pre e_def by (blast, simp add: ps_def)
  have eb: "e \<noteq> 0" "unat e + 16 \<le> 2 ^ 47" "cells e 16 \<subseteq> owned h" and pb: "pre \<noteq> 0" "unat pre + 16 \<le> 2 ^ 47" "cells pre 16 \<subseteq> owned h"
    using ap mem by (auto simp: nodes_apart_def)
  have "e \<in> owned h" using eb(3) by (auto simp: cells_def)
  from free_owned [OF h this eb(1)] obtain h1 where F: "free e h = Some (Inr (), h1)" "inv h1" "owned h1 = owned h"
    "\<forall>k. ready k h1 = ready k h" "\<forall>y \<in> owned h. mem h1 y = mem h y" by blast
  have "cells e 8 \<subseteq> dom (mem h)" using owned_mapped [OF h] eb(3) cells_mono [of 8 16 e] by auto
  from load64_mapped [OF _ this] eb(2) obtain v where "load64 (mem h) e = Some v" by auto
  then have v: "getField (mem h) e 0 = Some v" using eb(1) by (simp add: getField_def)
  have d: "cells pre 16 \<subseteq> dom (mem h1)" using owned_mapped [OF F(2)] pb(3) F(3) by blast
  obtain m where m: "setField (mem h1) pre 8 0 = Some m" "getField m pre 8 = Some 0" "dom m = dom (mem h1)"
    "\<forall>y. y \<notin> cells (pre + 8) 8 \<longrightarrow> m y = mem h1 y" "cells (pre + 8) 8 \<subseteq> cells pre 16"
    using setField_ok [OF pb(1,2) _ d, of 8 0] by auto
  have "freeRounds (Suc n) l mm h = freeRounds n l mm (h1\<lparr>mem := m\<rparr>)" using two v F(1) m(1) mm by simp
  moreover have out: "\<forall>y. y \<notin> owned h1 \<longrightarrow> m y = mem h1 y" using m(4,5) pb(3) F(3) by blast
  note w = write_owned [OF F(2) m(3) out]
  moreover have "nodes_at m (Head l) (butlast cs @ [])"
  proof (rule nodes_at_swing [of "mem h" _ _ "drop (length cs - 1) cs" "owned h" pre])
    show "nodes_at (mem h) (Head l) (butlast cs @ drop (length cs - 1) cs)" using at by (simp add: butlast_conv_take)
    show "nodes_apart (owned h) (Head l # map fst (butlast cs))" by (rule ap')
    show "\<forall>y \<in> owned h. y \<notin> cells (pre + 8) 8 \<longrightarrow> m y = mem h y" using m(4) F(5) by simp
  qed (use pre m(2) in simp_all)
  ultimately show ?thesis using F(3,4) ap'(1) by (intro that [of "h1\<lparr>mem := m\<rparr>"]) (simp_all add: list_in_def)
qed

lemma freeRounds_ok:
  "xm_Free mm = free \<Longrightarrow> inv h \<Longrightarrow> list_in (owned h) (mem h) (Head l) cs \<Longrightarrow>
    \<exists>h'. freeRounds n l mm h = Some h' \<and> inv h' \<and> owned h' = owned h \<and> list_in (owned h') (mem h') (Head l) (take (length cs - n) cs)"
proof (induction n arbitrary: h cs)
  case (Suc n)
  obtain h1 where R: "freeRounds (Suc n) l mm h = freeRounds n l mm h1" "inv h1" "owned h1 = owned h"
    "list_in (owned h1) (mem h1) (Head l) (butlast cs)" using freeRound_ok [OF Suc.prems, of n] by metis
  obtain h' where "freeRounds n l mm h1 = Some h'" "inv h'" "owned h' = owned h1"
    "list_in (owned h') (mem h') (Head l) (take (length (butlast cs) - n) (butlast cs))" using Suc.IH [OF Suc.prems(1) R(2,4)] by blast
  moreover have "take (length (butlast cs) - n) (butlast cs) = take (length cs - Suc n) cs" by (simp add: butlast_conv_take min_def)
  ultimately show ?case using R(1,3) by metis
qed simp

lemma Destroy_ok:
  assumes mm: "xm_Free mm = free" and h: "inv h" and l: "list_in (owned h) (mem h) (Head l) cs"
  shows "\<exists>h'. list_Destroy l mm h = Some h' \<and> inv h' \<and> owned h' = owned h \<and> list_in (owned h') (mem h') (Head l) []"
proof -
  have "countNodes (mem h) (Head l) = Some (length cs)" using l countNodes_at by (simp add: list_in_def)
  then show ?thesis using freeRounds_ok [OF mm h l, of "Suc (length cs)"] by (simp add: list_Destroy_def)
qed

end

subsection \<open>Properties\<close>



end
