(* ===== verification/Growth.thy ===== *)
theory Growth
  imports Collector
begin

text \<open>
  heap.go, grow2, and xmm.go, CreateMemory: what happens when the operating system gives no address
  space, and the state every run of the allocator starts in.
\<close>

subsection \<open>Out of memory\<close>

text \<open>An operating system that gives no address space.\<close>

definition refuses :: "os \<Rightarrow> bool" where
  "refuses os \<longleftrightarrow> (\<forall>i a n. snd (os_reserve os i a n) \<noteq> 0)"

lemma sysReserve_refused: "refuses os \<Longrightarrow> \<exists>e s'. sysReserve os a n s = (Inl e, s')"
proof -
  assume "refuses os"
  then have "snd (os_reserve os (calls s) a n) \<noteq> 0" by (simp add: refuses_def)
  then show ?thesis by (cases "os_reserve os (calls s) a n") (simp add: sysReserve_def errnoErr_def)
qed

lemma expand_refused: "refuses os \<Longrightarrow> \<exists>e s'. expand os a al l s = Some ((Some e, l), s')"
proof -
  assume r: "refuses os"
  have step: "\<exists>e s'. sysReserveAligned os p n al s = Some (Inl e, s')" for p n s
    using sysReserve_refused [OF r, of p "n + al" s] by (auto simp: sysReserveAligned_def reserveAligned.simps)
  obtain e1 s1 where "sysReserveAligned os (if lin_end l < 1 then a else lin_end l) 0x20000000 al s = Some (Inl e1, s1)"
    using step by blast
  moreover obtain e2 s2 where "sysReserveAligned os (if lin_end l < 1 then a else lin_end l) 0x10000000 al s1 = Some (Inl e2, s2)"
    using step by blast
  ultimately show ?thesis by (simp add: expand_def Let_def)
qed

lemma expandHeap_refused:
  assumes "refuses os" and "expandHeap os h = Some h'"
  shows "lin h' = \<lparr>lin_next = 0, lin_mapped = 0, lin_end = 0\<rparr>"
proof -
  let ?l = "\<lparr>lin_next = 0, lin_mapped = 0, lin_end = 0\<rparr>"
  obtain e g where e: "expand os 0 heapRawMemoryBytes (lin h) h = Some ((Some e, lin h), g)"
    using expand_refused [OF assms(1)] by blast
  obtain e' g' where "expand os 0 heapRawMemoryBytes ?l g = Some ((Some e', ?l), g')"
    using expand_refused [OF assms(1)] by blast
  then show ?thesis using e assms(2) by (auto simp: expandHeap_def)
qed

lemma growSize_ge: "heapRawMemoryBytes \<le> growSize np"
  by (simp add: growSize_def Let_def not_less)

lemma reserve_empty:
  "lin h = \<lparr>lin_next = 0, lin_mapped = 0, lin_end = 0\<rparr> \<Longrightarrow> fst (reserveRegion os (growSize np) h) = Inl LackOfMemoryErr"
proof -
  assume l: "lin h = \<lparr>lin_next = 0, lin_mapped = 0, lin_end = 0\<rparr>"
  have "0 < growSize np" using growSize_ge [of np] by (auto simp: word_le_nat_alt word_less_nat_alt)
  then show ?thesis by (simp add: reserveRegion_def lin_alloc_def l round_up_def Let_def)
qed

lemma grow2_refused:
  assumes "refuses os" and "fst (reserveRegion os (growSize np) h) = Inl LackOfMemoryErr"
  shows "grow2 os rnd np h = None"
proof (rule ccontr)
  assume "grow2 os rnd np h \<noteq> None"
  then obtain y where "grow2 os rnd np h = Some y" by auto
  then have "refuses os \<longrightarrow> fst (reserveRegion os (growSize np) h) \<noteq> Inl LackOfMemoryErr"
    apply (rule grow2.raw_induct [rotated])
    subgoal premises prems for f os rnd np h y
    proof (intro impI notI)
      assume r: "refuses os" and "fst (reserveRegion os (growSize np) h) = Inl LackOfMemoryErr"
      then obtain g where "reserveRegion os (growSize np) h = (Inl LackOfMemoryErr, g)" by (metis prod.collapse)
      then obtain g' where g: "expandHeap os g = Some g'" "f os rnd np g' = Some y" using prems(2) by auto
      show False using prems(1) [OF g(2)] r reserve_empty [OF expandHeap_refused [OF r g(1)]] by blast
    qed
    done
  then show False using assms by blast
qed

text \<open>
  C32: When the operating system gives no more address space and the linear allocator has no room, grow2
  does not return: it throws the allocator away, forgets the error, and calls itself again for
  ever, so no request that needs new pages ever sees an out-of-memory error.
\<close>
theorem grow2_out_of_memory_diverges:
  assumes "refuses os" and "fst (reserveRegion os (growSize np) h) = Inl LackOfMemoryErr"
    and "treap_find np h = Some (Inl EmptyError)"
  shows "grow2 os rnd np h = None \<and> freeChunk os rnd np h = None"
  using grow2_refused [OF assms(1,2)] assms(3) by (simp_all add: freeChunk_def findOrGrow_def)

theorem grow2_out_of_memory_diverges_witness:
  "freeChunk (demo_os\<lparr>os_reserve := (\<lambda>i a n. (0, 12))\<rparr>) (\<lambda>_. 3) 100 demo_heap = None"
proof (rule grow2_out_of_memory_diverges [THEN conjunct2])
  show "refuses (demo_os\<lparr>os_reserve := (\<lambda>i a n. (0, 12))\<rparr>)" by (simp add: refuses_def)
  have "lin demo_heap = \<lparr>lin_next = 0x60000000, lin_mapped = 0x60000000, lin_end = 0x60000000\<rparr>"
    by (simp add: demo_heap_def treap_state.defs)
  then show "fst (reserveRegion (demo_os\<lparr>os_reserve := (\<lambda>i a n. (0, 12))\<rparr>) (growSize 100) demo_heap) = Inl LackOfMemoryErr"
    by (simp add: reserveRegion_def growSize_def lin_alloc_def round_up_def Let_def)
  have "best_fit (chunks demo_heap) 100 [16, 32] = None"
    by (simp add: best_fit_def chunk_key_def demo_heap_treap demo_chunks_def)
  then show "treap_find 100 demo_heap = Some (Inl EmptyError)"
    using demo_heap_rep treap_find_none by (auto simp: heap_rep_def)
qed

subsection \<open>The start\<close>

text \<open>A process before the allocator was created: nothing is allocated.\<close>

definition fresh_process :: "'a xSpanPool_scheme \<Rightarrow> bool" where
  "fresh_process h \<longleftrightarrow> pool_xrm h = [] \<and> pool_index h = 0 \<and> treap h = 0 \<and> addrMap h = None \<and> rawLinear h 0 = None"

lemma newXSliceAllocator_more: "newXSliceAllocator os e i g s = Some (r, s') \<Longrightarrow> machine.more s' = machine.more s"
  by (auto simp: newXSliceAllocator_def newXFixedAllocator_def split: if_splits sum.splits prod.splits dest: newXRawMemory_more)

lemma expand_more: "expand os a al l s = Some y \<Longrightarrow> machine.more (snd y) = machine.more s"
  unfolding expand_def Let_def by (rule expandLoop_more)

lemma machine_more_heap:
  "machine.more h' = machine.more h \<Longrightarrow> pool_xrm h' = pool_xrm h \<and> pool_index h' = pool_index h \<and> treap h' = treap h \<and>
    addrMap h' = addrMap h \<and> rawLinear (h' :: 'a xHeap_scheme) = rawLinear h"
  by (cases h; cases h') simp

lemma newXHeap_parts:
  assumes "newXHeap os h = Some (Inr (), h')"
  shows "pool_xrm h' = pool_xrm h" "pool_index h' = pool_index h" "treap h' = treap h" "addrMap h' = addrMap h" "rawLinear h' = rawLinear h"
    "classFree h' = (\<lambda>_. 0)" "classFull h' = (\<lambda>_. 0)"
proof -
  obtain r h1 where st1: "newXSliceAllocator os 8 16 True h = Some (r, h1)" using assms by (auto simp: newXHeap_def)
  then obtain xa where r: "r = Inr xa" using assms by (cases r) (auto simp: newXHeap_def)
  obtain l h2 where st: "expand os 0 heapRawMemoryBytes (lin h1) (h1\<lparr>allChunkAllocator := xa\<rparr>) = Some ((None, l), h2)"
    "h' = initClassSpan (h2\<lparr>lin := l\<rparr>)"
    using assms st1 r by (auto simp: newXHeap_def Let_def split: option.splits)
  note m1 = machine_more_heap [OF newXSliceAllocator_more [OF st1]]
  note m2 = machine_more_heap [OF expand_more [OF st(1), simplified]]
  show "pool_xrm h' = pool_xrm h" "pool_index h' = pool_index h" "treap h' = treap h" "addrMap h' = addrMap h" "rawLinear h' = rawLinear h"
    "classFree h' = (\<lambda>_. 0)" "classFull h' = (\<lambda>_. 0)"
    using m1 m2 by (simp_all add: st(2) initClassSpan_def)
qed


definition demo_process :: xSpanPool where
  "demo_process = demo_pool\<lparr>mem := Map.empty, calls := 0, pool_xrm := [], pool_index := 0, treap := 0, treap_nodes := Map.empty,
     chunks := Map.empty, addrMap := None, rawLinear := Map.empty, spans := Map.empty,
     lin := \<lparr>lin_next = 0, lin_mapped = 0, lin_end = 0\<rparr>\<rparr>"


end
