(* ===== verification/ClassLists.thy ===== *)
theory ClassLists
  imports Growth
begin

text \<open>
  class\_span.go: the free and the full list of every class hold spans of that class only. The lists
  of all classes are linked through one field of the spans, so the invariant speaks of all of them.
\<close>

subsection \<open>The lists of the classes\<close>

text \<open>
  The list \<open>(False, i)\<close> is the free list of class \<open>i\<close>, \<open>(True, i)\<close> its full list. Every list holds
  spans of its own class only, and no span is in two lists.
\<close>

definition class_head :: "'a xHeap_scheme \<Rightarrow> bool \<times> nat \<Rightarrow> uintptr" where
  "class_head h k = (if fst k then classFull h (snd k) else classFree h (snd k))"

definition class_lists :: "'a xHeap_scheme \<Rightarrow> (bool \<times> nat \<Rightarrow> uintptr list) \<Rightarrow> bool" where
  "class_lists h L \<longleftrightarrow>
     (\<forall>k. linked (class_head h k, spans h) (L k) \<and> (\<forall>x \<in> set (L k). \<exists>s. spans h x = Some s \<and> classIndex s = snd k)) \<and>
     (\<forall>k k'. k \<noteq> k' \<longrightarrow> set (L k) \<inter> set (L k') = {})"

lemma class_lists_linked: "class_lists h L \<Longrightarrow> linked (class_head h k, spans h) (L k)"
  by (simp only: class_lists_def)

lemma class_lists_span: "class_lists h L \<Longrightarrow> x \<in> set (L k) \<Longrightarrow> \<exists>s. spans h x = Some s \<and> classIndex s = snd k"
  unfolding class_lists_def by blast

lemma linked_upd: "a \<notin> set xs \<Longrightarrow> linked (f, st(a \<mapsto> s)) xs = linked (f, st) xs"
  by (simp add: linked_def chain_upd)

lemma class_lists_release:
  assumes L: "class_lists h L" and a: "spans h a = Some s" "a \<noteq> 0" "\<forall>k. a \<notin> set (L k)"
  shows "\<exists>h'. releaseSpan (classIndex s) a h = Some h' \<and> class_lists h' (L((True, classIndex s) := a # L (True, classIndex s)))"
proof -
  let ?i = "classIndex s" and ?k = "(True, classIndex s)"
  let ?st = "(spans h)(a \<mapsto> s\<lparr>next_span := classFull h ?i\<rparr>)"
  let ?h = "h\<lparr>classFull := (classFull h)(?i := a), spans := ?st\<rparr>"
  have "linked (classFull h ?i, spans h) (L ?k)" using class_lists_linked [OF L, of ?k] by (simp add: class_head_def)
  note ins = list_insert_ok [OF this a(1,2)] 
  have ak: "a \<notin> set (L ?k)" using a(3) by blast
  have "linked (class_head ?h k, ?st) (if k = ?k then a # L ?k else L k)" for k
  proof (cases "k = ?k")
    case True
    then show ?thesis using ins(2) [OF ak] by (simp add: class_head_def)
  next
    case False
    then have "class_head ?h k = class_head h k" by (cases k) (auto simp: class_head_def)
    moreover have "a \<notin> set (L k)" using a(3) by blast
    ultimately show ?thesis using False class_lists_linked [OF L, of k] by (simp add: linked_upd)
  qed
  moreover have "\<exists>t. ?st x = Some t \<and> classIndex t = snd k" if "x \<in> set (if k = ?k then a # L ?k else L k)" for k x
    using that class_lists_span [OF L, of x k] class_lists_span [OF L, of x ?k] a(3)
    by (cases "x = a"; cases "k = ?k") auto
  moreover have "set (if k = ?k then a # L ?k else L k) \<inter> set (if k' = ?k then a # L ?k else L k') = {}" if "k \<noteq> k'" for k k'
  proof -
    have "set (L k) \<inter> set (L k') = {}" using L that unfolding class_lists_def by blast
    moreover have "a \<notin> set (L k)" "a \<notin> set (L k')" using a(3) by blast+
    ultimately show ?thesis using that by auto
  qed
  ultimately have "class_lists ?h (L(?k := a # L ?k))" by (simp add: class_lists_def)
  moreover have "releaseSpan ?i a h = Some ?h" using ins(1) [OF ak] by (simp add: releaseSpan_def)
  ultimately show ?thesis by blast
qed

lemma class_lists_take:
  assumes L: "class_lists h L" and k: "L (False, i) = x # xs"
  shows "\<exists>h'. class_allocSpan os rnd i f h = Some (Inr x, h') \<and> class_lists h' (L((False, i) := xs)) \<and> spans h' = spans h"
proof -
  let ?k = "(False, i)"
  have l: "linked (classFree h i, spans h) (x # xs)" using class_lists_linked [OF L, of ?k] k by (simp add: class_head_def)
  then have x: "classFree h i = x" "x \<noteq> 0" by (auto simp: linked_def split: option.splits)
  from list_moveHead_ok [OF l] obtain g where g: "list_moveHead (classFree h i, spans h) = Some (x, g, spans h)" "linked (g, spans h) xs"
    by auto
  let ?h = "h\<lparr>classFree := (classFree h)(i := g)\<rparr>"
  have "linked (class_head ?h j, spans h) (if j = ?k then xs else L j)" for j
  proof (cases "j = ?k")
    case True
    then show ?thesis using g(2) by (simp add: class_head_def)
  next
    case False
    then have "class_head ?h j = class_head h j" by (cases j) (auto simp: class_head_def)
    then show ?thesis using False class_lists_linked [OF L, of j] by simp
  qed
  moreover have "\<exists>t. spans h y = Some t \<and> classIndex t = snd j" if "y \<in> set (if j = ?k then xs else L j)" for j y
  proof -
    have "y \<in> set (L j)" using that k by (auto split: if_splits)
    then show ?thesis using L unfolding class_lists_def by blast
  qed
  moreover have "set (if j = ?k then xs else L j) \<inter> set (if j' = ?k then xs else L j') = {}" if "j \<noteq> j'" for j j'
  proof -
    have "set (L j) \<inter> set (L j') = {}" using L that unfolding class_lists_def by blast
    then show ?thesis using that k by (auto split: if_splits)
  qed
  ultimately have "class_lists ?h (L(?k := xs))" by (simp add: class_lists_def)
  moreover have "class_allocSpan os rnd i f h = Some (Inr x, ?h)"
    using g(1) x by (simp add: class_allocSpan_def)
  ultimately show ?thesis by fastforce
qed



end
