(* ===== verification/Entry.thy ===== *)
theory Entry
  imports PtrTree
begin

text \<open>
  entry.go: a red-black tree of key-value entries. The nodes belong to the caller, who passes their
  addresses; their links, data and colors live in a store. Keys are compared by a function the
  tree is made with, which takes values of any type and panics on a type it does not know. The
  read-write lock is left out: operations run one after the other.
\<close>

subsection \<open>Data\<close>

text \<open>The zero value of \<open>Color\<close> is red.\<close>

type_synonym Color = bool

abbreviation (input) BLACK :: Color where "BLACK \<equiv> True"

abbreviation (input) RED :: Color where "RED \<equiv> False"

datatype Direction = LEFT | RIGHT | NODIR

record NodeEntry = link +
  Key :: "uint8 list"
  Value :: "uint8 list"
  Hash :: uint64
  Next :: uintptr
  color :: Color

type_synonym entries = "uintptr \<Rightarrow> NodeEntry option"

text \<open>A value of type \<open>interface{}\<close>, as far as keys and comparators go; \<open>Other\<close> is of any other type.\<close>

datatype iface = Nil_iface | Bytes "uint8 list" | Integer "64 word" | Str "uint8 list" | Other

type_synonym Comparator = "iface \<Rightarrow> iface \<Rightarrow> int option"

record Tree =
  root :: uintptr
  nodes :: entries
  cmp :: Comparator

fun Color_String :: "Color \<Rightarrow> string" where
  "Color_String True = ''Black''"
| "Color_String False = ''Red''"

fun Direction_String :: "Direction \<Rightarrow> string" where
  "Direction_String LEFT = ''left''"
| "Direction_String RIGHT = ''right''"
| "Direction_String NODIR = ''center''"

subsection \<open>Accessors\<close>

definition Parent :: "uintptr \<Rightarrow> entries \<Rightarrow> uintptr option" where
  "Parent a N = map_option lnk_parent (N a)"

definition SetColor :: "uintptr \<Rightarrow> Color \<Rightarrow> entries \<Rightarrow> entries option" where
  "SetColor a c N = upd a (color_update (\<lambda>_. c)) N"

definition get_color :: "uintptr \<Rightarrow> entries \<Rightarrow> Color option" where
  "get_color a N = map_option color (N a)"

definition Left :: "uintptr \<Rightarrow> entries \<Rightarrow> uintptr option" where
  "Left a N = map_option lnk_left (N a)"

definition Right :: "uintptr \<Rightarrow> entries \<Rightarrow> uintptr option" where
  "Right a N = map_option lnk_right (N a)"

definition isRed :: "entries \<Rightarrow> uintptr \<Rightarrow> bool option" where
  "isRed N a = (if a = 0 then Some False else map_option (\<lambda>n. color n = RED) (N a))"

subsection \<open>Keys\<close>

text \<open>\<open>bytes.Compare\<close>: the order of the first byte that differs, and shorter before longer.\<close>

fun bytes_compare :: "uint8 list \<Rightarrow> uint8 list \<Rightarrow> int" where
  "bytes_compare [] [] = 0"
| "bytes_compare [] (y # ys) = - 1"
| "bytes_compare (x # xs) [] = 1"
| "bytes_compare (x # xs) (y # ys) = (if x < y then - 1 else if y < x then 1 else bytes_compare xs ys)"

fun BytesAscSort :: Comparator where
  "BytesAscSort (Bytes k1) (Bytes k2) = Some (bytes_compare k1 k2)"
| "BytesAscSort _ _ = None"

fun IntComparator :: Comparator where
  "IntComparator (Integer i1) (Integer i2) = Some (if sint i1 > sint i2 then 1 else if sint i1 < sint i2 then - 1 else 0)"
| "IntComparator _ _ = None"

fun StringComparator :: Comparator where
  "StringComparator (Str s1) (Str s2) = Some (bytes_compare s1 s2)"
| "StringComparator _ _ = None"

definition mustBeValidKey :: "iface \<Rightarrow> goerr option" where
  "mustBeValidKey key = (if key = Nil_iface then Some ErrorKeyIsNil else None)"

definition NewTree :: Tree where
  "NewTree = \<lparr>root = 0, nodes = Map.empty, cmp = IntComparator\<rparr>"

definition NewTreeWith :: "Comparator \<Rightarrow> Tree" where
  "NewTreeWith c = \<lparr>root = 0, nodes = Map.empty, cmp = c\<rparr>"

definition SetComparator :: "Comparator \<Rightarrow> Tree \<Rightarrow> Tree" where
  "SetComparator c t = t\<lparr>cmp := c\<rparr>"

definition GetRoot :: "Tree \<Rightarrow> uintptr" where
  "GetRoot t = root t"

subsection \<open>Lookup\<close>

partial_function (option) internalLookup ::
  "Comparator \<Rightarrow> entries \<Rightarrow> uintptr \<Rightarrow> uintptr \<Rightarrow> iface \<Rightarrow> Direction \<Rightarrow> (bool \<times> uintptr \<times> Direction) option" where
  [code]: "internalLookup cp N parent this key dir =
     (if this = 0 then Some (False, parent, dir)
      else Option.bind (N this) (\<lambda>n.
        Option.bind (cp key (Bytes (Key n))) (\<lambda>c.
          if c = 0 then Some (True, parent, dir)
          else if c < 0 then internalLookup cp N this (lnk_left n) key LEFT
          else internalLookup cp N this (lnk_right n) key RIGHT)))"

definition GetParent :: "iface \<Rightarrow> Tree \<Rightarrow> (bool \<times> uintptr \<times> Direction) option" where
  "GetParent key t =
     (if mustBeValidKey key \<noteq> None then Some (False, 0, NODIR)
      else if root t = 0 then Some (False, 0, NODIR)
      else internalLookup (cmp t) (nodes t) 0 (root t) key NODIR)"

definition getNode :: "iface \<Rightarrow> Tree \<Rightarrow> (bool \<times> uintptr) option" where
  "getNode key t = do {
     (found, parent, dir) \<leftarrow> GetParent key t;
     (if found
      then if parent = 0 then Some (True, root t)
           else do {
             n \<leftarrow> nodes t parent;
             (let node = (case dir of LEFT \<Rightarrow> lnk_left n | RIGHT \<Rightarrow> lnk_right n | NODIR \<Rightarrow> 0)
              in Some (if node \<noteq> 0 then (True, node) else (False, 0)))
           }
      else Some (False, 0))
   }"

text \<open>The error of a nil key is unreachable here: a byte slice in an interface is not nil.\<close>

definition Get :: "uint8 list \<Rightarrow> Tree \<Rightarrow> (bool \<times> uint8 list) option" where
  "Get key t =
     (if mustBeValidKey (Bytes key) \<noteq> None then Some (False, [])
      else do {
        (ok, node) \<leftarrow> getNode (Bytes key) t;
        (if ok then map_option (\<lambda>n. (True, Value n)) (nodes t node) else Some (False, []))
      })"

definition Has :: "iface \<Rightarrow> Tree \<Rightarrow> bool option" where
  "Has key t =
     (if mustBeValidKey key \<noteq> None then Some False
      else map_option fst (internalLookup (cmp t) (nodes t) 0 (root t) key NODIR))"

partial_function (option) getMinimum :: "entries \<Rightarrow> uintptr \<Rightarrow> uintptr option" where
  [code]: "getMinimum N x = Option.bind (N x) (\<lambda>n. if lnk_left n \<noteq> 0 then getMinimum N (lnk_left n) else Some x)"

subsection \<open>Rotations\<close>

text \<open>Put \<open>new\<close> where the parent of \<open>old\<close> has \<open>old\<close>.\<close>

definition childSwap :: "uintptr \<Rightarrow> uintptr \<Rightarrow> uintptr \<Rightarrow> uintptr \<times> entries \<Rightarrow> (uintptr \<times> entries) option" where
  "childSwap p old new rN = (let (rt, N) = rN in
     if p = 0 then Some (new, N)
     else do {
       pn \<leftarrow> N p;
       N \<leftarrow> (if old = lnk_left pn then upd p (lnk_left_update (\<lambda>_. new)) N
             else upd p (lnk_right_update (\<lambda>_. new)) N);
       Some (rt, N)
     })"

definition RotateRight :: "uintptr \<Rightarrow> uintptr \<times> entries \<Rightarrow> (uintptr \<times> entries) option" where
  "RotateRight y rN = (let (rt, N) = rN in
     if y = 0 then Some (rt, N)
     else do {
       yn \<leftarrow> N y;
       (if lnk_left yn = 0 then Some (rt, N)
        else let x = lnk_left yn
          in do {
            xn \<leftarrow> N x;
            N \<leftarrow> upd y (lnk_left_update (\<lambda>_. lnk_right xn)) N;
            N \<leftarrow> set_parent (lnk_right xn) y N;
            N \<leftarrow> upd x (lnk_parent_update (\<lambda>_. lnk_parent yn)) N;
            (rt, N) \<leftarrow> childSwap (lnk_parent yn) y x (rt, N);
            N \<leftarrow> upd x (lnk_right_update (\<lambda>_. y)) N;
            N \<leftarrow> upd y (lnk_parent_update (\<lambda>_. x)) N;
            Some (rt, N)
          })
     })"

definition RotateLeft :: "uintptr \<Rightarrow> uintptr \<times> entries \<Rightarrow> (uintptr \<times> entries) option" where
  "RotateLeft x rN = (let (rt, N) = rN in
     if x = 0 then Some (rt, N)
     else do {
       xn \<leftarrow> N x;
       (if lnk_right xn = 0 then Some (rt, N)
        else let y = lnk_right xn
          in do {
            yn \<leftarrow> N y;
            N \<leftarrow> upd x (lnk_right_update (\<lambda>_. lnk_left yn)) N;
            N \<leftarrow> set_parent (lnk_left yn) x N;
            N \<leftarrow> upd y (lnk_parent_update (\<lambda>_. lnk_parent xn)) N;
            (rt, N) \<leftarrow> childSwap (lnk_parent xn) x y (rt, N);
            N \<leftarrow> upd y (lnk_left_update (\<lambda>_. x)) N;
            N \<leftarrow> upd x (lnk_parent_update (\<lambda>_. y)) N;
            Some (rt, N)
          })
     })"

subsection \<open>Insertion\<close>

text \<open>
  A round of \<open>fixupPut\<close> at \<open>z\<close>, whose parent is red: the result is the next \<open>z\<close>. \<open>g\<close> is the
  grandparent and \<open>y\<close> its other child.
\<close>

definition recolorUp :: "uintptr \<Rightarrow> uintptr \<Rightarrow> uintptr \<Rightarrow> uintptr \<times> entries \<Rightarrow> (uintptr \<times> uintptr \<times> entries) option" where
  "recolorUp z y g rN = (let (rt, N) = rN in do {
     p \<leftarrow> Parent z N;
     N \<leftarrow> SetColor p BLACK N;
     N \<leftarrow> SetColor y BLACK N;
     N \<leftarrow> SetColor g RED N;
     Some (g, rt, N)
   })"

definition putFixLeft :: "uintptr \<Rightarrow> uintptr \<Rightarrow> uintptr \<Rightarrow> uintptr \<times> entries \<Rightarrow> (uintptr \<times> uintptr \<times> entries) option" where
  "putFixLeft z y g rN = do {
     red \<leftarrow> isRed (snd rN) y;
     (if red then recolorUp z y g rN
      else do {
        p \<leftarrow> Parent z (snd rN);
        r \<leftarrow> Right p (snd rN);
        (z, rt, N) \<leftarrow> (if z = r then map_option (\<lambda>rN. (p, rN)) (RotateLeft p rN) else Some (z, rN));
        p \<leftarrow> Parent z N;
        N \<leftarrow> SetColor p BLACK N;
        N \<leftarrow> SetColor g RED N;
        map_option (\<lambda>rN. (z, rN)) (RotateRight g (rt, N))
      })
   }"

definition putFixRight :: "uintptr \<Rightarrow> uintptr \<Rightarrow> uintptr \<Rightarrow> uintptr \<times> entries \<Rightarrow> (uintptr \<times> uintptr \<times> entries) option" where
  "putFixRight z y g rN = do {
     red \<leftarrow> isRed (snd rN) y;
     (if red then recolorUp z y g rN
      else do {
        p \<leftarrow> Parent z (snd rN);
        l \<leftarrow> Left p (snd rN);
        (z, rt, N) \<leftarrow> (if z = l then map_option (\<lambda>rN. (p, rN)) (RotateRight p rN) else Some (z, rN));
        p \<leftarrow> Parent z N;
        N \<leftarrow> SetColor p BLACK N;
        N \<leftarrow> SetColor g RED N;
        map_option (\<lambda>rN. (z, rN)) (RotateLeft g (rt, N))
      })
   }"

definition putFixRound :: "uintptr \<Rightarrow> uintptr \<times> entries \<Rightarrow> (uintptr \<times> uintptr \<times> entries) option" where
  "putFixRound z rN = do {
     p \<leftarrow> Parent z (snd rN);
     g \<leftarrow> Parent p (snd rN);
     gn \<leftarrow> snd rN g;
     (if p = lnk_left gn then putFixLeft z (lnk_right gn) g rN
      else putFixRight z (lnk_left gn) g rN)
   }"

definition blackRoot :: "uintptr \<times> entries \<Rightarrow> (uintptr \<times> entries) option" where
  "blackRoot rN = map_option (\<lambda>N. (fst rN, N)) (SetColor (fst rN) BLACK (snd rN))"

partial_function (option) fixupPut :: "uintptr \<Rightarrow> uintptr \<times> entries \<Rightarrow> (uintptr \<times> entries) option" where
  [code]: "fixupPut z rN = Option.bind (Parent z (snd rN)) (\<lambda>p.
     Option.bind (if p = 0 then Some BLACK else get_color p (snd rN)) (\<lambda>c.
       if c = BLACK then blackRoot rN
       else Option.bind (putFixRound z rN) (\<lambda>(z, rN). fixupPut z rN)))"

text \<open>The value of the node the search found, and the new node where it ended.\<close>

definition overwrite :: "uintptr \<Rightarrow> Direction \<Rightarrow> uint8 list \<Rightarrow> uintptr \<times> entries \<Rightarrow> entries option" where
  "overwrite parent dir data rN =
     (if parent = 0 then upd (fst rN) (Value_update (\<lambda>_. data)) (snd rN)
      else case dir of
        LEFT \<Rightarrow> Option.bind (Left parent (snd rN)) (\<lambda>a. upd a (Value_update (\<lambda>_. data)) (snd rN))
      | RIGHT \<Rightarrow> Option.bind (Right parent (snd rN)) (\<lambda>a. upd a (Value_update (\<lambda>_. data)) (snd rN))
      | NODIR \<Rightarrow> Some (snd rN))"

definition hangNode :: "uintptr \<Rightarrow> uintptr \<Rightarrow> Direction \<Rightarrow> entries \<Rightarrow> entries option" where
  "hangNode node parent dir N = do {
     N \<leftarrow> upd node (lnk_parent_update (\<lambda>_. parent)) N;
     (case dir of
        LEFT \<Rightarrow> upd parent (lnk_left_update (\<lambda>_. node)) N
      | RIGHT \<Rightarrow> upd parent (lnk_right_update (\<lambda>_. node)) N
      | NODIR \<Rightarrow> Some N)
   }"

text \<open>The links of \<open>node\<close> are cleared before anything else, its color is not.\<close>

definition Put :: "uintptr \<Rightarrow> Tree \<Rightarrow> ((goerr + unit) \<times> Tree) option" where
  "Put node t = do {
     N \<leftarrow> upd node (\<lambda>n. n\<lparr>lnk_parent := 0, lnk_left := 0, Next := 0, lnk_right := 0\<rparr>) (nodes t);
     n \<leftarrow> N node;
     (case mustBeValidKey (Bytes (Key n)) of
        Some e \<Rightarrow> Some (Inl e, t\<lparr>nodes := N\<rparr>)
      | None \<Rightarrow>
          if root t = 0
          then map_option (\<lambda>N. (Inr (), t\<lparr>nodes := N, root := node\<rparr>)) (SetColor node BLACK N)
          else do {
            (found, parent, dir) \<leftarrow> internalLookup (cmp t) N 0 (root t) (Bytes (Key n)) NODIR;
            (rt, N) \<leftarrow>
              (if found then map_option (\<lambda>N. (root t, N)) (overwrite parent dir (Value n) (root t, N))
               else if parent \<noteq> 0 then Option.bind (hangNode node parent dir N) (\<lambda>N. fixupPut node (root t, N))
               else Some (root t, N));
            Some (Inr (), t\<lparr>nodes := N, root := rt\<rparr>)
          })
   }"

subsection \<open>Deletion\<close>

definition transplant :: "uintptr \<Rightarrow> uintptr \<Rightarrow> uintptr \<times> entries \<Rightarrow> (uintptr \<times> entries) option" where
  "transplant u v rN = do {
     p \<leftarrow> Parent u (snd rN);
     (rt, N) \<leftarrow> childSwap p u v rN;
     (if v \<noteq> 0 then do {
        p \<leftarrow> Parent u N;
        N \<leftarrow> set_parent v p N;
        Some (rt, N)
      }
      else Some (rt, N))
   }"

text \<open>
  A round of \<open>fixupDelete\<close> at \<open>x\<close>: \<open>p\<close> is its parent and \<open>w\<close> its sibling. When the sibling is nil
  nothing happens, and \<open>x\<close> stays.
\<close>

definition delFixRight :: "uintptr \<Rightarrow> uintptr \<times> entries \<Rightarrow> (uintptr \<times> uintptr \<times> entries) option" where
  "delFixRight x rN = do {
     p \<leftarrow> Parent x (snd rN);
     w \<leftarrow> Left p (snd rN);
     wred \<leftarrow> isRed (snd rN) w;
     (w, rt, N) \<leftarrow>
       (if wred then do {
          N \<leftarrow> SetColor w BLACK (snd rN);
          p \<leftarrow> Parent x N;
          N \<leftarrow> SetColor p RED N;
          (rt, N) \<leftarrow> RotateRight p (fst rN, N);
          p \<leftarrow> Parent x N;
          w \<leftarrow> Left p N;
          Some (w, rt, N)
        }
        else Some (w, rN));
     (if w = 0 then Some (x, rt, N)
      else do {
        wn \<leftarrow> N w;
        l \<leftarrow> isRed N (lnk_left wn);
        r \<leftarrow> isRed N (lnk_right wn);
        (x, w, rt, N) \<leftarrow>
          (if \<not> l \<and> \<not> r then do {
             N \<leftarrow> SetColor w RED N;
             p \<leftarrow> Parent x N;
             Some (p, w, rt, N)
           }
           else if r \<and> \<not> l then do {
             N \<leftarrow> SetColor (lnk_right wn) BLACK N;
             N \<leftarrow> SetColor w RED N;
             (rt, N) \<leftarrow> RotateLeft w (rt, N);
             p \<leftarrow> Parent x N;
             w \<leftarrow> Left p N;
             Some (x, w, rt, N)
           }
           else Some (x, w, rt, N));
        l \<leftarrow> Left w N;
        lred \<leftarrow> isRed N l;
        (if lred then do {
           p \<leftarrow> Parent x N;
           c \<leftarrow> get_color p N;
           N \<leftarrow> SetColor w c N;
           N \<leftarrow> SetColor p BLACK N;
           l \<leftarrow> Left w N;
           N \<leftarrow> SetColor l BLACK N;
           (rt, N) \<leftarrow> RotateRight p (rt, N);
           Some (rt, rt, N)
         }
         else Some (x, rt, N))
      })
   }"

definition delFixLeft :: "uintptr \<Rightarrow> uintptr \<times> entries \<Rightarrow> (uintptr \<times> uintptr \<times> entries) option" where
  "delFixLeft x rN = do {
     p \<leftarrow> Parent x (snd rN);
     w \<leftarrow> Right p (snd rN);
     wred \<leftarrow> isRed (snd rN) w;
     (w, rt, N) \<leftarrow>
       (if wred then do {
          N \<leftarrow> SetColor w BLACK (snd rN);
          p \<leftarrow> Parent x N;
          N \<leftarrow> SetColor p RED N;
          (rt, N) \<leftarrow> RotateLeft p (fst rN, N);
          p \<leftarrow> Parent x N;
          w \<leftarrow> Right p N;
          Some (w, rt, N)
        }
        else Some (w, rN));
     (if w = 0 then Some (x, rt, N)
      else do {
        wn \<leftarrow> N w;
        l \<leftarrow> isRed N (lnk_left wn);
        r \<leftarrow> isRed N (lnk_right wn);
        (x, w, rt, N) \<leftarrow>
          (if \<not> l \<and> \<not> r then do {
             N \<leftarrow> SetColor w RED N;
             p \<leftarrow> Parent x N;
             Some (p, w, rt, N)
           }
           else if l \<and> \<not> r then do {
             N \<leftarrow> SetColor (lnk_left wn) BLACK N;
             N \<leftarrow> SetColor w RED N;
             (rt, N) \<leftarrow> RotateRight w (rt, N);
             p \<leftarrow> Parent x N;
             w \<leftarrow> Right p N;
             Some (x, w, rt, N)
           }
           else Some (x, w, rt, N));
        r \<leftarrow> Right w N;
        rred \<leftarrow> isRed N r;
        (if rred then do {
           p \<leftarrow> Parent x N;
           c \<leftarrow> get_color p N;
           N \<leftarrow> SetColor w c N;
           N \<leftarrow> SetColor p BLACK N;
           r \<leftarrow> Right w N;
           N \<leftarrow> SetColor r BLACK N;
           (rt, N) \<leftarrow> RotateLeft p (rt, N);
           Some (rt, rt, N)
         }
         else Some (x, rt, N))
      })
   }"

text \<open>A node that is no child of its parent would stay in the loop for ever.\<close>

partial_function (option) fixupDeleteLoop :: "uintptr \<Rightarrow> uintptr \<times> entries \<Rightarrow> (uintptr \<times> uintptr \<times> entries) option" where
  [code]: "fixupDeleteLoop x rN =
     (if x = fst rN then Some (x, rN)
      else Option.bind (get_color x (snd rN)) (\<lambda>c.
        if c = RED then Some (x, rN)
        else Option.bind (Parent x (snd rN)) (\<lambda>p.
          Option.bind (snd rN p) (\<lambda>pn.
            Option.bind
              (if x = lnk_right pn then delFixRight x rN
               else if x = lnk_left pn then delFixLeft x rN
               else Some (x, rN))
              (\<lambda>(x, rN). fixupDeleteLoop x rN)))))"

definition fixupDelete :: "uintptr \<Rightarrow> uintptr \<times> entries \<Rightarrow> (uintptr \<times> entries) option" where
  "fixupDelete x rN =
     (if x = 0 then Some rN
      else do {
        (x, rt, N) \<leftarrow> fixupDeleteLoop x rN;
        N \<leftarrow> SetColor x BLACK N;
        Some (rt, N)
      })"

text \<open>
  Cutting the node \<open>z\<close> out of the tree; the result is the color the tree lost and the node \<open>x\<close> that
  moved up. A node with two children is replaced by the smallest node \<open>y\<close> of its right subtree.
\<close>

definition replaceBy :: "uintptr \<Rightarrow> uintptr \<Rightarrow> uintptr \<times> entries \<Rightarrow> (uintptr \<times> entries) option" where
  "replaceBy z y rN = do {
     (rt, N) \<leftarrow> transplant z y rN;
     zn \<leftarrow> N z;
     N \<leftarrow> upd y (lnk_left_update (\<lambda>_. lnk_left zn)) N;
     l \<leftarrow> Left y N;
     N \<leftarrow> upd l (lnk_parent_update (\<lambda>_. y)) N;
     zc \<leftarrow> get_color z N;
     N \<leftarrow> SetColor y zc N;
     Some (rt, N)
   }"

definition cutNode :: "uintptr \<Rightarrow> uintptr \<times> entries \<Rightarrow> (Color \<times> uintptr \<times> uintptr \<times> entries) option" where
  "cutNode z rN = do {
     zn \<leftarrow> snd rN z;
     (if lnk_left zn = 0
      then map_option (\<lambda>s. (color zn, lnk_right zn, s)) (transplant z (lnk_right zn) rN)
      else if lnk_right zn = 0
      then map_option (\<lambda>s. (color zn, lnk_left zn, s)) (transplant z (lnk_left zn) rN)
      else do {
        y \<leftarrow> getMinimum (snd rN) (lnk_right zn);
        yn \<leftarrow> snd rN y;
        s \<leftarrow> (if lnk_parent yn = z
              then map_option (\<lambda>N. (fst rN, N)) (set_parent (lnk_right yn) y (snd rN))
              else do {
                (rt, N) \<leftarrow> transplant y (lnk_right yn) rN;
                r \<leftarrow> Right z N;
                N \<leftarrow> upd y (lnk_right_update (\<lambda>_. r)) N;
                N \<leftarrow> upd r (lnk_parent_update (\<lambda>_. y)) N;
                Some (rt, N)
              });
        s \<leftarrow> replaceBy z y s;
        Some (color yn, lnk_right yn, s)
      })
   }"

definition Delete :: "uint8 list \<Rightarrow> Tree \<Rightarrow> (uintptr \<times> Tree) option" where
  "Delete key t = do {
     has \<leftarrow> Has (Bytes key) t;
     (if \<not> has then Some (0, t)
      else do {
        (_, z) \<leftarrow> getNode (Bytes key) t;
        (c, x, s) \<leftarrow> cutNode z (root t, nodes t);
        (rt, N) \<leftarrow> (if c = BLACK then fixupDelete x s else Some s);
        Some (z, t\<lparr>root := rt, nodes := N\<rparr>)
      })
   }"

subsection \<open>Visitors\<close>

definition Walk :: "(uintptr \<Rightarrow> entries \<Rightarrow> 'r) \<Rightarrow> Tree \<Rightarrow> 'r" where
  "Walk visit t = visit (root t) (nodes t)"

partial_function (option) countingVisit :: "uintptr \<Rightarrow> entries \<Rightarrow> uint64 \<Rightarrow> uint64 option" where
  [code]: "countingVisit node N n =
     (if node = 0 then Some n
      else Option.bind (N node) (\<lambda>e.
        Option.bind (countingVisit (lnk_left e) N n) (\<lambda>n. countingVisit (lnk_right e) N (n + 1))))"

definition Size :: "Tree \<Rightarrow> uint64 option" where
  "Size t = Walk (\<lambda>node N. countingVisit node N 0) t"

text \<open>The buffer of an \<open>InorderVisitor\<close> is the bytes written so far.\<close>

partial_function (option) inorderVisit :: "uintptr \<Rightarrow> entries \<Rightarrow> uint8 list \<Rightarrow> uint8 list option" where
  [code]: "inorderVisit node N buf =
     (if node = 0 then Some (buf @ [46])
      else Option.bind (N node) (\<lambda>e.
        Option.bind (inorderVisit (lnk_left e) N (buf @ [40])) (\<lambda>buf.
          Option.bind (inorderVisit (lnk_right e) N (buf @ Key e)) (\<lambda>buf. Some (buf @ [41])))))"

definition InorderVisitor_Eq :: "uint8 list \<Rightarrow> uint8 list option \<Rightarrow> bool" where
  "InorderVisitor_Eq v other = (case other of None \<Rightarrow> False | Some w \<Rightarrow> v = w)"

definition trimRight :: "string \<Rightarrow> string \<Rightarrow> string" where
  "trimRight s cutset = rev (dropWhile (\<lambda>c. c \<in> set cutset) (rev s))"

definition InorderVisitor_trim :: "string \<Rightarrow> string" where
  "InorderVisitor_trim s = trimRight (trimRight s ''ed'') ''lack''"

text \<open>A hook may change the nodes, and some state of its own.\<close>

partial_function (option) hookVisit ::
  "(uintptr \<Rightarrow> entries \<times> 's \<Rightarrow> (entries \<times> 's) option) \<Rightarrow> uintptr \<Rightarrow> entries \<times> 's \<Rightarrow> (entries \<times> 's) option" where
  [code]: "hookVisit hook node s =
     (if node = 0 then Some s
      else Option.bind (hook node s) (\<lambda>s.
        Option.bind (fst s node) (\<lambda>e.
          Option.bind (hookVisit hook (lnk_left e) s) (\<lambda>s.
            Option.bind (fst s node) (\<lambda>e. hookVisit hook (lnk_right e) s)))))"

end
