(* ===== verification/EntryShape.thy ===== *)
theory EntryShape
  imports Entry
begin

text \<open>
  The rotations of entry.go on linked trees: a rotation at a node of a tree that is linked in both
  directions leaves a linked tree with the same nodes in the same order. Red-black shapes, along
  a path as well, and their heights.
\<close>

subsection \<open>Links\<close>

lemma childSwap_ok:
  assumes "path_at N rt old c" and "old \<noteq> 0" and "old \<notin> path_nodes c" and "distinct (lefts c @ rights c)"
  shows "\<exists>rt' N'. childSwap (above c) old new (rt, N) = Some (rt', N') \<and> path_at N' rt' new c \<and>
    (\<forall>z. z \<notin> path_nodes c \<longrightarrow> N' z = N z) \<and> same_data N N'"
proof (cases "c = []")
  case True
  then show ?thesis using assms by (simp add: childSwap_def)
next
  case False
  from path_replace [OF assms(1,4) False, of new] obtain m where m: "N (above c) = Some m"
    and L: "\<forall>x r d. c = InLeft x r # d \<longrightarrow> lnk_left m = old \<and> path_at (N(above c \<mapsto> m\<lparr>lnk_left := new\<rparr>)) rt new c"
    and R: "\<forall>l x d. c = InRight l x # d \<longrightarrow> lnk_right m = old \<and> lnk_left m = root_of l \<and> path_at (N(above c \<mapsto> m\<lparr>lnk_right := new\<rparr>)) rt new c"
    by auto
  have up: "above c \<noteq> 0" "above c \<in> path_nodes c" using above_in [OF False] path_at_nonzero [OF assms(1)] by auto
  have sd: "same_data N (N(above c \<mapsto> m'))" if "link.more m' = link.more m" for m'
    using m that by (intro same_data_upd) auto
  show ?thesis
  proof (cases c rule: above.cases)
    case (2 x r d)
    then show ?thesis using L m up sd [of "m\<lparr>lnk_left := new\<rparr>"] by (auto simp: childSwap_def upd_Some)
  next
    case (3 l x d)
    then have "lnk_left m \<noteq> old" using R assms(2,3) by (cases l) auto
    then show ?thesis using R 3 m up sd [of "m\<lparr>lnk_right := new\<rparr>"] by (auto simp: childSwap_def upd_Some)
  qed (use False in simp)
qed

lemma linked_plug:
  "linked_tree (rt, N) (plug t c) \<longleftrightarrow>
     tree_at N (above c) (root_of t) t \<and> path_at N rt (root_of t) c \<and> distinct (lefts c @ inorder t @ rights c)"
  by (auto simp: linked_tree_def tree_at_plug inorder_plug)

lemma plug_disjoint: "distinct (lefts c @ inorder t @ rights c) \<Longrightarrow> set_tree t \<inter> path_nodes c = {}"
  using set_lefts_rights [of c] by auto

lemma RotateRight_ok:
  assumes "linked_tree (rt, N) (plug \<langle>\<langle>a, x, b\<rangle>, y, d\<rangle> c)"
  shows "\<exists>rt' N'. RotateRight y (rt, N) = Some (rt', N') \<and> linked_tree (rt', N') (plug \<langle>a, x, \<langle>b, y, d\<rangle>\<rangle> c) \<and>
    same_outside (set_tree (plug \<langle>\<langle>a, x, b\<rangle>, y, d\<rangle> c)) N N'"
proof -
  let ?t = "\<langle>\<langle>a, x, b\<rangle>, y, d\<rangle>"
  have T: "tree_at N (above c) y ?t" and P: "path_at N rt y c" and D: "distinct (lefts c @ inorder ?t @ rights c)"
    using assms unfolding linked_plug by simp_all
  have disj: "set_tree ?t \<inter> path_nodes c = {}" by (rule plug_disjoint [OF D])
  from T obtain yn xn where y: "N y = Some yn" "lnk_parent yn = above c" "lnk_left yn = x" "tree_at N y (lnk_right yn) d" "y \<noteq> 0"
    and x: "N x = Some xn" "x \<noteq> 0" "tree_at N x (lnk_left xn) a" "tree_at N x (lnk_right xn) b"
    by (auto split: option.splits)
  have n: "x \<noteq> y" "x \<notin> set_tree a \<union> set_tree b \<union> set_tree d" "y \<notin> set_tree a \<union> set_tree b \<union> set_tree d"
      "distinct (inorder b)" "set_tree b \<inter> set_tree a = {}" "set_tree b \<inter> set_tree d = {}"
    using D by auto
  define N1 where "N1 = N(y \<mapsto> yn\<lparr>lnk_left := lnk_right xn\<rparr>)"
  have "tree_at N1 x (lnk_right xn) b = tree_at N x (lnk_right xn) b" using n by (intro tree_at_cong) (auto simp: N1_def)
  with x(4) n(4) obtain N2 where N2: "set_parent (lnk_right xn) y N1 = Some N2" "tree_at N2 y (lnk_right xn) b"
    "\<forall>z. z \<notin> set_tree b \<longrightarrow> N2 z = N1 z" "same_data N1 N2" using set_parent_ok by metis
  have N2xy: "N2 x = Some xn" "N2 y = Some (yn\<lparr>lnk_left := lnk_right xn\<rparr>)" using N2(3) n x(1) by (auto simp: N1_def)
  define N3 where "N3 = N2(x \<mapsto> xn\<lparr>lnk_parent := above c\<rparr>)"
  have N3: "N3 z = N z" if "z \<notin> {x, y} \<union> set_tree b" for z using that N2(3) by (auto simp: N3_def N1_def)
  have "path_at N3 rt y c = path_at N rt y c" using disj by (intro path_at_cong N3) auto
  moreover have "y \<notin> path_nodes c" "distinct (lefts c @ rights c)" using disj D by auto
  ultimately obtain rt' N4 where N4: "childSwap (above c) y x (rt, N3) = Some (rt', N4)" "path_at N4 rt' x c"
    "\<forall>z. z \<notin> path_nodes c \<longrightarrow> N4 z = N3 z" "same_data N3 N4" using childSwap_ok [of N3 rt y c x] P y(5) by metis
  have N4xy: "N4 x = Some (xn\<lparr>lnk_parent := above c\<rparr>)" "N4 y = Some (yn\<lparr>lnk_left := lnk_right xn\<rparr>)"
    using N4(3) disj N2xy n(1) by (auto simp: N3_def)
  define N6 where "N6 = N4(x \<mapsto> xn\<lparr>lnk_parent := above c, lnk_right := y\<rparr>, y \<mapsto> yn\<lparr>lnk_left := lnk_right xn, lnk_parent := x\<rparr>)"
  have run: "RotateRight y (rt, N) = Some (rt', N6)"
    using y x n(1) N2xy N4xy by (simp add: RotateRight_def Let_def upd_def N1_def [symmetric] N2(1) N3_def [symmetric] N4(1) N6_def)
  have N6: "N6 z = N4 z" if "z \<notin> {x, y}" for z using that by (simp add: N6_def)
  have sub: "tree_at N6 q r t = tree_at N2 q r t" if "t \<in> {a, b, d}" for q r t
  proof (intro tree_at_cong)
    fix z assume "z \<in> set_tree t"
    then have "z \<in> set_tree a \<union> set_tree b \<union> set_tree d" using that by blast
    then have "z \<noteq> x" "z \<noteq> y" "z \<notin> path_nodes c" using n(2,3) disj by auto
    then show "N6 z = N2 z" using N4(3) by (simp add: N6_def N3_def)
  qed
  have "tree_at N2 x (lnk_left xn) a = tree_at N x (lnk_left xn) a" "tree_at N2 y (lnk_right yn) d = tree_at N y (lnk_right yn) d"
    using n N2(3) by (intro tree_at_cong; auto simp: N1_def)+
  then have "tree_at N6 (above c) x \<langle>a, x, \<langle>b, y, d\<rangle>\<rangle>"
    using x y n(1) N2(2) sub [of a] sub [of b] sub [of d] by (simp add: N6_def [THEN fun_cong])
  moreover have "path_at N6 rt' x c = path_at N4 rt' x c" using disj by (intro path_at_cong N6) auto
  ultimately have "linked_tree (rt', N6) (plug \<langle>a, x, \<langle>b, y, d\<rangle>\<rangle> c)" using N4(2) D unfolding linked_plug by simp
  moreover have "same_data N N6"
  proof -
    have "same_data N N2" using same_data_trans [OF _ N2(4), of N] y(1) by (simp add: N1_def same_data_upd)
    then have "same_data N N3" unfolding N3_def using N2xy(1) by (intro same_data_upd) auto
    then have "same_data N N4" using N4(4) same_data_trans by blast
    moreover have "same_data N4 N6" using N4xy n(1) by (simp add: same_data_def N6_def)
    ultimately show ?thesis using same_data_trans by blast
  qed
  moreover have "N6 z = N z" if "z \<notin> set_tree (plug ?t c)" for z
    using that N4(3) N3 [of z] N6 [of z] by (auto simp: set_plug)
  ultimately show ?thesis using run unfolding same_outside_def by blast
qed

lemma RotateLeft_ok:
  assumes "linked_tree (rt, N) (plug \<langle>d, y, \<langle>b, x, a\<rangle>\<rangle> c)"
  shows "\<exists>rt' N'. RotateLeft y (rt, N) = Some (rt', N') \<and> linked_tree (rt', N') (plug \<langle>\<langle>d, y, b\<rangle>, x, a\<rangle> c) \<and>
    same_outside (set_tree (plug \<langle>d, y, \<langle>b, x, a\<rangle>\<rangle> c)) N N'"
proof -
  let ?t = "\<langle>d, y, \<langle>b, x, a\<rangle>\<rangle>"
  have T: "tree_at N (above c) y ?t" and P: "path_at N rt y c" and D: "distinct (lefts c @ inorder ?t @ rights c)"
    using assms unfolding linked_plug by simp_all
  have disj: "set_tree ?t \<inter> path_nodes c = {}" by (rule plug_disjoint [OF D])
  from T obtain yn xn where y: "N y = Some yn" "lnk_parent yn = above c" "lnk_right yn = x" "tree_at N y (lnk_left yn) d" "y \<noteq> 0"
    and x: "N x = Some xn" "x \<noteq> 0" "tree_at N x (lnk_right xn) a" "tree_at N x (lnk_left xn) b"
    by (auto split: option.splits)
  have n: "x \<noteq> y" "x \<notin> set_tree a \<union> set_tree b \<union> set_tree d" "y \<notin> set_tree a \<union> set_tree b \<union> set_tree d"
      "distinct (inorder b)" "set_tree b \<inter> set_tree a = {}" "set_tree b \<inter> set_tree d = {}"
    using D by auto
  define N1 where "N1 = N(y \<mapsto> yn\<lparr>lnk_right := lnk_left xn\<rparr>)"
  have "tree_at N1 x (lnk_left xn) b = tree_at N x (lnk_left xn) b" using n by (intro tree_at_cong) (auto simp: N1_def)
  with x(4) n(4) obtain N2 where N2: "set_parent (lnk_left xn) y N1 = Some N2" "tree_at N2 y (lnk_left xn) b"
    "\<forall>z. z \<notin> set_tree b \<longrightarrow> N2 z = N1 z" "same_data N1 N2" using set_parent_ok by metis
  have N2xy: "N2 x = Some xn" "N2 y = Some (yn\<lparr>lnk_right := lnk_left xn\<rparr>)" using N2(3) n x(1) by (auto simp: N1_def)
  define N3 where "N3 = N2(x \<mapsto> xn\<lparr>lnk_parent := above c\<rparr>)"
  have N3: "N3 z = N z" if "z \<notin> {x, y} \<union> set_tree b" for z using that N2(3) by (auto simp: N3_def N1_def)
  have "path_at N3 rt y c = path_at N rt y c" using disj by (intro path_at_cong N3) auto
  moreover have "y \<notin> path_nodes c" "distinct (lefts c @ rights c)" using disj D by auto
  ultimately obtain rt' N4 where N4: "childSwap (above c) y x (rt, N3) = Some (rt', N4)" "path_at N4 rt' x c"
    "\<forall>z. z \<notin> path_nodes c \<longrightarrow> N4 z = N3 z" "same_data N3 N4" using childSwap_ok [of N3 rt y c x] P y(5) by metis
  have N4xy: "N4 x = Some (xn\<lparr>lnk_parent := above c\<rparr>)" "N4 y = Some (yn\<lparr>lnk_right := lnk_left xn\<rparr>)"
    using N4(3) disj N2xy n(1) by (auto simp: N3_def)
  define N6 where "N6 = N4(x \<mapsto> xn\<lparr>lnk_parent := above c, lnk_left := y\<rparr>, y \<mapsto> yn\<lparr>lnk_right := lnk_left xn, lnk_parent := x\<rparr>)"
  have run: "RotateLeft y (rt, N) = Some (rt', N6)"
    using y x n(1) N2xy N4xy by (simp add: RotateLeft_def Let_def upd_def N1_def [symmetric] N2(1) N3_def [symmetric] N4(1) N6_def)
  have N6: "N6 z = N4 z" if "z \<notin> {x, y}" for z using that by (simp add: N6_def)
  have sub: "tree_at N6 q r t = tree_at N2 q r t" if "t \<in> {a, b, d}" for q r t
  proof (intro tree_at_cong)
    fix z assume "z \<in> set_tree t"
    then have "z \<in> set_tree a \<union> set_tree b \<union> set_tree d" using that by blast
    then have "z \<noteq> x" "z \<noteq> y" "z \<notin> path_nodes c" using n(2,3) disj by auto
    then show "N6 z = N2 z" using N4(3) by (simp add: N6_def N3_def)
  qed
  have "tree_at N2 x (lnk_right xn) a = tree_at N x (lnk_right xn) a" "tree_at N2 y (lnk_left yn) d = tree_at N y (lnk_left yn) d"
    using n N2(3) by (intro tree_at_cong; auto simp: N1_def)+
  then have "tree_at N6 (above c) x \<langle>\<langle>d, y, b\<rangle>, x, a\<rangle>"
    using x y n(1) N2(2) sub [of a] sub [of b] sub [of d] by (simp add: N6_def [THEN fun_cong])
  moreover have "path_at N6 rt' x c = path_at N4 rt' x c" using disj by (intro path_at_cong N6) auto
  ultimately have "linked_tree (rt', N6) (plug \<langle>\<langle>d, y, b\<rangle>, x, a\<rangle> c)" using N4(2) D unfolding linked_plug by simp
  moreover have "same_data N N6"
  proof -
    have "same_data N N2" using same_data_trans [OF _ N2(4), of N] y(1) by (simp add: N1_def same_data_upd)
    then have "same_data N N3" unfolding N3_def using N2xy(1) by (intro same_data_upd) auto
    then have "same_data N N4" using N4(4) same_data_trans by blast
    moreover have "same_data N4 N6" using N4xy n(1) by (simp add: same_data_def N6_def)
    ultimately show ?thesis using same_data_trans by blast
  qed
  moreover have "N6 z = N z" if "z \<notin> set_tree (plug ?t c)" for z
    using that N4(3) N3 [of z] N6 [of z] by (auto simp: set_plug)
  ultimately show ?thesis using run unfolding same_outside_def by blast
qed

subsection \<open>Red-black shapes\<close>

text \<open>\<open>rb C h t\<close>: no red node has a red child, and every way down passes \<open>h\<close> black nodes; \<open>C\<close> says what is red.\<close>

fun rb :: "(uintptr \<Rightarrow> bool) \<Rightarrow> nat \<Rightarrow> uintptr tree \<Rightarrow> bool" where
  "rb C h \<langle>\<rangle> = (h = 0)"
| "rb C h \<langle>l, x, r\<rangle> =
     (if C x then rb C h l \<and> rb C h r \<and> \<not> C (root_of l) \<and> \<not> C (root_of r)
      else 0 < h \<and> rb C (h - 1) l \<and> rb C (h - 1) r)"

text \<open>
  The same along a path whose hole has black height \<open>h\<close>; the color of the hole is not looked at,
  so a red node may hang under a red parent there, and only there.
\<close>

fun rb_path :: "(uintptr \<Rightarrow> bool) \<Rightarrow> nat \<Rightarrow> step list \<Rightarrow> bool" where
  "rb_path C h [] = True"
| "rb_path C h (InLeft x r # c) =
     (rb C h r \<and> (if C x then \<not> C (root_of r) \<and> c \<noteq> [] \<and> \<not> C (above c) \<and> rb_path C h c else rb_path C (Suc h) c))"
| "rb_path C h (InRight l x # c) =
     (rb C h l \<and> (if C x then \<not> C (root_of l) \<and> c \<noteq> [] \<and> \<not> C (above c) \<and> rb_path C h c else rb_path C (Suc h) c))"

definition is_red :: "entries \<Rightarrow> uintptr \<Rightarrow> bool" where
  "is_red N a \<longleftrightarrow> a \<noteq> 0 \<and> (\<exists>n. N a = Some n \<and> color n = RED)"

lemma is_red_0 [simp]: "\<not> is_red N 0"
  by (simp add: is_red_def)

lemma is_red_Some: "N a = Some n \<Longrightarrow> a \<noteq> 0 \<Longrightarrow> is_red N a \<longleftrightarrow> color n = RED"
  by (simp add: is_red_def)

lemma root_of_in: "root_of t \<in> set_tree t \<or> t = \<langle>\<rangle>"
  by (cases t) auto

lemma rb_cong: "(\<And>x. x \<in> set_tree t \<Longrightarrow> C' x = C x) \<Longrightarrow> C' 0 = C 0 \<Longrightarrow> rb C' h t = rb C h t"
proof (induction t arbitrary: h)
  case (Node l x r)
  have "C' (root_of s) = C (root_of s)" if "s = l \<or> s = r" for s using Node.prems that root_of_in [of s] by auto
  moreover have "rb C' h l = rb C h l" "rb C' h r = rb C h r" for h by (rule Node.IH; use Node.prems in auto)+
  ultimately show ?case using Node.prems by simp
qed simp

lemma rb_path_cong: "(\<And>x. x \<in> path_nodes c \<Longrightarrow> C' x = C x) \<Longrightarrow> C' 0 = C 0 \<Longrightarrow> rb_path C' h c = rb_path C h c"
proof (induction C h c rule: rb_path.induct)
  case (2 C h x r c)
  have "rb C' h r = rb C h r" "C' x = C x" "C' (root_of r) = C (root_of r)" "c \<noteq> [] \<Longrightarrow> C' (above c) = C (above c)"
    using 2(3,4) root_of_in [of r] above_in [of c] by (auto intro!: rb_cong)
  then show ?case using 2 by auto
next
  case (3 C h l x c)
  have "rb C' h l = rb C h l" "C' x = C x" "C' (root_of l) = C (root_of l)" "c \<noteq> [] \<Longrightarrow> C' (above c) = C (above c)"
    using 3(3,4) root_of_in [of l] above_in [of c] by (auto intro!: rb_cong)
  then show ?case using 3 by auto
qed simp

lemma rb_plug:
  assumes "rb C h t" and "rb_path C h c" and "C (root_of t) \<Longrightarrow> c = [] \<or> \<not> C (above c)"
  shows "\<exists>k. rb C k (plug t c)"
  using assms
proof (induction t c arbitrary: h rule: plug.induct)
  case (2 t x r c)
  show ?case unfolding plug.simps by (rule "2.IH" [of "if C x then h else Suc h"]; use 2(2-4) in \<open>auto split: if_splits\<close>)
next
  case (3 t l x c)
  show ?case unfolding plug.simps by (rule "3.IH" [of "if C x then h else Suc h"]; use 3(2-4) in \<open>auto split: if_splits\<close>)
qed auto

lemma rb_unplug:
  assumes "rb C k (plug t c)" and "\<not> C (root_of (plug t c))" and "\<not> C 0"
  shows "\<exists>h. rb C h t \<and> rb_path C h c \<and> (C (root_of t) \<longrightarrow> c \<noteq> [] \<and> \<not> C (above c))"
  using assms
proof (induction t c rule: plug.induct)
  case (2 t x r c)
  then obtain h where h: "rb C h \<langle>t, x, r\<rangle>" "rb_path C h c" "C x \<longrightarrow> c \<noteq> [] \<and> \<not> C (above c)" by auto
  then show ?case by (cases "C x") auto
next
  case (3 t l x c)
  then obtain h where h: "rb C h \<langle>l, x, t\<rangle>" "rb_path C h c" "C x \<longrightarrow> c \<noteq> [] \<and> \<not> C (above c)" by auto
  then show ?case by (cases "C x") auto
qed auto

text \<open>Painting a node changes nothing where it does not occur.\<close>

lemma root_neq: "a \<notin> set_tree t \<Longrightarrow> a \<noteq> 0 \<Longrightarrow> root_of t \<noteq> a"
  using root_of_in [of t] by auto

lemma rb_upd: "a \<notin> set_tree t \<Longrightarrow> a \<noteq> 0 \<Longrightarrow> rb (C(a := b)) h t = rb C h t"
  by (rule rb_cong) auto

lemma rb_path_upd: "a \<notin> set (lefts c) \<Longrightarrow> a \<notin> set (rights c) \<Longrightarrow> a \<noteq> 0 \<Longrightarrow> rb_path (C(a := b)) h c = rb_path C h c"
  using set_lefts_rights [of c] by (intro rb_path_cong) auto

lemma above_neq: "a \<notin> set (lefts c) \<Longrightarrow> a \<notin> set (rights c) \<Longrightarrow> a \<noteq> 0 \<Longrightarrow> above c \<noteq> a"
  using above_in [of c] set_lefts_rights [of c] by (cases "c = []") auto

lemmas paint_simps = root_neq rb_upd rb_path_upd above_neq

text \<open>Painting the root black.\<close>

lemma rb_black_root: "rb C k t \<Longrightarrow> distinct (inorder t) \<Longrightarrow> \<not> C 0 \<Longrightarrow>
  \<exists>k'. rb (C(root_of t := False)) k' t"
proof (cases t)
  case (Node l x r)
  assume t: "rb C k t" "distinct (inorder t)" "\<not> C 0"
  have c: "rb (C(x := False)) h s = rb C h s" if "s = l \<or> s = r" for h s
    using that t Node by (intro rb_cong) auto
  show ?thesis using t c Node by (cases "C x") (auto intro: exI [of _ "Suc k"] exI [of _ k])
qed auto

text \<open>A red-black tree of height \<open>h\<close> is at most twice as high, and holds at least \<open>2 ^ h - 1\<close> nodes.\<close>

lemma rb_height: "rb C h t \<Longrightarrow> height t \<le> 2 * h + (if C (root_of t) then 1 else 0)"
  by (induction C h t rule: rb.induct) (fastforce split: if_splits)+

lemma rb_size: "rb C h t \<Longrightarrow> 2 ^ h \<le> size1 t"
proof (induction C h t rule: rb.induct)
  case (2 C h l x r)
  show ?case
  proof (cases "C x")
    case False
    then obtain k where "h = Suc k" using 2(5) by (cases h) auto
    then show ?thesis using 2 False by simp
  qed (use 2 in simp)
qed simp

end
