(* ===== verification/EntryPut.thy ===== *)
theory EntryPut
  imports EntryShape
begin

text \<open>
  The rounds of \<open>fixupPut\<close>, and the loop: a red node hung into a red-black tree ends in a red-black
  tree of the same nodes in the same order. The lemmas come in pairs, for a parent that is the left
  and the right child.
\<close>

subsection \<open>Nodes of a tree, and painting them\<close>

definition entry_data :: "NodeEntry \<Rightarrow> uint8 list \<times> uint8 list \<times> uint64 \<times> uintptr" where
  "entry_data n = (Key n, Value n, Hash n, Next n)"

text \<open>Only links and colors of nodes in \<open>A\<close> change.\<close>

definition kept :: "uintptr set \<Rightarrow> entries \<Rightarrow> entries \<Rightarrow> bool" where
  "kept A N N' \<longleftrightarrow> (\<forall>z. z \<notin> A \<longrightarrow> N' z = N z) \<and> (\<forall>z. map_option entry_data (N' z) = map_option entry_data (N z))"

lemma kept_refl [simp]: "kept A N N"
  by (simp add: kept_def)

lemma kept_trans: "kept A N N' \<Longrightarrow> kept A N' N'' \<Longrightarrow> kept A N N''"
  by (simp add: kept_def)

lemma link_more_entry: "link.more n = link.more m \<Longrightarrow> entry_data n = entry_data m \<and> color n = color m"
  by (cases n; cases m) (simp add: entry_data_def)

lemma same_data_entry:
  assumes "same_data N N'"
  shows "map_option entry_data (N' z) = map_option entry_data (N z) \<and> is_red N' z = is_red N z"
proof (cases "N z")
  case None
  then have "N' z = None" using assms unfolding same_data_def by (metis map_option_is_None)
  then show ?thesis using None by (simp add: is_red_def)
next
  case (Some n)
  then obtain m where "N' z = Some m" "link.more m = link.more n"
    using assms unfolding same_data_def by (metis (no_types) map_option_eq_Some)
  then show ?thesis using Some link_more_entry [of m n] by (simp add: is_red_def)
qed

lemma same_outside_kept: "same_outside A N N' \<Longrightarrow> kept A N N' \<and> is_red N' = is_red N"
  using same_data_entry [of N N'] by (auto simp: same_outside_def kept_def)

lemma linked_node:
  assumes "linked_tree (rt, N) (plug \<langle>l, x, r\<rangle> c)"
  shows "\<exists>n. N x = Some n \<and> lnk_left n = root_of l \<and> lnk_right n = root_of r \<and> lnk_parent n = above c \<and>
    color n = (\<not> is_red N x) \<and> x \<noteq> 0"
  using assms unfolding linked_plug by (auto simp: is_red_def split: option.splits dest: tree_at_root)

lemma linked_access:
  assumes "linked_tree (rt, N) (plug \<langle>l, x, r\<rangle> c)"
  shows "Parent x N = Some (above c)" and "Left x N = Some (root_of l)" and "Right x N = Some (root_of r)"
    and "get_color x N = Some (\<not> is_red N x)" and "isRed N x = Some (is_red N x)" and "x \<noteq> 0"
  using linked_node [OF assms] by (auto simp: Parent_def Left_def Right_def get_color_def isRed_def)

lemma isRed_linked: "tree_at N q a t \<Longrightarrow> isRed N a = Some (is_red N a)"
  by (cases t) (auto simp: isRed_def is_red_def split: option.splits)

lemma linked_sub: "linked_tree (rt, N) (plug t c) \<Longrightarrow> isRed N (root_of t) = Some (is_red N (root_of t))"
  unfolding linked_plug using isRed_linked by blast

lemma tree_at_links:
  "(\<And>x. x \<in> set_tree t \<Longrightarrow> map_option (\<lambda>n. (lnk_left n, lnk_right n, lnk_parent n)) (N' x) =
     map_option (\<lambda>n. (lnk_left n, lnk_right n, lnk_parent n)) (N x)) \<Longrightarrow> tree_at N' q a t = tree_at N q a t"
proof (induction t arbitrary: q a)
  case (Node l x r)
  have "tree_at N' q a l = tree_at N q a l" "tree_at N' q a r = tree_at N q a r" for q a
    by (rule Node.IH; use Node.prems in simp)+
  moreover have "map_option (\<lambda>n. (lnk_left n, lnk_right n, lnk_parent n)) (N' x) =
     map_option (\<lambda>n. (lnk_left n, lnk_right n, lnk_parent n)) (N x)" using Node.prems by simp
  ultimately show ?case by (cases "N x"; cases "N' x") auto
qed simp

lemma SetColor_ok:
  assumes "linked_tree (rt, N) T" and "a \<in> set_tree T"
  shows "\<exists>N'. SetColor a b N = Some N' \<and> linked_tree (rt, N') T \<and> is_red N' = (is_red N)(a := \<not> b) \<and> kept (set_tree T) N N'"
proof -
  have t: "tree_at N 0 rt T" using assms(1) by (simp add: linked_tree_def)
  then obtain n where n: "N a = Some n" using tree_at_dom assms(2) by blast
  have "a \<noteq> 0" using tree_at_nonzero [OF t] assms(2) by auto
  let ?N = "N(a \<mapsto> n\<lparr>color := b\<rparr>)"
  have "tree_at ?N 0 rt T = tree_at N 0 rt T" using n by (intro tree_at_links) auto
  then have "linked_tree (rt, ?N) T" using assms(1) by (simp add: linked_tree_def)
  moreover have "is_red ?N = (is_red N)(a := \<not> b)" using \<open>a \<noteq> 0\<close> by (auto simp: is_red_def fun_eq_iff)
  moreover have "kept (set_tree T) N ?N" using n assms(2) by (auto simp: kept_def entry_data_def)
  ultimately show ?thesis using n by (simp add: SetColor_def upd_Some)
qed

subsection \<open>Rounds of the repair\<close>

lemma round_recolor:
  assumes T: "linked_tree (rt, N) T" "T = plug \<langle>l, z, r\<rangle> c" "above c = p" "{p, y, g} \<subseteq> set_tree T" "distinct [p, y, g]"
  shows "\<exists>N'. recolorUp z y g (rt, N) = Some (g, rt, N') \<and> linked_tree (rt, N') T \<and>
    is_red N' = (is_red N)(p := False, y := False, g := True) \<and> kept (set_tree T) N N'"
proof -
  obtain N1 where N1: "SetColor p BLACK N = Some N1" "linked_tree (rt, N1) T" "is_red N1 = (is_red N)(p := False)" "kept (set_tree T) N N1"
    using SetColor_ok [OF T(1), of p BLACK] T(4) by auto
  obtain N2 where N2: "SetColor y BLACK N1 = Some N2" "linked_tree (rt, N2) T" "is_red N2 = (is_red N1)(y := False)" "kept (set_tree T) N1 N2"
    using SetColor_ok [OF N1(2), of y BLACK] T(4) by auto
  obtain N3 where N3: "SetColor g RED N2 = Some N3" "linked_tree (rt, N3) T" "is_red N3 = (is_red N2)(g := True)" "kept (set_tree T) N2 N3"
    using SetColor_ok [OF N2(2), of g RED] T(4) by auto
  have "Parent z N = Some p" using linked_access(1) T by metis
  moreover have "kept (set_tree T) N N3" by (rule kept_trans [OF kept_trans [OF N1(4) N2(4)] N3(4)])
  ultimately show ?thesis using N1(1,3) N2(1,3) N3(1-3) by (simp add: recolorUp_def)
qed

text \<open>A red uncle: recolor, and go on at the grandparent.\<close>

lemma round_red_left:
  assumes T: "linked_tree (rt, N) (plug \<langle>l, z, r\<rangle> (st # InLeft g \<langle>ul, y, ur\<rangle> # c))" and y: "is_red N y"
  shows "\<exists>N'. putFixRound z (rt, N) = Some (g, rt, N') \<and> linked_tree (rt, N') (plug \<langle>l, z, r\<rangle> (st # InLeft g \<langle>ul, y, ur\<rangle> # c)) \<and>
    is_red N' = (is_red N)(above [st] := False, y := False, g := True) \<and>
    kept (set_tree (plug \<langle>l, z, r\<rangle> (st # InLeft g \<langle>ul, y, ur\<rangle> # c))) N N'"
proof -
  define p where "p = above [st]"
  let ?pt = "plug \<langle>l, z, r\<rangle> [st]"
  have pt: "root_of ?pt = p" "\<exists>pl pr. ?pt = \<langle>pl, p, pr\<rangle>" by (cases st; simp add: p_def)+
  have T': "linked_tree (rt, N) (plug ?pt (InLeft g \<langle>ul, y, ur\<rangle> # c))" using T by (cases st) simp_all
  then have G: "linked_tree (rt, N) (plug \<langle>?pt, g, \<langle>ul, y, ur\<rangle>\<rangle> c)" by simp
  obtain gn where gn: "N g = Some gn" "lnk_left gn = p" "lnk_right gn = y" using linked_node [OF G] pt(1) by auto
  have ap: "above (st # InLeft g \<langle>ul, y, ur\<rangle> # c) = p" by (cases st) (simp_all add: p_def)
  then have z: "Parent z N = Some p" using linked_access(1) [OF T] by metis
  have pg: "Parent p N = Some g" using linked_access(1) [where c = "InLeft g \<langle>ul, y, ur\<rangle> # c"] T' pt(2) by (metis above.simps(2))
  have "linked_tree (rt, N) (plug \<langle>ul, y, ur\<rangle> (InRight ?pt g # c))" using G by simp
  from linked_access(5) [OF this] have ry: "isRed N y = Some True" using y by simp
  have d: "distinct [p, y, g]" "{p, y, g} \<subseteq> set_tree (plug \<langle>l, z, r\<rangle> (st # InLeft g \<langle>ul, y, ur\<rangle> # c))"
    using T by (cases st; auto simp: linked_plug set_plug p_def)+
  from round_recolor [OF T refl ap d(2,1)] show ?thesis
    using z pg gn ry d(1) by (simp add: putFixRound_def putFixLeft_def p_def)
qed

text \<open>A black uncle, and the new node on the outer side: one rotation.\<close>

lemma round_outer_left:
  assumes T: "linked_tree (rt, N) (plug \<langle>l, z, r\<rangle> (InLeft p s # InLeft g u # c))" and u: "\<not> is_red N (root_of u)"
  shows "\<exists>rt' N'. putFixRound z (rt, N) = Some (z, rt', N') \<and>
    linked_tree (rt', N') (plug \<langle>\<langle>l, z, r\<rangle>, p, \<langle>s, g, u\<rangle>\<rangle> c) \<and> is_red N' = (is_red N)(p := False, g := True) \<and>
    kept (set_tree (plug \<langle>l, z, r\<rangle> (InLeft p s # InLeft g u # c))) N N'"
proof -
  define T where "T = plug \<langle>l, z, r\<rangle> (InLeft p s # InLeft g u # c)"
  have P: "linked_tree (rt, N) (plug \<langle>\<langle>l, z, r\<rangle>, p, s\<rangle> (InLeft g u # c))"
    and G: "linked_tree (rt, N) (plug \<langle>\<langle>\<langle>l, z, r\<rangle>, p, s\<rangle>, g, u\<rangle> c)"
    and U: "linked_tree (rt, N) (plug u (InRight \<langle>\<langle>l, z, r\<rangle>, p, s\<rangle> g # c))"
    and TN: "linked_tree (rt, N) T" using T by (simp_all add: T_def)
  obtain gn where gn: "N g = Some gn" "lnk_left gn = p" "lnk_right gn = root_of u" using linked_node [OF G] by auto
  have acc: "Parent z N = Some p" "Parent p N = Some g" "Right p N = Some (root_of s)" "isRed N (root_of u) = Some False"
    using linked_access [OF T] linked_access [OF P] linked_sub [OF U] u by simp_all
  have pu: "p \<noteq> root_of u" using T linked_access(6) [OF P] by (cases u) (auto simp: linked_plug)
  have mem: "p \<in> set_tree T" "g \<in> set_tree T" by (simp_all add: T_def set_plug)
  have zs: "z \<noteq> root_of s" using T linked_access(6) [OF T] by (cases s) (auto simp: linked_plug)
  obtain N1 where N1: "SetColor p BLACK N = Some N1" "linked_tree (rt, N1) T" "is_red N1 = (is_red N)(p := False)" "kept (set_tree T) N N1"
    using SetColor_ok [OF TN mem(1), of BLACK] by auto
  obtain N2 where N2: "SetColor g RED N1 = Some N2" "linked_tree (rt, N2) T" "is_red N2 = (is_red N1)(g := True)" "kept (set_tree T) N1 N2"
    using SetColor_ok [OF N1(2) mem(2), of RED] by auto
  have "linked_tree (rt, N2) (plug \<langle>\<langle>\<langle>l, z, r\<rangle>, p, s\<rangle>, g, u\<rangle> c)" using N2(2) by (simp add: T_def)
  from RotateRight_ok [OF this] obtain rt' N3 where R: "RotateRight g (rt, N2) = Some (rt', N3)"
    "linked_tree (rt', N3) (plug \<langle>\<langle>l, z, r\<rangle>, p, \<langle>s, g, u\<rangle>\<rangle> c)" "same_outside (set_tree T) N2 N3" by (auto simp: T_def)
  have "kept (set_tree T) N N3" "is_red N3 = (is_red N)(p := False, g := True)"
    using same_outside_kept [OF R(3)] kept_trans [OF N1(4) N2(4)] N1(3) N2(3) kept_trans by auto
  moreover have "putFixRound z (rt, N) = Some (z, rt', N3)"
    using acc pu gn zs N1(1) N2(1) R(1) by (simp add: putFixRound_def putFixLeft_def)
  ultimately show ?thesis using R(2) by (auto simp: T_def)
qed

text \<open>The new node on the inner side: a rotation to the outer side, and then the same.\<close>

lemma round_inner_left:
  assumes T: "linked_tree (rt, N) (plug \<langle>l, z, r\<rangle> (InRight s p # InLeft g u # c))" and u: "\<not> is_red N (root_of u)"
  shows "\<exists>rt' N'. putFixRound z (rt, N) = Some (p, rt', N') \<and>
    linked_tree (rt', N') (plug \<langle>\<langle>s, p, l\<rangle>, z, \<langle>r, g, u\<rangle>\<rangle> c) \<and> is_red N' = (is_red N)(z := False, g := True) \<and>
    kept (set_tree (plug \<langle>l, z, r\<rangle> (InRight s p # InLeft g u # c))) N N'"
proof -
  define T where "T = plug \<langle>l, z, r\<rangle> (InRight s p # InLeft g u # c)"
  have P: "linked_tree (rt, N) (plug \<langle>s, p, \<langle>l, z, r\<rangle>\<rangle> (InLeft g u # c))"
    and G: "linked_tree (rt, N) (plug \<langle>\<langle>s, p, \<langle>l, z, r\<rangle>\<rangle>, g, u\<rangle> c)"
    and U: "linked_tree (rt, N) (plug u (InRight \<langle>s, p, \<langle>l, z, r\<rangle>\<rangle> g # c))" using T by simp_all
  obtain gn where gn: "N g = Some gn" "lnk_left gn = p" "lnk_right gn = root_of u" using linked_node [OF G] by auto
  have acc: "Parent z N = Some p" "Parent p N = Some g" "Right p N = Some z" "isRed N (root_of u) = Some False"
    using linked_access [OF T] linked_access [OF P] linked_sub [OF U] u by simp_all
  have pu: "p \<noteq> root_of u" using T linked_access(6) [OF P] by (cases u) (auto simp: linked_plug)
  from RotateLeft_ok [OF P] obtain rt0 N0 where R0: "RotateLeft p (rt, N) = Some (rt0, N0)"
    "linked_tree (rt0, N0) (plug \<langle>\<langle>s, p, l\<rangle>, z, r\<rangle> (InLeft g u # c))" "same_outside (set_tree T) N N0" by (auto simp: T_def)
  define T0 where "T0 = plug \<langle>\<langle>s, p, l\<rangle>, z, r\<rangle> (InLeft g u # c)"
  have st: "set_tree T0 = set_tree T" by (auto simp: T0_def T_def set_plug)
  have L0: "linked_tree (rt0, N0) T0" "linked_tree (rt0, N0) (plug \<langle>s, p, l\<rangle> (InLeft z r # InLeft g u # c))" using R0(2) by (simp_all add: T0_def)
  have pz: "Parent p N0 = Some z" using linked_access(1) [OF L0(2)] by simp
  have mem: "z \<in> set_tree T0" "g \<in> set_tree T0" by (simp_all add: T0_def set_plug)
  obtain N1 where N1: "SetColor z BLACK N0 = Some N1" "linked_tree (rt0, N1) T0" "is_red N1 = (is_red N0)(z := False)" "kept (set_tree T0) N0 N1"
    using SetColor_ok [OF L0(1) mem(1), of BLACK] by auto
  obtain N2 where N2: "SetColor g RED N1 = Some N2" "linked_tree (rt0, N2) T0" "is_red N2 = (is_red N1)(g := True)" "kept (set_tree T0) N1 N2"
    using SetColor_ok [OF N1(2) mem(2), of RED] by auto
  have "linked_tree (rt0, N2) (plug \<langle>\<langle>\<langle>s, p, l\<rangle>, z, r\<rangle>, g, u\<rangle> c)" using N2(2) by (simp add: T0_def)
  from RotateRight_ok [OF this] obtain rt' N3 where R: "RotateRight g (rt0, N2) = Some (rt', N3)"
    "linked_tree (rt', N3) (plug \<langle>\<langle>s, p, l\<rangle>, z, \<langle>r, g, u\<rangle>\<rangle> c)" "same_outside (set_tree T0) N2 N3" by (auto simp: T0_def)
  have k: "kept (set_tree T) N N0" "is_red N0 = is_red N" "kept (set_tree T) N0 N2" "kept (set_tree T) N2 N3" "is_red N3 = is_red N2"
    using same_outside_kept [OF R0(3)] same_outside_kept [OF R(3)] kept_trans [OF N1(4) N2(4)] by (simp_all add: st)
  have "kept (set_tree T) N N3" by (rule kept_trans [OF kept_trans [OF k(1,3)] k(4)])
  moreover have "is_red N3 = (is_red N)(z := False, g := True)" by (simp add: k(2,5) N1(3) N2(3))
  moreover have "putFixRound z (rt, N) = Some (p, rt', N3)"
    using acc pu gn R0(1) pz N1(1) N2(1) R(1) by (simp add: putFixRound_def putFixLeft_def)
  ultimately show ?thesis using R(2) by (auto simp: T_def)
qed

text \<open>The mirror images.\<close>

lemma round_red_right:
  assumes T: "linked_tree (rt, N) (plug \<langle>r, z, l\<rangle> (st # InRight \<langle>ur, y, ul\<rangle> g # c))" and y: "is_red N y"
  shows "\<exists>N'. putFixRound z (rt, N) = Some (g, rt, N') \<and> linked_tree (rt, N') (plug \<langle>r, z, l\<rangle> (st # InRight \<langle>ur, y, ul\<rangle> g # c)) \<and>
    is_red N' = (is_red N)(above [st] := False, y := False, g := True) \<and>
    kept (set_tree (plug \<langle>r, z, l\<rangle> (st # InRight \<langle>ur, y, ul\<rangle> g # c))) N N'"
proof -
  define p where "p = above [st]"
  let ?pt = "plug \<langle>r, z, l\<rangle> [st]"
  have pt: "root_of ?pt = p" "\<exists>pl pr. ?pt = \<langle>pr, p, pl\<rangle>" by (cases st; simp add: p_def)+
  have T': "linked_tree (rt, N) (plug ?pt (InRight \<langle>ur, y, ul\<rangle> g # c))" using T by (cases st) simp_all
  then have G: "linked_tree (rt, N) (plug \<langle>\<langle>ur, y, ul\<rangle>, g, ?pt\<rangle> c)" by simp
  obtain gn where gn: "N g = Some gn" "lnk_right gn = p" "lnk_left gn = y" using linked_node [OF G] pt(1) by auto
  have ap: "above (st # InRight \<langle>ur, y, ul\<rangle> g # c) = p" by (cases st) (simp_all add: p_def)
  then have z: "Parent z N = Some p" using linked_access(1) [OF T] by metis
  have pg: "Parent p N = Some g" using linked_access(1) [where c = "InRight \<langle>ur, y, ul\<rangle> g # c"] T' pt(2) by (metis above.simps(3))
  have "linked_tree (rt, N) (plug \<langle>ur, y, ul\<rangle> (InLeft g ?pt # c))" using G by simp
  from linked_access(5) [OF this] have ry: "isRed N y = Some True" using y by simp
  have d: "distinct [p, y, g]" "{p, y, g} \<subseteq> set_tree (plug \<langle>r, z, l\<rangle> (st # InRight \<langle>ur, y, ul\<rangle> g # c))"
    using T by (cases st; auto simp: linked_plug set_plug p_def)+
  from round_recolor [OF T refl ap d(2,1)] show ?thesis
    using z pg gn ry d(1) by (simp add: putFixRound_def putFixRight_def p_def)
qed

lemma round_outer_right:
  assumes T: "linked_tree (rt, N) (plug \<langle>r, z, l\<rangle> (InRight s p # InRight u g # c))" and u: "\<not> is_red N (root_of u)"
  shows "\<exists>rt' N'. putFixRound z (rt, N) = Some (z, rt', N') \<and>
    linked_tree (rt', N') (plug \<langle>\<langle>u, g, s\<rangle>, p, \<langle>r, z, l\<rangle>\<rangle> c) \<and> is_red N' = (is_red N)(p := False, g := True) \<and>
    kept (set_tree (plug \<langle>r, z, l\<rangle> (InRight s p # InRight u g # c))) N N'"
proof -
  define T where "T = plug \<langle>r, z, l\<rangle> (InRight s p # InRight u g # c)"
  have P: "linked_tree (rt, N) (plug \<langle>s, p, \<langle>r, z, l\<rangle>\<rangle> (InRight u g # c))"
    and G: "linked_tree (rt, N) (plug \<langle>u, g, \<langle>s, p, \<langle>r, z, l\<rangle>\<rangle>\<rangle> c)"
    and U: "linked_tree (rt, N) (plug u (InLeft g \<langle>s, p, \<langle>r, z, l\<rangle>\<rangle> # c))"
    and TN: "linked_tree (rt, N) T" using T by (simp_all add: T_def)
  obtain gn where gn: "N g = Some gn" "lnk_right gn = p" "lnk_left gn = root_of u" using linked_node [OF G] by auto
  have acc: "Parent z N = Some p" "Parent p N = Some g" "Left p N = Some (root_of s)" "isRed N (root_of u) = Some False"
    using linked_access [OF T] linked_access [OF P] linked_sub [OF U] u by simp_all
  have pu: "p \<noteq> root_of u" using T linked_access(6) [OF P] by (cases u) (auto simp: linked_plug)
  have mem: "p \<in> set_tree T" "g \<in> set_tree T" by (simp_all add: T_def set_plug)
  have zs: "z \<noteq> root_of s" using T linked_access(6) [OF T] by (cases s) (auto simp: linked_plug)
  obtain N1 where N1: "SetColor p BLACK N = Some N1" "linked_tree (rt, N1) T" "is_red N1 = (is_red N)(p := False)" "kept (set_tree T) N N1"
    using SetColor_ok [OF TN mem(1), of BLACK] by auto
  obtain N2 where N2: "SetColor g RED N1 = Some N2" "linked_tree (rt, N2) T" "is_red N2 = (is_red N1)(g := True)" "kept (set_tree T) N1 N2"
    using SetColor_ok [OF N1(2) mem(2), of RED] by auto
  have "linked_tree (rt, N2) (plug \<langle>u, g, \<langle>s, p, \<langle>r, z, l\<rangle>\<rangle>\<rangle> c)" using N2(2) by (simp add: T_def)
  from RotateLeft_ok [OF this] obtain rt' N3 where R: "RotateLeft g (rt, N2) = Some (rt', N3)"
    "linked_tree (rt', N3) (plug \<langle>\<langle>u, g, s\<rangle>, p, \<langle>r, z, l\<rangle>\<rangle> c)" "same_outside (set_tree T) N2 N3" by (auto simp: T_def)
  have "kept (set_tree T) N N3" "is_red N3 = (is_red N)(p := False, g := True)"
    using same_outside_kept [OF R(3)] kept_trans [OF N1(4) N2(4)] N1(3) N2(3) kept_trans by auto
  moreover have "putFixRound z (rt, N) = Some (z, rt', N3)"
    using acc pu gn zs N1(1) N2(1) R(1) by (simp add: putFixRound_def putFixRight_def)
  ultimately show ?thesis using R(2) by (auto simp: T_def)
qed

lemma round_inner_right:
  assumes T: "linked_tree (rt, N) (plug \<langle>r, z, l\<rangle> (InLeft p s # InRight u g # c))" and u: "\<not> is_red N (root_of u)"
  shows "\<exists>rt' N'. putFixRound z (rt, N) = Some (p, rt', N') \<and>
    linked_tree (rt', N') (plug \<langle>\<langle>u, g, r\<rangle>, z, \<langle>l, p, s\<rangle>\<rangle> c) \<and> is_red N' = (is_red N)(z := False, g := True) \<and>
    kept (set_tree (plug \<langle>r, z, l\<rangle> (InLeft p s # InRight u g # c))) N N'"
proof -
  define T where "T = plug \<langle>r, z, l\<rangle> (InLeft p s # InRight u g # c)"
  have P: "linked_tree (rt, N) (plug \<langle>\<langle>r, z, l\<rangle>, p, s\<rangle> (InRight u g # c))"
    and G: "linked_tree (rt, N) (plug \<langle>u, g, \<langle>\<langle>r, z, l\<rangle>, p, s\<rangle>\<rangle> c)"
    and U: "linked_tree (rt, N) (plug u (InLeft g \<langle>\<langle>r, z, l\<rangle>, p, s\<rangle> # c))" using T by simp_all
  obtain gn where gn: "N g = Some gn" "lnk_right gn = p" "lnk_left gn = root_of u" using linked_node [OF G] by auto
  have acc: "Parent z N = Some p" "Parent p N = Some g" "Left p N = Some z" "isRed N (root_of u) = Some False"
    using linked_access [OF T] linked_access [OF P] linked_sub [OF U] u by simp_all
  have pu: "p \<noteq> root_of u" using T linked_access(6) [OF P] by (cases u) (auto simp: linked_plug)
  from RotateRight_ok [OF P] obtain rt0 N0 where R0: "RotateRight p (rt, N) = Some (rt0, N0)"
    "linked_tree (rt0, N0) (plug \<langle>r, z, \<langle>l, p, s\<rangle>\<rangle> (InRight u g # c))" "same_outside (set_tree T) N N0" by (auto simp: T_def)
  define T0 where "T0 = plug \<langle>r, z, \<langle>l, p, s\<rangle>\<rangle> (InRight u g # c)"
  have st: "set_tree T0 = set_tree T" by (auto simp: T0_def T_def set_plug)
  have L0: "linked_tree (rt0, N0) T0" "linked_tree (rt0, N0) (plug \<langle>l, p, s\<rangle> (InRight r z # InRight u g # c))" using R0(2) by (simp_all add: T0_def)
  have pz: "Parent p N0 = Some z" using linked_access(1) [OF L0(2)] by simp
  have mem: "z \<in> set_tree T0" "g \<in> set_tree T0" by (simp_all add: T0_def set_plug)
  obtain N1 where N1: "SetColor z BLACK N0 = Some N1" "linked_tree (rt0, N1) T0" "is_red N1 = (is_red N0)(z := False)" "kept (set_tree T0) N0 N1"
    using SetColor_ok [OF L0(1) mem(1), of BLACK] by auto
  obtain N2 where N2: "SetColor g RED N1 = Some N2" "linked_tree (rt0, N2) T0" "is_red N2 = (is_red N1)(g := True)" "kept (set_tree T0) N1 N2"
    using SetColor_ok [OF N1(2) mem(2), of RED] by auto
  have "linked_tree (rt0, N2) (plug \<langle>u, g, \<langle>r, z, \<langle>l, p, s\<rangle>\<rangle>\<rangle> c)" using N2(2) by (simp add: T0_def)
  from RotateLeft_ok [OF this] obtain rt' N3 where R: "RotateLeft g (rt0, N2) = Some (rt', N3)"
    "linked_tree (rt', N3) (plug \<langle>\<langle>u, g, r\<rangle>, z, \<langle>l, p, s\<rangle>\<rangle> c)" "same_outside (set_tree T0) N2 N3" by (auto simp: T0_def)
  have k: "kept (set_tree T) N N0" "is_red N0 = is_red N" "kept (set_tree T) N0 N2" "kept (set_tree T) N2 N3" "is_red N3 = is_red N2"
    using same_outside_kept [OF R0(3)] same_outside_kept [OF R(3)] kept_trans [OF N1(4) N2(4)] by (simp_all add: st)
  have "kept (set_tree T) N N3" by (rule kept_trans [OF kept_trans [OF k(1,3)] k(4)])
  moreover have "is_red N3 = (is_red N)(z := False, g := True)" by (simp add: k(2,5) N1(3) N2(3))
  moreover have "putFixRound z (rt, N) = Some (p, rt', N3)"
    using acc pu gn R0(1) pz N1(1) N2(1) R(1) by (simp add: putFixRound_def putFixRight_def)
  ultimately show ?thesis using R(2) by (auto simp: T_def)
qed

subsection \<open>Colors after a round\<close>

lemma rb_recolor_left:
  assumes "rb C h \<langle>l, z, r\<rangle>" and "rb_path C h (st # InLeft g \<langle>ul, y, ur\<rangle> # c)" and "C (above [st])" "C y" "C z"
    and "distinct (inorder (plug \<langle>l, z, r\<rangle> (st # InLeft g \<langle>ul, y, ur\<rangle> # c)))" and "0 \<notin> set (inorder (plug \<langle>l, z, r\<rangle> (st # InLeft g \<langle>ul, y, ur\<rangle> # c)))"
    and "C' = C(above [st] := False, y := False, g := True)"
  shows "rb C' (Suc h) (plug \<langle>l, z, r\<rangle> [st, InLeft g \<langle>ul, y, ur\<rangle>]) \<and> rb_path C' (Suc h) c"
  using assms(1-7) unfolding assms(8) inorder_plug by (cases st; simp; elim conjE; simp add: paint_simps)

lemma rb_outer_left:
  assumes "rb C h \<langle>l, z, r\<rangle>" and "rb_path C h (InLeft p s # InLeft g u # c)" and "C z" "C p" "\<not> C (root_of u)"
    and "distinct (inorder (plug \<langle>l, z, r\<rangle> (InLeft p s # InLeft g u # c)))" and "0 \<notin> set (inorder (plug \<langle>l, z, r\<rangle> (InLeft p s # InLeft g u # c)))"
    and "C' = C(p := False, g := True)"
  shows "\<exists>k. rb C' k (plug \<langle>\<langle>l, z, r\<rangle>, p, \<langle>s, g, u\<rangle>\<rangle> c)"
  using assms unfolding inorder_plug by (intro rb_plug [of _ "Suc h"]; simp; elim conjE; simp add: paint_simps)

lemma rb_inner_left:
  assumes "rb C h \<langle>l, z, r\<rangle>" and "rb_path C h (InRight s p # InLeft g u # c)" and "C z" "C p" "\<not> C (root_of u)"
    and "distinct (inorder (plug \<langle>l, z, r\<rangle> (InRight s p # InLeft g u # c)))" and "0 \<notin> set (inorder (plug \<langle>l, z, r\<rangle> (InRight s p # InLeft g u # c)))"
    and "C' = C(z := False, g := True)"
  shows "\<exists>k. rb C' k (plug \<langle>\<langle>s, p, l\<rangle>, z, \<langle>r, g, u\<rangle>\<rangle> c)"
  using assms unfolding inorder_plug by (intro rb_plug [of _ "Suc h"]; simp; elim conjE; simp add: paint_simps)

lemma rb_recolor_right:
  assumes "rb C h \<langle>r, z, l\<rangle>" and "rb_path C h (st # InRight \<langle>ur, y, ul\<rangle> g # c)" and "C (above [st])" "C y" "C z"
    and "distinct (inorder (plug \<langle>r, z, l\<rangle> (st # InRight \<langle>ur, y, ul\<rangle> g # c)))" and "0 \<notin> set (inorder (plug \<langle>r, z, l\<rangle> (st # InRight \<langle>ur, y, ul\<rangle> g # c)))"
    and "C' = C(above [st] := False, y := False, g := True)"
  shows "rb C' (Suc h) (plug \<langle>r, z, l\<rangle> [st, InRight \<langle>ur, y, ul\<rangle> g]) \<and> rb_path C' (Suc h) c"
  using assms(1-7) unfolding assms(8) inorder_plug by (cases st; simp; elim conjE; simp add: paint_simps)

lemma rb_outer_right:
  assumes "rb C h \<langle>r, z, l\<rangle>" and "rb_path C h (InRight s p # InRight u g # c)" and "C z" "C p" "\<not> C (root_of u)"
    and "distinct (inorder (plug \<langle>r, z, l\<rangle> (InRight s p # InRight u g # c)))" and "0 \<notin> set (inorder (plug \<langle>r, z, l\<rangle> (InRight s p # InRight u g # c)))"
    and "C' = C(p := False, g := True)"
  shows "\<exists>k. rb C' k (plug \<langle>\<langle>u, g, s\<rangle>, p, \<langle>r, z, l\<rangle>\<rangle> c)"
  using assms unfolding inorder_plug by (intro rb_plug [of _ "Suc h"]; simp; elim conjE; simp add: paint_simps)

lemma rb_inner_right:
  assumes "rb C h \<langle>r, z, l\<rangle>" and "rb_path C h (InLeft p s # InRight u g # c)" and "C z" "C p" "\<not> C (root_of u)"
    and "distinct (inorder (plug \<langle>r, z, l\<rangle> (InLeft p s # InRight u g # c)))" and "0 \<notin> set (inorder (plug \<langle>r, z, l\<rangle> (InLeft p s # InRight u g # c)))"
    and "C' = C(z := False, g := True)"
  shows "\<exists>k. rb C' k (plug \<langle>\<langle>u, g, r\<rangle>, z, \<langle>l, p, s\<rangle>\<rangle> c)"
  using assms unfolding inorder_plug by (intro rb_plug [of _ "Suc h"]; simp; elim conjE; simp add: paint_simps)

subsection \<open>The repair after an insertion\<close>

text \<open>What \<open>fixupPut\<close> leaves: the nodes in the same order, in a red-black tree with a black root.\<close>

definition put_fixed :: "uintptr \<Rightarrow> uintptr \<times> entries \<Rightarrow> uintptr tree \<Rightarrow> bool" where
  "put_fixed z rN T \<longleftrightarrow> (\<exists>rt' N' T' k. fixupPut z rN = Some (rt', N') \<and> linked_tree (rt', N') T' \<and> inorder T' = inorder T \<and>
     rb (is_red N') k T' \<and> \<not> is_red N' rt' \<and> kept (set_tree T) (snd rN) N')"

lemma linked_above:
  assumes "linked_tree (rt, N) (plug t c)" and "c \<noteq> []"
  shows "get_color (above c) N = Some (\<not> is_red N (above c)) \<and> above c \<noteq> 0"
  using assms linked_access(4,6) by (cases c rule: above.cases) auto

lemma put_stop:
  assumes T: "linked_tree (rt, N) (plug \<langle>l, z, r\<rangle> c)" "rb (is_red N) k (plug \<langle>l, z, r\<rangle> c)" and c: "\<not> is_red N (above c)"
  shows "put_fixed z (rt, N) (plug \<langle>l, z, r\<rangle> c)"
proof -
  let ?T = "plug \<langle>l, z, r\<rangle> c"
  have rt: "rt = root_of ?T" "?T \<noteq> \<langle>\<rangle>" using T(1) set_plug [of "\<langle>l, z, r\<rangle>" c] by (auto simp: linked_tree_def dest: tree_at_root)
  then have "rt \<in> set_tree ?T" using root_of_in [of ?T] by blast
  then obtain N' where N': "SetColor rt BLACK N = Some N'" "linked_tree (rt, N') ?T" "is_red N' = (is_red N)(rt := False)" "kept (set_tree ?T) N N'"
    using SetColor_ok [OF T(1)] by fastforce
  have "fixupPut z (rt, N) = blackRoot (rt, N)"
    using linked_access(1) [OF T(1)] linked_above [OF T(1)] c by (cases "c = []"; subst fixupPut.simps) auto
  then have "fixupPut z (rt, N) = Some (rt, N')" using N'(1) by (simp add: blackRoot_def)
  moreover obtain k' where "rb (is_red N') k' ?T"
    using rb_black_root [OF T(2)] T(1) rt(1) by (auto simp: N'(3) linked_tree_def)
  moreover have "\<not> is_red N' rt" by (simp add: N'(3))
  ultimately show ?thesis unfolding put_fixed_def using N'(2,4) by auto
qed

lemma put_go:
  assumes "put_fixed z1 (rt1, N1) T1" and "fixupPut z (rt, N) = fixupPut z1 (rt1, N1)" and "inorder T1 = inorder T"
    and "kept (set_tree T) N N1"
  shows "put_fixed z (rt, N) T"
proof -
  have "set_tree T1 = set_tree T" using assms(3) by (metis set_inorder)
  then obtain rt' N' T' k where "fixupPut z1 (rt1, N1) = Some (rt', N')" "linked_tree (rt', N') T'" "inorder T' = inorder T1"
    "rb (is_red N') k T'" "\<not> is_red N' rt'" "kept (set_tree T) N1 N'" using assms(1) unfolding put_fixed_def by auto
  moreover from this(6) have "kept (set_tree T) N N'" by (rule kept_trans [OF assms(4)])
  ultimately show ?thesis using assms(2,3) unfolding put_fixed_def by (intro exI [of _ rt'] exI [of _ N'] exI [of _ T'] exI [of _ k]) simp
qed

lemma put_round:
  assumes "linked_tree (rt, N) (plug \<langle>l, z, r\<rangle> c)" and "is_red N (above c)" and "putFixRound z (rt, N) = Some (z1, s)"
  shows "fixupPut z (rt, N) = fixupPut z1 s"
proof -
  have "c \<noteq> []" using assms(2) by auto
  then show ?thesis
    using linked_access(1) [OF assms(1)] linked_above [OF assms(1)] assms(2,3) by (subst fixupPut.simps) auto
qed

lemma put_left:
  assumes T: "linked_tree (rt, N) (plug \<langle>l, z, r\<rangle> (st # InLeft g u # c))" and Z: "rb (is_red N) h \<langle>l, z, r\<rangle>" "is_red N z"
    and P: "rb_path (is_red N) h (st # InLeft g u # c)" "is_red N (above [st])"
    and IH: "\<And>rt' N' k l' r'. linked_tree (rt', N') (plug \<langle>l', g, r'\<rangle> c) \<Longrightarrow> rb (is_red N') k \<langle>l', g, r'\<rangle> \<Longrightarrow> rb_path (is_red N') k c \<Longrightarrow>
      is_red N' g \<Longrightarrow> put_fixed g (rt', N') (plug \<langle>l', g, r'\<rangle> c)"
  shows "put_fixed z (rt, N) (plug \<langle>l, z, r\<rangle> (st # InLeft g u # c))"
proof -
  let ?T = "plug \<langle>l, z, r\<rangle> (st # InLeft g u # c)"
  have D: "distinct (inorder ?T)" "0 \<notin> set (inorder ?T)" using T tree_at_nonzero [of N 0 rt ?T] by (auto simp: linked_tree_def)
  have red: "is_red N (above (st # InLeft g u # c))" using P(2) by (cases st) simp_all
  show ?thesis
  proof (cases "is_red N (root_of u)")
    case True
    then obtain ul y ur where u: "u = \<langle>ul, y, ur\<rangle>" "is_red N y" by (cases u) auto
    obtain N' where R: "putFixRound z (rt, N) = Some (g, rt, N')" "linked_tree (rt, N') ?T"
      "is_red N' = (is_red N)(above [st] := False, y := False, g := True)" "kept (set_tree ?T) N N'"
      using round_red_left [OF T [unfolded u(1)] u(2)] u(1) by auto
    have rb: "rb (is_red N') (Suc h) (plug \<langle>l, z, r\<rangle> [st, InLeft g u])" "rb_path (is_red N') (Suc h) c"
      using rb_recolor_left [OF Z(1) P(1) [unfolded u(1)] P(2) u(2) Z(2) D [unfolded u(1)] R(3)] u(1) by auto
    obtain l' r' where G: "plug \<langle>l, z, r\<rangle> [st, InLeft g u] = \<langle>l', g, r'\<rangle>" by (cases st) auto
    have T': "?T = plug \<langle>l', g, r'\<rangle> c" using G by (cases st) auto
    have "put_fixed g (rt, N') ?T" unfolding T'
      by (rule IH [OF R(2) [unfolded T'] rb(1) [unfolded G] rb(2)]) (simp add: R(3))
    from put_go [OF this put_round [OF T red R(1)] refl R(4)] show ?thesis .
  next
    case False
    show ?thesis
    proof (cases st)
      case (InLeft p s)
      obtain rt' N' where R: "putFixRound z (rt, N) = Some (z, rt', N')" "linked_tree (rt', N') (plug \<langle>\<langle>l, z, r\<rangle>, p, \<langle>s, g, u\<rangle>\<rangle> c)"
        "is_red N' = (is_red N)(p := False, g := True)" "kept (set_tree ?T) N N'"
        using round_outer_left [OF T [unfolded InLeft] False] InLeft by auto
      obtain k where "rb (is_red N') k (plug \<langle>\<langle>l, z, r\<rangle>, p, \<langle>s, g, u\<rangle>\<rangle> c)"
        using rb_outer_left [OF Z(1) P(1) [unfolded InLeft] Z(2) _ False D [unfolded InLeft] R(3)] P(2) InLeft by auto
      moreover have "p \<noteq> g" using D(1) InLeft by (auto simp: inorder_plug)
      ultimately have "put_fixed z (rt', N') (plug \<langle>l, z, r\<rangle> (InLeft p \<langle>s, g, u\<rangle> # c))" using R(2,3) by (intro put_stop [of _ _ _ _ _ _ k]) auto
      from put_go [OF this put_round [OF T red R(1)] _ R(4)] show ?thesis using InLeft by (simp add: inorder_plug)
    next
      case (InRight s p)
      obtain rt' N' where R: "putFixRound z (rt, N) = Some (p, rt', N')" "linked_tree (rt', N') (plug \<langle>\<langle>s, p, l\<rangle>, z, \<langle>r, g, u\<rangle>\<rangle> c)"
        "is_red N' = (is_red N)(z := False, g := True)" "kept (set_tree ?T) N N'"
        using round_inner_left [OF T [unfolded InRight] False] InRight by auto
      obtain k where "rb (is_red N') k (plug \<langle>\<langle>s, p, l\<rangle>, z, \<langle>r, g, u\<rangle>\<rangle> c)"
        using rb_inner_left [OF Z(1) P(1) [unfolded InRight] Z(2) _ False D [unfolded InRight] R(3)] P(2) InRight by auto
      moreover have "z \<noteq> g" using D(1) InRight by (auto simp: inorder_plug)
      ultimately have "put_fixed p (rt', N') (plug \<langle>s, p, l\<rangle> (InLeft z \<langle>r, g, u\<rangle> # c))" using R(2,3) by (intro put_stop [of _ _ _ _ _ _ k]) auto
      from put_go [OF this put_round [OF T red R(1)] _ R(4)] show ?thesis using InRight by (simp add: inorder_plug)
    qed
  qed
qed

lemma put_right:
  assumes T: "linked_tree (rt, N) (plug \<langle>r, z, l\<rangle> (st # InRight u g # c))" and Z: "rb (is_red N) h \<langle>r, z, l\<rangle>" "is_red N z"
    and P: "rb_path (is_red N) h (st # InRight u g # c)" "is_red N (above [st])"
    and IH: "\<And>rt' N' k l' r'. linked_tree (rt', N') (plug \<langle>r', g, l'\<rangle> c) \<Longrightarrow> rb (is_red N') k \<langle>r', g, l'\<rangle> \<Longrightarrow> rb_path (is_red N') k c \<Longrightarrow>
      is_red N' g \<Longrightarrow> put_fixed g (rt', N') (plug \<langle>r', g, l'\<rangle> c)"
  shows "put_fixed z (rt, N) (plug \<langle>r, z, l\<rangle> (st # InRight u g # c))"
proof -
  let ?T = "plug \<langle>r, z, l\<rangle> (st # InRight u g # c)"
  have D: "distinct (inorder ?T)" "0 \<notin> set (inorder ?T)" using T tree_at_nonzero [of N 0 rt ?T] by (auto simp: linked_tree_def)
  have red: "is_red N (above (st # InRight u g # c))" using P(2) by (cases st) simp_all
  show ?thesis
  proof (cases "is_red N (root_of u)")
    case True
    then obtain ul y ur where u: "u = \<langle>ur, y, ul\<rangle>" "is_red N y" by (cases u) auto
    obtain N' where R: "putFixRound z (rt, N) = Some (g, rt, N')" "linked_tree (rt, N') ?T"
      "is_red N' = (is_red N)(above [st] := False, y := False, g := True)" "kept (set_tree ?T) N N'"
      using round_red_right [OF T [unfolded u(1)] u(2)] u(1) by auto
    have rb: "rb (is_red N') (Suc h) (plug \<langle>r, z, l\<rangle> [st, InRight u g])" "rb_path (is_red N') (Suc h) c"
      using rb_recolor_right [OF Z(1) P(1) [unfolded u(1)] P(2) u(2) Z(2) D [unfolded u(1)] R(3)] u(1) by auto
    obtain l' r' where G: "plug \<langle>r, z, l\<rangle> [st, InRight u g] = \<langle>r', g, l'\<rangle>" by (cases st) auto
    have T': "?T = plug \<langle>r', g, l'\<rangle> c" using G by (cases st) auto
    have "put_fixed g (rt, N') ?T" unfolding T'
      by (rule IH [OF R(2) [unfolded T'] rb(1) [unfolded G] rb(2)]) (simp add: R(3))
    from put_go [OF this put_round [OF T red R(1)] refl R(4)] show ?thesis .
  next
    case False
    show ?thesis
    proof (cases st)
      case (InRight s p)
      obtain rt' N' where R: "putFixRound z (rt, N) = Some (z, rt', N')" "linked_tree (rt', N') (plug \<langle>\<langle>u, g, s\<rangle>, p, \<langle>r, z, l\<rangle>\<rangle> c)"
        "is_red N' = (is_red N)(p := False, g := True)" "kept (set_tree ?T) N N'"
        using round_outer_right [OF T [unfolded InRight] False] InRight by auto
      obtain k where "rb (is_red N') k (plug \<langle>\<langle>u, g, s\<rangle>, p, \<langle>r, z, l\<rangle>\<rangle> c)"
        using rb_outer_right [OF Z(1) P(1) [unfolded InRight] Z(2) _ False D [unfolded InRight] R(3)] P(2) InRight by auto
      moreover have "p \<noteq> g" using D(1) InRight by (auto simp: inorder_plug)
      ultimately have "put_fixed z (rt', N') (plug \<langle>r, z, l\<rangle> (InRight \<langle>u, g, s\<rangle> p # c))" using R(2,3) by (intro put_stop [of _ _ _ _ _ _ k]) auto
      from put_go [OF this put_round [OF T red R(1)] _ R(4)] show ?thesis using InRight by (simp add: inorder_plug)
    next
      case (InLeft p s)
      obtain rt' N' where R: "putFixRound z (rt, N) = Some (p, rt', N')" "linked_tree (rt', N') (plug \<langle>\<langle>u, g, r\<rangle>, z, \<langle>l, p, s\<rangle>\<rangle> c)"
        "is_red N' = (is_red N)(z := False, g := True)" "kept (set_tree ?T) N N'"
        using round_inner_right [OF T [unfolded InLeft] False] InLeft by auto
      obtain k where "rb (is_red N') k (plug \<langle>\<langle>u, g, r\<rangle>, z, \<langle>l, p, s\<rangle>\<rangle> c)"
        using rb_inner_right [OF Z(1) P(1) [unfolded InLeft] Z(2) _ False D [unfolded InLeft] R(3)] P(2) InLeft by auto
      moreover have "z \<noteq> g" using D(1) InLeft by (auto simp: inorder_plug)
      ultimately have "put_fixed p (rt', N') (plug \<langle>l, p, s\<rangle> (InRight \<langle>u, g, r\<rangle> z # c))" using R(2,3) by (intro put_stop [of _ _ _ _ _ _ k]) auto
      from put_go [OF this put_round [OF T red R(1)] _ R(4)] show ?thesis using InLeft by (simp add: inorder_plug)
    qed
  qed
qed

lemma fixupPut_ok:
  assumes "linked_tree (rt, N) (plug \<langle>l, z, r\<rangle> c)" and "rb (is_red N) h \<langle>l, z, r\<rangle>" and "rb_path (is_red N) h c" and "is_red N z"
  shows "put_fixed z (rt, N) (plug \<langle>l, z, r\<rangle> c)"
  using assms
proof (induction c arbitrary: rt N l z r h rule: length_induct)
  case (1 c)
  show ?case
  proof (cases "is_red N (above c)")
    case False
    then obtain k where "rb (is_red N) k (plug \<langle>l, z, r\<rangle> c)" using rb_plug 1(3,4) by blast
    then show ?thesis using put_stop 1(2) False by blast
  next
    case True
    then obtain st st2 d where c: "c = st # st2 # d" using 1(4) by (cases c rule: above.cases; cases "tl c") (auto split: if_splits)
    have red: "is_red N (above [st])" using True by (cases st) (simp_all add: c)
    have IH: "linked_tree (rt', N') (plug \<langle>l', g, r'\<rangle> d) \<Longrightarrow> rb (is_red N') k \<langle>l', g, r'\<rangle> \<Longrightarrow> rb_path (is_red N') k d \<Longrightarrow>
      is_red N' g \<Longrightarrow> put_fixed g (rt', N') (plug \<langle>l', g, r'\<rangle> d)" for rt' N' k l' g r'
      using 1(1) [rule_format, of d] by (simp add: c)
    show ?thesis
    proof (cases st2)
      case (InLeft g u)
      show ?thesis unfolding c InLeft
        by (rule put_left [OF 1(2) [unfolded c InLeft] 1(3) 1(5) 1(4) [unfolded c InLeft] red IH])
    next
      case (InRight u g)
      show ?thesis unfolding c InRight
        by (rule put_right [OF 1(2) [unfolded c InRight] 1(3) 1(5) 1(4) [unfolded c InRight] red IH])
    qed
  qed
qed

end
