(* ===== verification/EntryMap.thy ===== *)
theory EntryMap
  imports EntryPut
begin

text \<open>
  Comparators as a locale, with the byte order of entry.go as an instance; the map a tree stands for;
  the search, \<open>Get\<close>, \<open>Has\<close> and \<open>Put\<close> on that map.
\<close>

subsection \<open>Comparators\<close>

definition key_less :: "Comparator \<Rightarrow> uint8 list \<Rightarrow> uint8 list \<Rightarrow> bool" where
  "key_less cp a b = (case cp (Bytes a) (Bytes b) of Some c \<Rightarrow> c < 0 | None \<Rightarrow> False)"

text \<open>
  What the documentation asks of a comparator, for the keys nodes have: it does not panic, returns
  zero for equal keys only, and orders the keys.
\<close>

locale comparator =
  fixes cp :: Comparator
  assumes cp_total: "\<exists>c. cp (Bytes a) (Bytes b) = Some c"
    and cp_zero: "cp (Bytes a) (Bytes b) = Some 0 \<longleftrightarrow> a = b"
    and cp_swap: "cp (Bytes a) (Bytes b) = Some c \<Longrightarrow> 0 < c \<Longrightarrow> key_less cp b a"
    and cp_trans: "key_less cp a b \<Longrightarrow> key_less cp b d \<Longrightarrow> key_less cp a d"
begin

lemma cp_irrefl [simp]: "\<not> key_less cp a a"
  using cp_zero [of a a] by (auto simp: key_less_def)

lemma cp_compare:
  obtains c where "cp (Bytes a) (Bytes b) = Some c" and "c < 0" and "key_less cp a b"
  | "cp (Bytes a) (Bytes b) = Some 0" and "a = b"
  | c where "cp (Bytes a) (Bytes b) = Some c" and "0 < c" and "key_less cp b a"
proof -
  obtain c where c: "cp (Bytes a) (Bytes b) = Some c" using cp_total by blast
  consider "c < 0" | "c = 0" | "0 < c" by linarith
  then show ?thesis
  proof cases
    case 1
    then show ?thesis using that(1) c by (simp add: key_less_def)
  next
    case 2
    then show ?thesis using that(2) c cp_zero by simp
  next
    case 3
    then show ?thesis using that(3) c cp_swap by blast
  qed
qed

lemma cp_less_compare: "key_less cp a b \<Longrightarrow> \<exists>c. cp (Bytes a) (Bytes b) = Some c \<and> c < 0"
  by (auto simp: key_less_def split: option.splits)

end

lemma bytes_compare_zero: "bytes_compare a b = 0 \<longleftrightarrow> a = b"
  by (induction a b rule: bytes_compare.induct) auto

lemma bytes_compare_swap: "0 < bytes_compare a b \<Longrightarrow> bytes_compare b a < 0"
  by (induction a b rule: bytes_compare.induct) (auto split: if_splits)

lemma bytes_compare_trans: "bytes_compare a b < 0 \<Longrightarrow> bytes_compare b d < 0 \<Longrightarrow> bytes_compare a d < 0"
proof (induction a d arbitrary: b rule: bytes_compare.induct)
  case (4 x xs y ys)
  then obtain z zs where b: "b = z # zs" by (cases b) auto
  show ?case using 4(1) [of zs] 4(2,3) unfolding b
    by (cases "x < z"; cases "z < x"; cases "z < y"; cases "y < z") auto
next
  case 1
  then show ?case by (cases b) auto
next
  case (3 x xs)
  then show ?case by (cases b) auto
qed simp

interpretation asc: comparator BytesAscSort
proof
  show "key_less BytesAscSort b a" if "BytesAscSort (Bytes a) (Bytes b) = Some c" "0 < c" for a b c
    using that bytes_compare_swap by (simp add: key_less_def)
  show "key_less BytesAscSort a d" if "key_less BytesAscSort a b" "key_less BytesAscSort b d" for a b d
    using that bytes_compare_trans by (simp add: key_less_def)
qed (simp_all add: bytes_compare_zero)

subsection \<open>A tree as a map\<close>

definition key_of :: "entries \<Rightarrow> uintptr \<Rightarrow> uint8 list" where
  "key_of N a = (case N a of None \<Rightarrow> [] | Some n \<Rightarrow> Key n)"

definition val_of :: "entries \<Rightarrow> uintptr \<Rightarrow> uint8 list" where
  "val_of N a = (case N a of None \<Rightarrow> [] | Some n \<Rightarrow> Value n)"

definition keys_sorted :: "Comparator \<Rightarrow> entries \<Rightarrow> uintptr list \<Rightarrow> bool" where
  "keys_sorted cp N xs \<longleftrightarrow> sorted_wrt (\<lambda>a b. key_less cp (key_of N a) (key_of N b)) xs"

text \<open>\<open>T\<close> is the shape of the tree; a search tree, and a red-black tree with a black root.\<close>

definition tree_rep :: "Tree \<Rightarrow> uintptr tree \<Rightarrow> bool" where
  "tree_rep t T \<longleftrightarrow> linked_tree (root t, nodes t) T \<and> keys_sorted (cmp t) (nodes t) (inorder T)"

definition rb_rep :: "Tree \<Rightarrow> uintptr tree \<Rightarrow> bool" where
  "rb_rep t T \<longleftrightarrow> tree_rep t T \<and> (\<exists>h. rb (is_red (nodes t)) h T) \<and> \<not> is_red (nodes t) (root t)"

definition tree_map :: "Tree \<Rightarrow> uintptr tree \<Rightarrow> uint8 list \<rightharpoonup> uint8 list" where
  "tree_map t T = map_of (map (\<lambda>a. (key_of (nodes t) a, val_of (nodes t) a)) (inorder T))"

lemma entry_data_keys:
  assumes "map_option entry_data (N' z) = map_option entry_data (N z)"
  shows "key_of N' z = key_of N z" and "val_of N' z = val_of N z"
  using assms by (cases "N z"; cases "N' z"; simp add: key_of_def val_of_def entry_data_def)+

lemma kept_keys: "kept A N N' \<Longrightarrow> key_of N' = key_of N \<and> val_of N' = val_of N"
  using entry_data_keys [of N' _ N] by (auto simp: kept_def fun_eq_iff)

fun dir_of :: "step list \<Rightarrow> Direction" where
  "dir_of [] = NODIR"
| "dir_of (InLeft x r # c) = LEFT"
| "dir_of (InRight l x # c) = RIGHT"

text \<open>\<open>k\<close> fits in the hole of a path.\<close>

definition fits :: "Comparator \<Rightarrow> entries \<Rightarrow> uint8 list \<Rightarrow> step list \<Rightarrow> bool" where
  "fits cp N k c \<longleftrightarrow> (\<forall>x \<in> set (lefts c). key_less cp (key_of N x) k) \<and> (\<forall>x \<in> set (rights c). key_less cp k (key_of N x))"

context comparator
begin

lemma internalLookup_ok:
  assumes "tree_at N (above c) a t" and "keys_sorted cp N (inorder t)" and "fits cp N k c"
  shows "(\<exists>c' l x r. plug \<langle>l, x, r\<rangle> c' = plug t c \<and> key_of N x = k \<and>
      internalLookup cp N (above c) a (Bytes k) (dir_of c) = Some (True, above c', dir_of c')) \<or>
    (\<exists>c'. plug \<langle>\<rangle> c' = plug t c \<and> fits cp N k c' \<and>
      internalLookup cp N (above c) a (Bytes k) (dir_of c) = Some (False, above c', dir_of c'))"
  using assms
proof (induction t arbitrary: c a)
  case Leaf
  then show ?case by (intro disjI2 exI [of _ c]) (simp add: internalLookup.simps [of cp N])
next
  case (Node l x r)
  then obtain n where n: "N x = Some n" "a = x" "x \<noteq> 0"
    and sub: "tree_at N x (lnk_left n) l" "tree_at N x (lnk_right n) r" by (auto split: option.splits)
  have kx: "key_of N x = Key n" using n(1) by (simp add: key_of_def)
  have s: "keys_sorted cp N (inorder l)" "keys_sorted cp N (inorder r)"
    "\<forall>y \<in> set (inorder l). key_less cp (key_of N y) (Key n)" "\<forall>y \<in> set (inorder r). key_less cp (Key n) (key_of N y)"
    using Node.prems(2) by (auto simp: keys_sorted_def sorted_wrt_append kx)
  consider (l) v where "cp (Bytes k) (Bytes (Key n)) = Some v" "v < 0" "key_less cp k (Key n)"
    | (e) "cp (Bytes k) (Bytes (Key n)) = Some 0" "k = Key n"
    | (g) v where "cp (Bytes k) (Bytes (Key n)) = Some v" "0 < v" "key_less cp (Key n) k"
    using cp_compare [of k "Key n"] by metis
  then show ?case
  proof cases
    case l
    have "fits cp N k (InLeft x r # c)" using Node.prems(3) l(3) s(4) kx cp_trans unfolding fits_def by auto
    moreover have "internalLookup cp N (above c) a (Bytes k) (dir_of c) = internalLookup cp N x (lnk_left n) (Bytes k) LEFT"
      using l n by (subst internalLookup.simps) simp
    ultimately show ?thesis using Node.IH(1) [of "InLeft x r # c"] sub(1) s(1) by simp
  next
    case e
    then show ?thesis using n kx by (intro disjI1 exI [of _ c] exI [of _ l] exI [of _ x] exI [of _ r]) (subst internalLookup.simps, simp)
  next
    case g
    have "fits cp N k (InRight l x # c)" using Node.prems(3) g(3) s(3) kx cp_trans unfolding fits_def by auto
    moreover have "internalLookup cp N (above c) a (Bytes k) (dir_of c) = internalLookup cp N x (lnk_right n) (Bytes k) RIGHT"
      using g n by (subst internalLookup.simps) simp
    ultimately show ?thesis using Node.IH(2) [of "InRight l x # c"] sub(2) s(2) by simp
  qed
qed

lemma keys_distinct:
  assumes "keys_sorted cp N xs"
  shows "distinct (map (key_of N) xs)"
  using assms unfolding keys_sorted_def by (induction xs) auto

end

lemma linked_child:
  assumes "linked_tree (rt, N) (plug \<langle>l, x, r\<rangle> c)" and "c \<noteq> []"
  shows "(dir_of c = LEFT \<and> Left (above c) N = Some x) \<or> (dir_of c = RIGHT \<and> Right (above c) N = Some x)"
proof (cases c rule: dir_of.cases)
  case (2 y s d)
  then have "linked_tree (rt, N) (plug \<langle>\<langle>l, x, r\<rangle>, y, s\<rangle> d)" using assms(1) by simp
  from linked_access(2) [OF this] show ?thesis using 2 by simp
next
  case (3 s y d)
  then have "linked_tree (rt, N) (plug \<langle>s, y, \<langle>l, x, r\<rangle>\<rangle> d)" using assms(1) by simp
  from linked_access(3) [OF this] show ?thesis using 3 by simp
qed (use assms(2) in simp)

lemma linked_root: "linked_tree (rt, N) (plug \<langle>l, x, r\<rangle> []) \<Longrightarrow> rt = x"
  by (auto simp: linked_tree_def)

lemma plug_fits: "keys_sorted cp N (inorder (plug t c)) \<Longrightarrow> keys_sorted cp N (inorder t)"
  by (simp add: keys_sorted_def inorder_plug sorted_wrt_append)

lemma tree_map_None: "tree_map t T k = None \<longleftrightarrow> (\<forall>x \<in> set_tree T. key_of (nodes t) x \<noteq> k)"
  unfolding tree_map_def map_of_eq_None_iff by (auto simp: image_image)

context comparator
begin

lemma fits_absent: "fits cp N k c \<Longrightarrow> x \<in> set (lefts c) \<union> set (rights c) \<Longrightarrow> key_of N x \<noteq> k"
  unfolding fits_def by (metis Un_iff cp_irrefl)

lemma tree_map_Some:
  assumes "tree_rep t T" and "cmp t = cp" and "x \<in> set_tree T"
  shows "tree_map t T (key_of (nodes t) x) = Some (val_of (nodes t) x)"
proof -
  have "distinct (map (key_of (nodes t)) (inorder T))" using keys_distinct assms by (auto simp: tree_rep_def)
  then show ?thesis unfolding tree_map_def using assms(3) by (intro map_of_is_SomeI) (auto simp: comp_def image_iff)
qed

text \<open>The two ends of the search from the root.\<close>

lemma lookup_root:
  assumes "tree_rep t T" and "cmp t = cp"
  obtains (found) c l x r where "T = plug \<langle>l, x, r\<rangle> c" and "key_of (nodes t) x = k"
      and "internalLookup cp (nodes t) 0 (root t) (Bytes k) NODIR = Some (True, above c, dir_of c)"
      and "tree_map t T k = Some (val_of (nodes t) x)"
  | (absent) c where "T = plug \<langle>\<rangle> c" and "fits cp (nodes t) k c"
      and "internalLookup cp (nodes t) 0 (root t) (Bytes k) NODIR = Some (False, above c, dir_of c)"
      and "tree_map t T k = None"
proof -
  have "tree_at (nodes t) (above []) (root t) T" "keys_sorted cp (nodes t) (inorder T)" "fits cp (nodes t) k []"
    using assms by (simp_all add: tree_rep_def linked_tree_def fits_def)
  from internalLookup_ok [OF this]
  consider c l x r where "plug \<langle>l, x, r\<rangle> c = T" "key_of (nodes t) x = k"
      "internalLookup cp (nodes t) 0 (root t) (Bytes k) NODIR = Some (True, above c, dir_of c)"
    | c where "plug \<langle>\<rangle> c = T" "fits cp (nodes t) k c"
      "internalLookup cp (nodes t) 0 (root t) (Bytes k) NODIR = Some (False, above c, dir_of c)" by auto
  then show thesis
  proof cases
    case 1
    have "x \<in> set_tree T" unfolding 1(1) [symmetric] by (simp add: set_plug)
    from tree_map_Some [OF assms this] show thesis using found 1 by metis
  next
    case 2
    have "set_tree T = set (lefts c) \<union> set (rights c)" unfolding 2(1) [symmetric] by (simp add: set_plug set_lefts_rights)
    then have "tree_map t T k = None" using fits_absent [OF 2(2)] by (simp add: tree_map_None)
    then show thesis using absent 2 by metis
  qed
qed

lemma getNode_ok:
  assumes "tree_rep t T" and "cmp t = cp"
  shows "(tree_map t T k = None \<and> getNode (Bytes k) t = Some (False, 0)) \<or>
    (\<exists>x \<in> set_tree T. key_of (nodes t) x = k \<and> getNode (Bytes k) t = Some (True, x) \<and> tree_map t T k = Some (val_of (nodes t) x))"
proof -
  have L: "linked_tree (root t, nodes t) T" using assms(1) by (simp add: tree_rep_def)
  have gp: "GetParent (Bytes k) t = (if root t = 0 then Some (False, 0, NODIR)
      else internalLookup cp (nodes t) 0 (root t) (Bytes k) NODIR)" by (simp add: GetParent_def mustBeValidKey_def assms(2))
  from assms show ?thesis
  proof (cases rule: lookup_root [where k = k])
    case (found c l x r)
    have T: "linked_tree (root t, nodes t) (plug \<langle>l, x, r\<rangle> c)" using L found(1) by simp
    have x: "x \<in> set_tree T" "x \<noteq> 0" using linked_access(6) [OF T] by (simp_all add: found(1) set_plug)
    have "T \<noteq> \<langle>\<rangle>" using x(1) by auto
    then have "root t \<noteq> 0" using L by (cases T) (auto simp: linked_tree_def)
    then have gp: "GetParent (Bytes k) t = Some (True, above c, dir_of c)" using gp found(3) by simp
    have "getNode (Bytes k) t = Some (True, x)"
    proof (cases "c = []")
      case True
      then show ?thesis using gp linked_root T by (simp add: getNode_def)
    next
      case False
      then show ?thesis using gp linked_above [OF T False] linked_child [OF T False] x(2)
        by (auto simp: getNode_def Left_def Right_def)
    qed
    then show ?thesis using x(1) found(2,4) by blast
  next
    case (absent c)
    then have "getNode (Bytes k) t = Some (False, 0)" using gp by (simp add: getNode_def del: bind_Some_iff)
    then show ?thesis using absent(4) by blast
  qed
qed

lemma Get_ok:
  assumes "tree_rep t T" and "cmp t = cp"
  shows "Get k t = Some (case tree_map t T k of None \<Rightarrow> (False, []) | Some v \<Rightarrow> (True, v))"
    and "Has (Bytes k) t = Some (tree_map t T k \<noteq> None)"
proof -
  have dom: "set_tree T \<subseteq> dom (nodes t)" using assms(1) tree_at_dom [of "nodes t" 0 "root t" T] by (simp add: tree_rep_def linked_tree_def)
  show "Get k t = Some (case tree_map t T k of None \<Rightarrow> (False, []) | Some v \<Rightarrow> (True, v))"
    using getNode_ok [OF assms, of k] dom
    by (auto simp: Get_def mustBeValidKey_def val_of_def simp del: bind_Some_iff)
  from assms show "Has (Bytes k) t = Some (tree_map t T k \<noteq> None)"
    by (cases rule: lookup_root [where k = k]) (simp_all add: Has_def mustBeValidKey_def assms(2))
qed

end

subsection \<open>Insertion\<close>

text \<open>Hanging a new leaf into the hole the search ended at.\<close>

lemma hang_leaf:
  assumes T: "linked_tree (rt, N) (plug \<langle>\<rangle> c)" "c \<noteq> []" and n: "N a = Some n" "a \<notin> path_nodes c" "a \<noteq> 0" "lnk_left n = 0" "lnk_right n = 0"
  shows "\<exists>N2. hangNode a (above c) (dir_of c) N = Some N2 \<and>
    linked_tree (rt, N2) (plug \<langle>\<langle>\<rangle>, a, \<langle>\<rangle>\<rangle> c) \<and> same_data N N2 \<and> above c \<noteq> 0 \<and>
    (\<forall>z. z \<notin> insert a (path_nodes c) \<longrightarrow> N2 z = N z)"
proof -
  define N1 where "N1 = N(a \<mapsto> n\<lparr>lnk_parent := above c\<rparr>)"
  have dist: "distinct (lefts c @ rights c)" and "path_at N rt 0 c" using T(1) by (simp_all add: linked_plug)
  moreover have "path_at N1 rt 0 c = path_at N rt 0 c" using n(2) by (intro path_at_cong) (auto simp: N1_def)
  ultimately have p: "path_at N1 rt 0 c" by simp
  from path_replace [OF p dist T(2), of a] obtain m where m: "N1 (above c) = Some m"
    and L: "\<forall>x r d. c = InLeft x r # d \<longrightarrow> lnk_left m = 0 \<and> path_at (N1(above c \<mapsto> m\<lparr>lnk_left := a\<rparr>)) rt a c"
    and R: "\<forall>l x d. c = InRight l x # d \<longrightarrow> lnk_right m = 0 \<and> lnk_left m = root_of l \<and> path_at (N1(above c \<mapsto> m\<lparr>lnk_right := a\<rparr>)) rt a c" by auto
  have ab: "above c \<in> path_nodes c" "above c \<noteq> 0" using above_in [OF T(2)] path_at_nonzero [OF p] by auto
  then have ne: "above c \<noteq> a" using n(2) by auto
  have tp: "linked_tree (rt, N1(above c \<mapsto> m')) (plug \<langle>\<langle>\<rangle>, a, \<langle>\<rangle>\<rangle> c)" if "path_at (N1(above c \<mapsto> m')) rt a c" for m'
    using that dist n ne set_lefts_rights [of c] by (auto simp: linked_plug N1_def)
  have sd: "same_data N (N1(above c \<mapsto> m'))" if "link.more m' = link.more m" for m'
    using m n(1) ne that by (auto simp: same_data_def N1_def)
  have out: "(N1(above c \<mapsto> m')) z = N z" if "z \<notin> insert a (path_nodes c)" for m' z using that ab(1) by (auto simp: N1_def)
  have u: "upd a (lnk_parent_update (\<lambda>_. above c)) N = Some N1" using n(1) by (simp add: upd_Some N1_def)
  show ?thesis
  proof (cases c rule: dir_of.cases)
    case (2 x r d)
    then show ?thesis using u m L tp [of "m\<lparr>lnk_left := a\<rparr>"] sd [of "m\<lparr>lnk_left := a\<rparr>"] ab(2) out by (auto simp: hangNode_def upd_Some)
  next
    case (3 l x d)
    then show ?thesis using u m R tp [of "m\<lparr>lnk_right := a\<rparr>"] sd [of "m\<lparr>lnk_right := a\<rparr>"] ab(2) out by (auto simp: hangNode_def upd_Some)
  qed (use T(2) in simp)
qed

text \<open>Search trees depend on the links and the data of their nodes only.\<close>

lemma keys_sorted_cong: "(\<And>x. x \<in> set xs \<Longrightarrow> key_of N' x = key_of N x) \<Longrightarrow> keys_sorted cp N' xs = keys_sorted cp N xs"
  unfolding keys_sorted_def by (induction xs) auto

lemma tree_map_cong: "(\<And>x. x \<in> set_tree T \<Longrightarrow> key_of (nodes t') x = key_of (nodes t) x \<and> val_of (nodes t') x = val_of (nodes t) x) \<Longrightarrow>
  inorder T' = inorder T \<Longrightarrow> tree_map t' T' = tree_map t T"
  unfolding tree_map_def by (intro arg_cong [where f = map_of] map_cong) auto

lemma linked_cong: "(\<And>x. x \<in> set_tree T \<Longrightarrow> N' x = N x) \<Longrightarrow> linked_tree (rt, N') T = linked_tree (rt, N) T"
  using tree_at_cong [of T N' N 0 rt] by (auto simp: linked_tree_def)

lemma is_red_cong: "N' x = N x \<Longrightarrow> is_red N' x = is_red N x"
  by (simp add: is_red_def)

text \<open>Overwriting data of one node.\<close>

lemma linked_value:
  assumes "linked_tree (rt, N) T" and "N x = Some n"
  shows "linked_tree (rt, N(x \<mapsto> n\<lparr>Value := v\<rparr>)) T" and "is_red (N(x \<mapsto> n\<lparr>Value := v\<rparr>)) = is_red N"
    and "key_of (N(x \<mapsto> n\<lparr>Value := v\<rparr>)) = key_of N" and "val_of (N(x \<mapsto> n\<lparr>Value := v\<rparr>)) = (val_of N)(x := v)"
proof -
  have "tree_at (N(x \<mapsto> n\<lparr>Value := v\<rparr>)) 0 rt T = tree_at N 0 rt T" using assms(2) by (intro tree_at_links) auto
  then show "linked_tree (rt, N(x \<mapsto> n\<lparr>Value := v\<rparr>)) T" using assms(1) by (simp add: linked_tree_def)
  show "is_red (N(x \<mapsto> n\<lparr>Value := v\<rparr>)) = is_red N" "key_of (N(x \<mapsto> n\<lparr>Value := v\<rparr>)) = key_of N"
    "val_of (N(x \<mapsto> n\<lparr>Value := v\<rparr>)) = (val_of N)(x := v)"
    using assms(2) by (auto simp: is_red_def key_of_def val_of_def fun_eq_iff)
qed

lemma map_of_update:
  assumes "distinct xs" and "inj_on f (set xs)" and "x \<in> set xs"
  shows "map_of (map (\<lambda>a. (f a, (g(x := v)) a)) xs) = (map_of (map (\<lambda>a. (f a, g a)) xs))(f x \<mapsto> v)"
  using assms
proof (induction xs)
  case (Cons y xs)
  show ?case
  proof (cases "y = x")
    case True
    then have eq: "map (\<lambda>a. (f a, (g(x := v)) a)) xs = map (\<lambda>a. (f a, g a)) xs" using Cons.prems(1) by (intro map_cong) auto
    show ?thesis unfolding list.map eq True by (simp add: fun_eq_iff)
  next
    case False
    then have "f y \<noteq> f x" using Cons.prems by (auto simp: inj_on_def)
    then show ?thesis using Cons False by (auto simp: fun_eq_iff)
  qed
qed simp

text \<open>A node whose links were cleared, outside of the tree.\<close>

definition cleared :: "NodeEntry \<Rightarrow> NodeEntry" where
  "cleared n = n\<lparr>lnk_parent := 0, lnk_left := 0, Next := 0, lnk_right := 0\<rparr>"

lemma cleared_simps [simp]:
  "lnk_parent (cleared n) = 0" "lnk_left (cleared n) = 0" "lnk_right (cleared n) = 0" "Key (cleared n) = Key n"
  "Value (cleared n) = Value n" "color (cleared n) = color n"
  by (simp_all add: cleared_def)

lemma rep_clear:
  assumes "rb_rep t T" and "node \<notin> set_tree T" and "nodes t node = Some n"
  defines "t0 \<equiv> t\<lparr>nodes := (nodes t)(node \<mapsto> cleared n)\<rparr>"
  shows "rb_rep t0 T" and "tree_map t0 T = tree_map t T"
proof -
  have same: "nodes t0 x = nodes t x" if "x \<in> set_tree T" for x using that assms(2) by (auto simp: t0_def)
  have L: "linked_tree (root t, nodes t0) T" "linked_tree (root t, nodes t) T"
    using assms(1) linked_cong [OF same] by (simp_all add: rb_rep_def tree_rep_def)
  have K: "key_of (nodes t0) x = key_of (nodes t) x" "val_of (nodes t0) x = val_of (nodes t) x" if "x \<in> set_tree T" for x
    using same [OF that] by (simp_all add: key_of_def val_of_def)
  have r: "is_red (nodes t0) (root t) = is_red (nodes t) (root t)"
  proof (cases T)
    case Leaf
    then have "root t = 0" using L(2) by (simp add: linked_tree_def)
    then show ?thesis by simp
  next
    case (Node l x s)
    then show ?thesis using L(2) same by (intro is_red_cong) (auto simp: linked_tree_def)
  qed
  have "rb (is_red (nodes t0)) h T = rb (is_red (nodes t)) h T" for h by (rule rb_cong) (simp_all add: is_red_def same)
  moreover have "keys_sorted (cmp t) (nodes t0) (inorder T) = keys_sorted (cmp t) (nodes t) (inorder T)"
    using K by (intro keys_sorted_cong) auto
  moreover have "root t0 = root t" "cmp t0 = cmp t" by (simp_all add: t0_def)
  ultimately show "rb_rep t0 T" using assms(1) L(1) r unfolding rb_rep_def tree_rep_def by simp
  show "tree_map t0 T = tree_map t T" using K by (intro tree_map_cong) auto
qed

lemma rep_root: "tree_rep t T \<Longrightarrow> root t = root_of T \<and> (root t = 0 \<longleftrightarrow> T = \<langle>\<rangle>)"
  using tree_at_nonzero [of "nodes t" 0 "root t" T] by (cases T) (auto simp: tree_rep_def linked_tree_def)

text \<open>What \<open>Put\<close> achieves: a red-black tree of the map with the new pair, on the old nodes and perhaps the new one.\<close>

definition put_done :: "uintptr \<Rightarrow> Tree \<Rightarrow> uintptr tree \<Rightarrow> NodeEntry \<Rightarrow> bool" where
  "put_done node t T n \<longleftrightarrow> (\<exists>t' T'. Put node t = Some (Inr (), t') \<and> rb_rep t' T' \<and> cmp t' = cmp t \<and>
     tree_map t' T' = (tree_map t T)(Key n \<mapsto> Value n) \<and>
     set_tree T' = (if tree_map t T (Key n) = None then insert node (set_tree T) else set_tree T) \<and>
     (\<forall>z. z \<notin> insert node (set_tree T) \<longrightarrow> nodes t' z = nodes t z))"

lemma Put_empty:
  assumes "rb_rep t \<langle>\<rangle>" and "nodes t node = Some n" and "node \<noteq> 0"
  shows "put_done node t \<langle>\<rangle> n"
proof -
  let ?t = "t\<lparr>nodes := (nodes t)(node \<mapsto> cleared n\<lparr>color := BLACK\<rparr>), root := node\<rparr>"
  have "root t = 0" using assms(1) rep_root by (auto simp: rb_rep_def)
  then have "Put node t = Some (Inr (), ?t)"
    using assms(2) by (simp add: Put_def upd_Some mustBeValidKey_def SetColor_def cleared_def)
  moreover have "linked_tree (root ?t, nodes ?t) \<langle>\<langle>\<rangle>, node, \<langle>\<rangle>\<rangle>" using assms(3) by (simp add: linked_tree_def)
  moreover have "\<not> is_red (nodes ?t) node" by (simp add: is_red_def)
  ultimately show ?thesis unfolding put_done_def
    by (intro exI [of _ ?t] exI [of _ "\<langle>\<langle>\<rangle>, node, \<langle>\<rangle>\<rangle>"])
       (auto simp: rb_rep_def tree_rep_def keys_sorted_def tree_map_def key_of_def val_of_def intro: exI [of _ "Suc 0"])
qed

context comparator
begin

lemma Put_found:
  assumes t: "rb_rep t T" "cmp t = cp" and n: "nodes t node = Some n" "node \<notin> set_tree T" and m: "tree_map t T (Key n) \<noteq> None"
  shows "put_done node t T n"
proof -
  define t0 where "t0 = t\<lparr>nodes := (nodes t)(node \<mapsto> cleared n)\<rparr>"
  have r0: "rb_rep t0 T" "tree_map t0 T = tree_map t T" using rep_clear [OF t(1) n(2,1)] by (simp_all add: t0_def)
  have "tree_rep t0 T" "cmp t0 = cp" using r0(1) t(2) by (simp_all add: rb_rep_def t0_def)
  then show ?thesis
  proof (cases rule: lookup_root [where k = "Key n"])
    case (found c l x r)
    have L: "linked_tree (root t0, nodes t0) (plug \<langle>l, x, r\<rangle> c)" using r0(1) found(1) by (simp add: rb_rep_def tree_rep_def)
    obtain xn where xn: "nodes t0 x = Some xn" using linked_node [OF L] by blast
    let ?N = "(nodes t0)(x \<mapsto> xn\<lparr>Value := Value n\<rparr>)" and ?t = "t0\<lparr>nodes := (nodes t0)(x \<mapsto> xn\<lparr>Value := Value n\<rparr>)\<rparr>"
    have ow: "overwrite (above c) (dir_of c) (Value n) (root t0, nodes t0) = Some ?N"
    proof (cases "c = []")
      case True
      then have "root t0 = x" using linked_root L by blast
      then show ?thesis using True xn by (simp add: overwrite_def upd_Some)
    next
      case False
      then show ?thesis using linked_above [OF L False] linked_child [OF L False] xn by (auto simp: overwrite_def upd_Some)
    qed
    have rt: "root t0 = root t" "root t \<noteq> 0" using rep_root [of t0 T] r0(1) found(1) set_plug [of "\<langle>l, x, r\<rangle>" c] by (auto simp: rb_rep_def t0_def)
    have "Put node t = Some (Inr (), ?t)"
      using n(1) rt found(3) ow t(2) by (simp add: Put_def upd_Some mustBeValidKey_def cleared_def [symmetric] t0_def)
    moreover note V = linked_value [OF L xn, of "Value n"]
    have "rb_rep ?t T" using r0(1) V(1,2) found(1) keys_sorted_cong [of "inorder T" ?N "nodes t0"] V(3) by (auto simp: rb_rep_def tree_rep_def)
    moreover have "tree_map ?t T = (tree_map t T)(Key n \<mapsto> Value n)"
    proof -
      have "distinct (inorder T)" "inj_on (key_of (nodes t0)) (set (inorder T))"
        using keys_distinct [of "nodes t0" "inorder T"] r0(1) t(2) by (auto simp: rb_rep_def tree_rep_def t0_def distinct_map)
      moreover have "x \<in> set (inorder T)" by (simp add: found(1) set_plug)
      ultimately show ?thesis using map_of_update [of "inorder T" "key_of (nodes t0)" x "val_of (nodes t0)" "Value n"] found(2) r0(2)
        by (simp add: tree_map_def V)
    qed
    moreover have "nodes ?t z = nodes t z" if "z \<notin> insert node (set_tree T)" for z
    proof -
      have "z \<noteq> x" using that by (auto simp: found(1) set_plug)
      then show ?thesis using that by (simp add: t0_def)
    qed
    ultimately show ?thesis using m unfolding put_done_def by (intro exI [of _ ?t] exI [of _ T]) (auto simp: t0_def)
  next
    case (absent c)
    then show ?thesis using m r0(2) by simp
  qed
qed

lemma Put_absent:
  assumes t: "rb_rep t T" "cmp t = cp" and n: "nodes t node = Some n" "node \<notin> set_tree T" "node \<noteq> 0" "color n = RED"
    and m: "tree_map t T (Key n) = None" and ne: "T \<noteq> \<langle>\<rangle>"
  shows "put_done node t T n"
proof -
  define t0 where "t0 = t\<lparr>nodes := (nodes t)(node \<mapsto> cleared n)\<rparr>"
  have r0: "rb_rep t0 T" "tree_map t0 T = tree_map t T" using rep_clear [OF t(1) n(2,1)] by (simp_all add: t0_def)
  have "tree_rep t0 T" "cmp t0 = cp" using r0(1) t(2) by (simp_all add: rb_rep_def t0_def)
  then obtain c where c: "T = plug \<langle>\<rangle> c" "fits cp (nodes t0) (Key n) c"
    "internalLookup cp (nodes t0) 0 (root t0) (Bytes (Key n)) NODIR = Some (False, above c, dir_of c)"
    using m r0(2) by (cases rule: lookup_root [where k = "Key n"]) auto
  have L: "linked_tree (root t0, nodes t0) (plug \<langle>\<rangle> c)" "c \<noteq> []" using r0(1) c(1) ne by (auto simp: rb_rep_def tree_rep_def)
  have nn: "nodes t0 node = Some (cleared n)" "node \<notin> path_nodes c" using n(2) c(1) by (simp_all add: t0_def set_plug)
  from hang_leaf [OF L nn n(3)] obtain N2 where H: "hangNode node (above c) (dir_of c) (nodes t0) = Some N2"
    "linked_tree (root t0, N2) (plug \<langle>\<langle>\<rangle>, node, \<langle>\<rangle>\<rangle> c)" "same_data (nodes t0) N2" "above c \<noteq> 0" "\<forall>z. z \<notin> insert node (path_nodes c) \<longrightarrow> N2 z = nodes t0 z" by auto
  have same: "is_red N2 = is_red (nodes t0)" "map_option entry_data (N2 z) = map_option entry_data (nodes t0 z)" for z
    using same_data_entry [OF H(3)] by (auto simp: fun_eq_iff)
  then have red: "is_red N2 = is_red (nodes t0)" "is_red N2 node" using nn(1) n(3,4) by (simp_all add: is_red_def)
  obtain h where "rb (is_red N2) h (plug \<langle>\<rangle> c)" "\<not> is_red N2 (root_of (plug \<langle>\<rangle> c))"
    using r0(1) rep_root [of t0 T] unfolding rb_rep_def c(1) red(1) by metis
  from rb_unplug [OF this] have "rb_path (is_red N2) 0 c" by auto
  moreover have "rb (is_red N2) 0 \<langle>\<langle>\<rangle>, node, \<langle>\<rangle>\<rangle>" using red(2) by simp
  ultimately have "put_fixed node (root t0, N2) (plug \<langle>\<langle>\<rangle>, node, \<langle>\<rangle>\<rangle> c)" using fixupPut_ok [OF H(2)] red(2) by blast
  then obtain rt' N' T' k where F: "fixupPut node (root t0, N2) = Some (rt', N')" "linked_tree (rt', N') T'"
    "inorder T' = lefts c @ node # rights c" "rb (is_red N') k T'" "\<not> is_red N' rt'" "kept (insert node (set_tree T)) N2 N'"
    unfolding put_fixed_def by (auto simp: inorder_plug set_plug c(1))
  have "key_of N2 = key_of (nodes t0)" "val_of N2 = val_of (nodes t0)"
    by (rule ext, rule entry_data_keys, rule same(2))+
  then have K: "key_of N' = key_of (nodes t0)" "val_of N' = val_of (nodes t0)" using kept_keys [OF F(6)] by simp_all
  have kn: "key_of (nodes t0) node = Key n" "val_of (nodes t0) node = Value n" by (simp_all add: key_of_def val_of_def nn(1))
  have "keys_sorted cp (nodes t0) (lefts c @ rights c)" using r0(1) t(2) by (auto simp: rb_rep_def tree_rep_def c(1) inorder_plug t0_def)
  then have S: "keys_sorted cp N' (inorder T')"
    using c(2) unfolding keys_sorted_def fits_def F(3) K by (auto simp: sorted_wrt_append kn)
  let ?t = "t0\<lparr>nodes := N', root := rt'\<rparr>"
  have "root t0 = root t" "root t \<noteq> 0" using rep_root [of t0 T] r0(1) ne by (auto simp: rb_rep_def t0_def)
  then have "Put node t = Some (Inr (), ?t)"
    using n(1) c(3) H(1,4) F(1) t(2) by (simp add: Put_def upd_Some mustBeValidKey_def cleared_def [symmetric] t0_def)
  moreover have "rb_rep ?t T'" using F(2,4,5) S t(2) by (auto simp: rb_rep_def tree_rep_def t0_def)
  moreover have "tree_map ?t T' = (tree_map t T)(Key n \<mapsto> Value n)"
  proof -
    have "key_of (nodes t0) x \<noteq> Key n" if "x \<in> set (lefts c)" for x using fits_absent [OF c(2)] that by simp
    then have "Key n \<notin> key_of (nodes t0) ` set (lefts c)" by force
    then have "tree_map ?t T' = (tree_map t0 T)(Key n \<mapsto> Value n)"
      by (simp add: tree_map_def F(3) K kn c(1) inorder_plug map_add_upd_left dom_map_of_conv_image_fst image_image)
    then show ?thesis by (simp add: r0(2))
  qed
  moreover have "set_tree T' = insert node (set_tree T)"
    using F(3) by (metis c(1) inorder_plug inorder.simps(1) append_Nil set_append set_inorder list.simps(15) Un_insert_right)
  moreover have "nodes ?t z = nodes t z" if "z \<notin> insert node (set_tree T)" for z
  proof -
    have "N' z = N2 z" using F(6) that by (auto simp: kept_def)
    moreover have "N2 z = nodes t0 z" using H(5) that by (simp add: c(1) set_plug)
    ultimately show ?thesis using that by (simp add: t0_def)
  qed
  ultimately show ?thesis using m unfolding put_done_def by (intro exI [of _ ?t] exI [of _ T']) (auto simp: t0_def)
qed

lemma Put_ok:
  assumes "rb_rep t T" and "cmp t = cp" and "nodes t node = Some n" and "node \<notin> set_tree T" and "node \<noteq> 0" and "color n = RED"
  shows "put_done node t T n"
proof (cases "T = \<langle>\<rangle>")
  case True
  then show ?thesis using Put_empty assms(1,3,5) by simp
next
  case False
  then show ?thesis using Put_found [OF assms(1-4)] Put_absent [OF assms] by blast
qed

end

end
