(* ===== verification/EntryCut.thy ===== *)
theory EntryCut
  imports EntryMap
begin

text \<open>
  \<open>Delete\<close> below the map: transplanting, the node that takes the place of a node with two children,
  and the colors after the cut. A red-black tree needs no round of \<open>fixupDelete\<close>.
\<close>

subsection \<open>Cutting a node out\<close>

lemma kept_mono: "A \<subseteq> B \<Longrightarrow> kept A N N' \<Longrightarrow> kept B N N'"
  by (auto simp: kept_def)

lemma transplant_step:
  assumes p: "path_at N rt z c" "z \<noteq> 0" "z \<notin> path_nodes c" "distinct (lefts c @ rights c)"
    and z: "N z = Some zn" "lnk_parent zn = above c" and v: "v = 0 \<or> N v = Some vn" "v \<noteq> z" "v \<notin> path_nodes c"
  shows "\<exists>rt' N'. transplant z v (rt, N) = Some (rt', N') \<and> path_at N' rt' v c \<and>
    (v \<noteq> 0 \<longrightarrow> N' v = Some (vn\<lparr>lnk_parent := above c\<rparr>)) \<and> (\<forall>x. x \<notin> path_nodes c \<and> (x \<noteq> v \<or> v = 0) \<longrightarrow> N' x = N x) \<and> same_data N N'"
proof -
  from childSwap_ok [OF p, of v] obtain rt' N1 where C: "childSwap (above c) z v (rt, N) = Some (rt', N1)" "path_at N1 rt' v c"
    "\<forall>x. x \<notin> path_nodes c \<longrightarrow> N1 x = N x" "same_data N N1" by blast
  have N1: "N1 z = Some zn" "v \<noteq> 0 \<longrightarrow> N1 v = Some vn" using C(3) p(3) z(1) v by auto
  show ?thesis
  proof (cases "v = 0")
    case True
    then show ?thesis using C z by (simp add: transplant_def Parent_def)
  next
    case False
    let ?N = "N1(v \<mapsto> vn\<lparr>lnk_parent := above c\<rparr>)"
    have "path_at ?N rt' v c = path_at N1 rt' v c" using v(3) by (intro path_at_cong) auto
    moreover have "same_data N ?N" by (rule same_data_upd [OF C(4) N1(2) [rule_format, OF False]]) simp
    moreover have "transplant z v (rt, N) = Some (rt', ?N)"
      using C(1) z N1 False by (simp add: transplant_def Parent_def set_parent_def upd_Some)
    ultimately show ?thesis using C(2,3) False by auto
  qed
qed

text \<open>A node with one child is replaced by the child.\<close>

lemma transplant_child:
  assumes T: "linked_tree (rt, N) (plug \<langle>l, z, r\<rangle> c)" and s: "(l = \<langle>\<rangle> \<and> s = r) \<or> (r = \<langle>\<rangle> \<and> s = l)"
  shows "\<exists>rt' N'. transplant z (root_of s) (rt, N) = Some (rt', N') \<and> linked_tree (rt', N') (plug s c) \<and>
    same_outside (set_tree (plug s c)) N N'"
proof -
  have D: "distinct (lefts c @ inorder \<langle>l, z, r\<rangle> @ rights c)" and P: "path_at N rt z c" using T by (simp_all add: linked_plug)
  have disj: "set_tree \<langle>l, z, r\<rangle> \<inter> path_nodes c = {}" by (rule plug_disjoint [OF D])
  obtain zn where zn: "N z = Some zn" "lnk_parent zn = above c" "z \<noteq> 0" using linked_node [OF T] by blast
  have "tree_at N z (lnk_left zn) l" "tree_at N z (lnk_right zn) r" using T zn(1) by (auto simp: linked_plug)
  then have S: "tree_at N z (root_of s) s" using s tree_at_root by metis
  then obtain vn where vn: "root_of s = 0 \<or> N (root_of s) = Some vn" by (cases s) (auto split: option.splits)
  have v: "root_of s \<noteq> z" "root_of s \<notin> path_nodes c"
    using disj D s zn(3) root_of_in [of s] path_at_nonzero [OF P] by auto
  have "z \<notin> path_nodes c" "distinct (lefts c @ rights c)" using disj D by auto
  from transplant_step [OF P zn(3) this zn(1,2) vn v] obtain rt' N' where R: "transplant z (root_of s) (rt, N) = Some (rt', N')"
    "path_at N' rt' (root_of s) c" "root_of s \<noteq> 0 \<longrightarrow> N' (root_of s) = Some (vn\<lparr>lnk_parent := above c\<rparr>)"
    "\<forall>x. x \<notin> path_nodes c \<and> (x \<noteq> root_of s \<or> root_of s = 0) \<longrightarrow> N' x = N x" "same_data N N'" by blast
  have "tree_at N' (above c) (root_of s) s"
  proof (cases s)
    case (Node sl v sr)
    then have V: "N v = Some vn" "v \<noteq> 0" "tree_at N v (lnk_left vn) sl" "tree_at N v (lnk_right vn) sr"
      using S vn by (auto split: option.splits)
    have "set_tree s \<inter> path_nodes c = {}" "distinct (inorder s)" using disj D s by auto
    then have e: "N' x = N x" if "x \<in> set_tree sl \<union> set_tree sr" for x using that R(4) Node by auto
    have "tree_at N' v (lnk_left vn) sl" "tree_at N' v (lnk_right vn) sr" using V(3,4) tree_at_cong [of _ N' N] e by auto
    then show ?thesis using R(3) Node V(2) by simp
  qed simp
  moreover have "distinct (lefts c @ inorder s @ rights c)" using D s by auto
  ultimately have "linked_tree (rt', N') (plug s c)" using R(2) by (simp add: linked_plug)
  moreover have "N' x = N x" if "x \<notin> set_tree (plug s c)" for x
    using R(4) that root_of_in [of s] by (auto simp: set_plug)
  ultimately show ?thesis using R(1,5) unfolding same_outside_def by blast
qed

lemma plug_append: "plug t (c @ d) = plug (plug t c) d"
  by (induction t c rule: plug.induct) auto

lemma lefts_append: "lefts (c @ d) = lefts d @ lefts c"
  by (induction c rule: lefts.induct) auto

lemma rights_append: "rights (c @ d) = rights c @ rights d"
  by (induction c rule: rights.induct) auto

lemma getMinimum_ok:
  assumes "tree_at N q a t" and "t \<noteq> \<langle>\<rangle>"
  shows "\<exists>y s d. t = plug \<langle>\<langle>\<rangle>, y, s\<rangle> d \<and> lefts d = [] \<and> getMinimum N a = Some y"
  using assms
proof (induction t arbitrary: q a)
  case (Node l x r)
  then obtain n where n: "N x = Some n" "a = x" "tree_at N x (lnk_left n) l" by (auto split: option.splits)
  show ?case
  proof (cases "l = \<langle>\<rangle>")
    case True
    then have "getMinimum N a = Some x" using n by (subst getMinimum.simps) simp
    then show ?thesis using True by (intro exI [of _ x] exI [of _ r] exI [of _ "[]"]) simp
  next
    case False
    then have "lnk_left n \<noteq> 0" using n(3) by (cases l) auto
    then have "getMinimum N a = getMinimum N (lnk_left n)" using n by (subst getMinimum.simps) simp
    moreover obtain y s d where "l = plug \<langle>\<langle>\<rangle>, y, s\<rangle> d" "lefts d = []" "getMinimum N (lnk_left n) = Some y"
      using Node.IH(1) [OF n(3) False] by blast
    ultimately show ?thesis by (intro exI [of _ y] exI [of _ s] exI [of _ "d @ [InLeft x r]"]) (simp add: plug_append lefts_append)
  qed
qed simp

text \<open>The node \<open>y\<close>, with its right subtree in place, takes the place, left subtree and color of \<open>z\<close>.\<close>

lemma replaceBy_ok:
  assumes P: "path_at N rt z c" and z: "N z = Some zn" "z \<noteq> 0" "lnk_parent zn = above c" "lnk_left zn = root_of l"
    and l: "tree_at N z (root_of l) l" "l \<noteq> \<langle>\<rangle>" and y: "N y = Some yn" "y \<noteq> 0" "tree_at N y (lnk_right yn) r"
    and D: "distinct (lefts c @ inorder l @ y # inorder r @ rights c)" "z \<notin> path_nodes c \<union> set_tree l \<union> set_tree r" "z \<noteq> y"
  shows "\<exists>rt' N'. replaceBy z y (rt, N) = Some (rt', N') \<and> linked_tree (rt', N') (plug \<langle>l, y, r\<rangle> c) \<and>
    is_red N' = (is_red N)(y := is_red N z) \<and> kept (set_tree (plug \<langle>l, y, r\<rangle> c)) N N'"
proof -
  have disj: "set_tree \<langle>l, y, r\<rangle> \<inter> path_nodes c = {}" using D(1) by (intro plug_disjoint) simp
  have "z \<notin> path_nodes c" "distinct (lefts c @ rights c)" "y \<noteq> z" "y \<notin> path_nodes c" "y = 0 \<or> N y = Some yn" using D disj y by auto
  from transplant_step [OF P z(2) this(1,2) z(1,3) this(5,3,4)] obtain rt' N1 where R: "transplant z y (rt, N) = Some (rt', N1)"
    "path_at N1 rt' y c" "N1 y = Some (yn\<lparr>lnk_parent := above c\<rparr>)"
    "\<forall>x. x \<notin> path_nodes c \<and> (x \<noteq> y \<or> y = 0) \<longrightarrow> N1 x = N x" "same_data N N1" using y(2) by blast
  have N1z: "N1 z = Some zn" using R(4) D z(1) by auto
  obtain ll a lr where L: "l = \<langle>ll, a, lr\<rangle>" using l(2) by (cases l) auto
  obtain an where a: "N a = Some an" "a \<noteq> 0" "tree_at N a (lnk_left an) ll" "tree_at N a (lnk_right an) lr"
    using l(1) L by (auto split: option.splits)
  have na: "a \<noteq> y" "a \<noteq> z" "a \<notin> path_nodes c" using D disj L by auto
  define N2 where "N2 = N1(y \<mapsto> yn\<lparr>lnk_parent := above c, lnk_left := a\<rparr>, a \<mapsto> an\<lparr>lnk_parent := y\<rparr>)"
  have N1a: "N1 a = Some an" using R(4) na a(1) by auto
  have sub: "tree_at N2 q b t = tree_at N q b t" if "set_tree t \<inter> ({y, a} \<union> path_nodes c) = {}" for q b t
  proof (rule tree_at_cong)
    fix x assume "x \<in> set_tree t"
    then have "x \<notin> path_nodes c" "x \<noteq> y" "x \<noteq> a" using that by auto
    then show "N2 x = N x" using R(4) by (simp add: N2_def)
  qed
  have "set_tree t \<inter> ({y, a} \<union> path_nodes c) = {}" if "t \<in> {ll, lr, r}" for t using that D(1) disj L by auto
  then have "tree_at N2 (above c) y \<langle>l, y, r\<rangle>" using sub [of ll] sub [of lr] sub [of r] a y(2,3) na(1) by (simp add: N2_def L)
  moreover have "path_at N2 rt' y c = path_at N1 rt' y c" using disj na(3) by (intro path_at_cong) (auto simp: N2_def)
  ultimately have T2: "linked_tree (rt', N2) (plug \<langle>l, y, r\<rangle> c)" using R(2) D(1) by (simp add: linked_plug)
  have "same_data N N2"
  proof -
    have "same_data N (N1(y \<mapsto> yn\<lparr>lnk_parent := above c, lnk_left := a\<rparr>))" by (rule same_data_upd [OF R(5,3)]) simp
    then show ?thesis unfolding N2_def by (rule same_data_upd [where n = an]) (use N1a na(1) in auto)
  qed
  moreover have "N2 x = N x" if "x \<notin> set_tree (plug \<langle>l, y, r\<rangle> c)" for x using that R(4) by (auto simp: N2_def set_plug L)
  ultimately have K: "kept (set_tree (plug \<langle>l, y, r\<rangle> c)) N N2" "is_red N2 = is_red N" using same_outside_kept unfolding same_outside_def by blast+
  have N2z: "N2 z = Some zn" using N1z na(2) D(3) by (simp add: N2_def)
  have gc: "get_color z N2 = Some (\<not> is_red N z)" using N2z z(1,2) by (simp add: get_color_def is_red_def)
  have "y \<in> set_tree (plug \<langle>l, y, r\<rangle> c)" by (simp add: set_plug)
  from SetColor_ok [OF T2 this, of "\<not> is_red N z"] obtain N3 where S: "SetColor y (\<not> is_red N z) N2 = Some N3"
    "linked_tree (rt', N3) (plug \<langle>l, y, r\<rangle> c)" "is_red N3 = (is_red N)(y := is_red N z)" "kept (set_tree (plug \<langle>l, y, r\<rangle> c)) N2 N3"
    unfolding K(2) by auto
  have "replaceBy z y (rt, N) = Some (rt', N3)"
    using R(1,3) N1z z(4) L na(1) N1a gc S(1) by (simp add: replaceBy_def upd_def Left_def N2_def)
  then show ?thesis using S(2,3) kept_trans [OF K(1) S(4)] by blast
qed

text \<open>The node \<open>y\<close> below \<open>z\<close> with its place taken by its child, hung over the rest of the right subtree of \<open>z\<close>.\<close>

lemma cut_two_children:
  assumes T: "linked_tree (rt, N) (plug \<langle>l, z, plug \<langle>\<langle>\<rangle>, y, s\<rangle> d\<rangle> c)" and l: "l \<noteq> \<langle>\<rangle>" and d: "lefts d = []"
    and m: "getMinimum N (root_of (plug \<langle>\<langle>\<rangle>, y, s\<rangle> d)) = Some y"
  shows "\<exists>rt' N'. cutNode z (rt, N) = Some (\<not> is_red N y, root_of s, rt', N') \<and> linked_tree (rt', N') (plug \<langle>l, y, plug s d\<rangle> c) \<and>
    is_red N' = (is_red N)(y := is_red N z) \<and> kept (insert z (set_tree (plug \<langle>l, y, plug s d\<rangle> c))) N N'"
proof -
  let ?r = "plug \<langle>\<langle>\<rangle>, y, s\<rangle> d"
  have D: "distinct (lefts c @ inorder l @ z # inorder s @ rights d @ rights c)" "y \<notin> set (inorder l) \<union> {z} \<union> set (inorder s @ rights d)"
    and P: "path_at N rt z c" and D': "distinct (lefts c @ inorder l @ y # inorder (plug s d) @ rights c)"
    and zd: "z \<notin> set (inorder (plug s d))" "z \<noteq> y"
    using T d by (auto simp: linked_plug inorder_plug)
  have disj: "z \<notin> path_nodes c" "y \<notin> path_nodes c" using T d set_lefts_rights [of c] by (auto simp: linked_plug inorder_plug)
  have r: "?r \<noteq> \<langle>\<rangle>" using set_plug [of "\<langle>\<langle>\<rangle>, y, s\<rangle>" d] by auto
  obtain zn where zn: "N z = Some zn" "lnk_left zn = root_of l" "lnk_right zn = root_of ?r" "lnk_parent zn = above c" "z \<noteq> 0"
    using linked_node [OF T] by blast
  have l0: "root_of l \<noteq> 0" "root_of ?r \<noteq> 0" using T l r tree_at_nonzero [of N "above c" z "\<langle>l, z, ?r\<rangle>"] root_of_in [of l] root_of_in [of ?r]
    by (auto simp: linked_plug simp del: tree_at.simps)
  have tl: "tree_at N z (root_of l) l" using T zn(1,2) by (auto simp: linked_plug)
  have Y: "linked_tree (rt, N) (plug \<langle>\<langle>\<rangle>, y, s\<rangle> (d @ InRight l z # c))" using T by (simp add: plug_append)
  obtain yn where yn: "N y = Some yn" "lnk_right yn = root_of s" "lnk_parent yn = above (d @ InRight l z # c)" "color yn = (\<not> is_red N y)" "y \<noteq> 0"
    using linked_node [OF Y] by blast
  have ts: "tree_at N y (root_of s) s" using Y yn(1,2) by (auto simp: linked_plug)
  show ?thesis
  proof (cases "d = []")
    case True
    have "set_parent (root_of s) y N = Some N" by (rule set_parent_same [OF ts])
    then have "cutNode z (rt, N) = Option.bind (replaceBy z y (rt, N)) (\<lambda>st. Some (\<not> is_red N y, root_of s, st))"
      using zn(1,2,3) l0 m yn(1,3,4) True unfolding cutNode_def by (simp add: yn(2))
    moreover have "\<exists>rt' N'. replaceBy z y (rt, N) = Some (rt', N') \<and> linked_tree (rt', N') (plug \<langle>l, y, s\<rangle> c) \<and>
      is_red N' = (is_red N)(y := is_red N z) \<and> kept (set_tree (plug \<langle>l, y, s\<rangle> c)) N N'"
      using replaceBy_ok [OF P zn(1,5,4,2) tl l yn(1,5) ts [folded yn(2)]] D' zd disj D True by simp
    ultimately show ?thesis using True kept_mono [OF subset_insertI] by (auto simp del: bind_Some_iff)
  next
    case False
    from transplant_child [OF Y, of s] obtain rt1 N1 where R: "transplant y (root_of s) (rt, N) = Some (rt1, N1)"
      "linked_tree (rt1, N1) (plug \<langle>l, z, plug s d\<rangle> c)" "same_outside (set_tree (plug \<langle>l, z, plug s d\<rangle> c)) N N1" by (auto simp: plug_append)
    have "y \<notin> set_tree (plug \<langle>l, z, plug s d\<rangle> c)" using D(2) disj d set_lefts_rights [of d] by (auto simp: set_plug)
    then have y1: "N1 y = Some yn" using R(3) yn(1) by (simp add: same_outside_def)
    define q where "q = root_of (plug s d)"
    have ne: "plug s d \<noteq> \<langle>\<rangle>" using False above_in [of d] set_plug [of s d] by auto
    obtain z1 where z1: "N1 z = Some z1" "lnk_left z1 = root_of l" "lnk_right z1 = q" "lnk_parent z1 = above c"
      using linked_node [OF R(2)] by (auto simp: q_def)
    have t1: "tree_at N1 z (root_of l) l" "tree_at N1 z q (plug s d)" "path_at N1 rt1 z c" using R(2) z1 by (auto simp: linked_plug)
    obtain ql qr where q: "plug s d = \<langle>ql, q, qr\<rangle>" using ne by (cases "plug s d") (auto simp: q_def)
    obtain qn where qn: "N1 q = Some qn" "q \<noteq> 0" "tree_at N1 q (lnk_left qn) ql" "tree_at N1 q (lnk_right qn) qr"
      using t1(2) unfolding q by (auto split: option.splits)
    define N2 where "N2 = N1(y \<mapsto> yn\<lparr>lnk_right := q\<rparr>, q \<mapsto> qn\<lparr>lnk_parent := y\<rparr>)"
    have nq: "q \<noteq> y" "q \<noteq> z" "q \<notin> path_nodes c" "q \<notin> set_tree l"
      using D' zd plug_disjoint [of c "\<langle>l, y, plug s d\<rangle>"] by (auto simp: q)
    have yq: "y \<notin> set_tree l" "y \<notin> set_tree ql" "y \<notin> set_tree qr" "q \<notin> set_tree ql" "q \<notin> set_tree qr"
      using D' by (auto simp: q)
    have sub: "tree_at N2 a b t = tree_at N1 a b t" if "t \<in> {l, ql, qr}" for a b t
      using that yq nq(4) by (intro tree_at_cong) (auto simp: N2_def)
    have "path_at N2 rt1 z c = path_at N1 rt1 z c" by (rule path_at_cong) (use disj(2) nq(3) in \<open>auto simp: N2_def\<close>)
    then have p2: "path_at N2 rt1 z c" using t1(3) by simp
    have n2: "N2 z = Some z1" "N2 y = Some (yn\<lparr>lnk_right := q\<rparr>)" using z1(1) zd(2) nq by (auto simp: N2_def)
    have l2: "tree_at N2 z (root_of l) l" using t1(1) sub by simp
    have r2: "tree_at N2 y (lnk_right (yn\<lparr>lnk_right := q\<rparr>)) (plug s d)" using qn sub [of ql] sub [of qr] by (simp add: q N2_def)
    have "same_data N1 (N1(y \<mapsto> yn\<lparr>lnk_right := q\<rparr>))" by (rule same_data_upd [where N = N1 and N' = N1 and n = yn, OF same_data_refl y1]) simp
    then have "same_data N1 N2" unfolding N2_def by (rule same_data_upd [where n = qn]) (use qn(1) nq(1) in auto)
    then have so: "same_outside (set_tree (plug \<langle>l, y, plug s d\<rangle> c)) N1 N2" by (auto simp: same_outside_def N2_def set_plug q)
    have "same_outside (set_tree (plug \<langle>l, y, plug s d\<rangle> c) \<union> {z}) N N1" using R(3) by (auto simp: same_outside_def set_plug)
    from same_outside_kept [OF this] same_outside_kept [OF so]
    have k: "is_red N2 = is_red N" "kept (insert z (set_tree (plug \<langle>l, y, plug s d\<rangle> c))) N N1" "kept (set_tree (plug \<langle>l, y, plug s d\<rangle> c)) N1 N2"
      by simp_all
    obtain rt' N' where B: "replaceBy z y (rt1, N2) = Some (rt', N')" "linked_tree (rt', N') (plug \<langle>l, y, plug s d\<rangle> c)"
      "is_red N' = (is_red N)(y := is_red N z)" "kept (set_tree (plug \<langle>l, y, plug s d\<rangle> c)) N2 N'"
      using replaceBy_ok [OF p2 n2(1) zn(5) z1(4,2) l2 l n2(2) yn(5) r2 D' _ zd(2)] disj(1) zd(1) D(1) k(1) by auto
    have "lnk_parent yn \<noteq> z"
    proof -
      have "above (d @ InRight l z # c) = above d" using False by (cases d rule: above.cases) auto
      moreover have "z \<notin> path_nodes d" using D(1) d set_lefts_rights [of d] by auto
      ultimately show ?thesis using yn(3) above_in [OF False] by auto
    qed
    then have "cutNode z (rt, N) = Some (\<not> is_red N y, root_of s, rt', N')"
      using zn(1,2,3) l0 m yn(1,2,4) R(1) z1(1,3) qn(1) y1 nq(1) B(1)
      by (simp add: cutNode_def Right_def upd_def N2_def)
    moreover have "kept (insert z (set_tree (plug \<langle>l, y, plug s d\<rangle> c))) N N'"
      using kept_trans [OF kept_trans [OF k(2) kept_mono [OF subset_insertI k(3)]] kept_mono [OF subset_insertI B(4)]] .
    ultimately show ?thesis using B(2,3) by blast
  qed
qed

subsection \<open>The node that leaves its place\<close>

fun leftmost_sub :: "'a tree \<Rightarrow> 'a tree" where
  "leftmost_sub \<langle>\<rangle> = \<langle>\<rangle>"
| "leftmost_sub \<langle>l, x, r\<rangle> = (if l = \<langle>\<rangle> then \<langle>l, x, r\<rangle> else leftmost_sub l)"

text \<open>
  The subtree whose root leaves its place when the root of a tree is deleted: the tree, or when the
  root has two children the leftmost subtree on its right.
\<close>

fun victim :: "'a tree \<Rightarrow> 'a tree" where
  "victim \<langle>\<rangle> = \<langle>\<rangle>"
| "victim \<langle>l, x, r\<rangle> = (if l = \<langle>\<rangle> \<or> r = \<langle>\<rangle> then \<langle>l, x, r\<rangle> else leftmost_sub r)"

fun black_leaf :: "entries \<Rightarrow> uintptr tree \<Rightarrow> bool" where
  "black_leaf N \<langle>\<rangle> = False"
| "black_leaf N \<langle>l, x, r\<rangle> = (l = \<langle>\<rangle> \<and> r = \<langle>\<rangle> \<and> \<not> is_red N x)"

definition one_child :: "'a tree \<Rightarrow> 'a tree \<Rightarrow> 'a tree \<Rightarrow> bool" where
  "one_child l r s \<longleftrightarrow> (l = \<langle>\<rangle> \<and> s = r) \<or> (r = \<langle>\<rangle> \<and> s = l)"

lemma leftmost_plug: "lefts d = [] \<Longrightarrow> t \<noteq> \<langle>\<rangle> \<Longrightarrow> leftmost_sub (plug t d) = leftmost_sub t"
  by (induction t d rule: plug.induct) auto

lemma root_plug: "c \<noteq> [] \<Longrightarrow> root_of (plug t c) = root_of (plug s c) \<and> root_of (plug t c) \<in> path_nodes c"
proof (induction c arbitrary: t s)
  case (Cons st c)
  show ?case
  proof (cases "c = []")
    case True
    then show ?thesis by (cases st) auto
  next
    case False
    then show ?thesis using Cons.IH by (cases st) auto
  qed
qed simp

text \<open>A node takes the place and the color of another on a path.\<close>

lemma rb_path_renamed:
  assumes "y \<notin> set_tree l \<union> path_nodes c \<union> path_nodes d" and "\<forall>st \<in> set d. \<exists>x r. st = InLeft x r" and "y \<noteq> 0" and "z \<noteq> 0"
    and "\<not> C 0"
  shows "rb_path (C(y := C z)) h (d @ InRight l y # c) = rb_path C h (d @ InRight l z # c)"
  using assms
proof (induction d arbitrary: h)
  case Nil
  let ?C = "C(y := C z)"
  have l: "rb ?C h l = rb C h l" for h using Nil by (intro rb_upd) auto
  have c: "rb_path ?C h c = rb_path C h c" for h using Nil set_lefts_rights [of c] by (intro rb_path_upd) auto
  have r: "?C (root_of l) = C (root_of l)" using Nil root_neq [of y l] by simp
  have a: "?C (above c) = C (above c)" using Nil above_in [of c] by (cases "c = []") auto
  have "?C y = C z" by simp
  with l c r a show ?case by (simp only: append_Nil rb_path.simps)
next
  case (Cons st d)
  then obtain x r where st: "st = InLeft x r" by auto
  have y: "y \<notin> set_tree r" "x \<noteq> y" "y \<notin> path_nodes d" using Cons.prems(1) st by auto
  have "(C(y := C z)) (above (d @ InRight l y # c)) = C (above (d @ InRight l z # c))"
    using y(3) above_in [of d] by (cases d rule: above.cases) auto
  moreover have "rb (C(y := C z)) h r = rb C h r" "(C(y := C z)) (root_of r) = C (root_of r)" "(C(y := C z)) x = C x"
    using y Cons.prems(3) root_neq [of y r] by (auto simp: rb_upd)
  moreover have "rb_path (C(y := C z)) h (d @ InRight l y # c) = rb_path C h (d @ InRight l z # c)" for h
    by (rule Cons.IH) (use Cons.prems st in simp_all)
  ultimately show ?case by (simp only: st append_Cons rb_path.simps) simp
qed

lemma lefts_empty: "lefts d = [] \<Longrightarrow> \<forall>st \<in> set d. \<exists>x r. st = InLeft x r"
  by (induction d rule: lefts.induct) auto

definition cut_done :: "uintptr \<Rightarrow> uintptr \<times> entries \<Rightarrow> uintptr tree \<Rightarrow> step list \<Rightarrow> bool" where
  "cut_done z s T c \<longleftrightarrow> (\<exists>l y r u e e' rt N. victim T = \<langle>l, y, r\<rangle> \<and> one_child l r u \<and> plug \<langle>l, y, r\<rangle> e = plug T c \<and>
     cutNode z s = Some (\<not> is_red (snd s) y, root_of u, rt, N) \<and> linked_tree (rt, N) (plug u e') \<and>
     inorder (plug u e') = removeAll z (inorder (plug T c)) \<and> kept (insert z (set_tree (plug u e'))) (snd s) N \<and>
     (\<forall>h. rb_path (is_red N) h e' = rb_path (is_red (snd s)) h e) \<and> (\<forall>h. rb (is_red N) h u = rb (is_red (snd s)) h u) \<and>
     (e' = [] \<longleftrightarrow> e = []) \<and> is_red N (root_of u) = is_red (snd s) (root_of u) \<and> is_red N (above e') = is_red (snd s) (above e) \<and>
     (e \<noteq> [] \<longrightarrow> is_red N (root_of (plug u e')) = is_red (snd s) (root_of (plug T c))))"

lemma removeAll_path: "distinct (xs @ z # ys) \<Longrightarrow> removeAll z (xs @ z # ys) = xs @ ys"
  by (auto simp: removeAll_id)

lemma cut_one_child:
  assumes T: "linked_tree (rt, N) (plug \<langle>l, z, r\<rangle> c)" and e: "l = \<langle>\<rangle> \<or> r = \<langle>\<rangle>"
  shows "cut_done z (rt, N) \<langle>l, z, r\<rangle> c"
proof -
  define u where "u = (if l = \<langle>\<rangle> then r else l)"
  have u: "(l = \<langle>\<rangle> \<and> u = r) \<or> (r = \<langle>\<rangle> \<and> u = l)" using e by (auto simp: u_def)
  obtain zn where zn: "N z = Some zn" "lnk_left zn = root_of l" "lnk_right zn = root_of r" "color zn = (\<not> is_red N z)"
    using linked_node [OF T] by blast
  from transplant_child [OF T u] obtain rt' N' where R: "transplant z (root_of u) (rt, N) = Some (rt', N')" "linked_tree (rt', N') (plug u c)"
    "same_outside (set_tree (plug u c)) N N'" by blast
  have "tree_at N z (root_of l) l" using T zn(1,2) by (auto simp: linked_plug)
  then have "root_of l = 0 \<longleftrightarrow> l = \<langle>\<rangle>" by (cases l) (auto split: option.splits)
  then have "cutNode z (rt, N) = Some (\<not> is_red N z, root_of u, rt', N')"
    using zn R(1) e by (auto simp: cutNode_def u_def)
  moreover have "distinct (lefts c @ inorder \<langle>l, z, r\<rangle> @ rights c)" using T by (simp add: linked_plug)
  then have "inorder (plug u c) = removeAll z (inorder (plug \<langle>l, z, r\<rangle> c))"
    using u removeAll_path [of "lefts c @ inorder l" z "inorder r @ rights c"] by (auto simp: inorder_plug)
  moreover have "is_red N' = is_red N" "kept (insert z (set_tree (plug u c))) N N'"
    using same_outside_kept [OF R(3)] kept_mono [OF subset_insertI] by auto
  moreover have "c \<noteq> [] \<longrightarrow> root_of (plug u c) = root_of (plug \<langle>l, z, r\<rangle> c)" using root_plug by metis
  ultimately show ?thesis using e u R(2) unfolding cut_done_def
    by (intro exI [of _ l] exI [of _ z] exI [of _ r] exI [of _ u] exI [of _ c] exI [of _ rt'] exI [of _ N'])
       (auto simp: one_child_def)
qed

lemma cutNode_ok:
  assumes T: "linked_tree (rt, N) (plug \<langle>l, z, r\<rangle> c)"
  shows "cut_done z (rt, N) \<langle>l, z, r\<rangle> c"
proof (cases "l = \<langle>\<rangle> \<or> r = \<langle>\<rangle>")
  case True
  then show ?thesis using cut_one_child T by blast
next
  case False
  obtain zn where zn: "N z = Some zn" "lnk_right zn = root_of r" using linked_node [OF T] by blast
  have "tree_at N z (root_of r) r" using T zn by (auto simp: linked_plug)
  then obtain y u d where M: "r = plug \<langle>\<langle>\<rangle>, y, u\<rangle> d" "lefts d = []" "getMinimum N (root_of r) = Some y"
    using getMinimum_ok False by blast
  let ?e = "d @ InRight l z # c" and ?e' = "d @ InRight l y # c"
  from cut_two_children [OF T [unfolded M(1)] _ M(2) M(3) [unfolded M(1)]] False obtain rt' N' where
    R: "cutNode z (rt, N) = Some (\<not> is_red N y, root_of u, rt', N')" "linked_tree (rt', N') (plug \<langle>l, y, plug u d\<rangle> c)"
    "is_red N' = (is_red N)(y := is_red N z)" "kept (insert z (set_tree (plug \<langle>l, y, plug u d\<rangle> c))) N N'" by auto
  have D: "distinct (lefts c @ inorder l @ z # y # inorder u @ rights d @ rights c)" "y \<noteq> 0" "z \<noteq> 0"
    using T M(2) tree_at_nonzero [of N "above c" z "\<langle>l, z, r\<rangle>"] by (auto simp: linked_plug M(1) inorder_plug set_plug simp del: tree_at.simps)
  have P: "plug u ?e' = plug \<langle>l, y, plug u d\<rangle> c" "plug \<langle>\<langle>\<rangle>, y, u\<rangle> ?e = plug \<langle>l, z, r\<rangle> c" by (simp_all add: plug_append M(1))
  have y: "y \<notin> set_tree l \<union> path_nodes c \<union> path_nodes d" "y \<notin> set_tree u"
    using D(1) M(2) set_lefts_rights [of c] set_lefts_rights [of d] by auto
  have "rb_path (is_red N') h ?e' = rb_path (is_red N) h ?e" for h
    unfolding R(3) by (rule rb_path_renamed) (use y(1) D lefts_empty [OF M(2)] in simp_all)
  moreover have "rb (is_red N') h u = rb (is_red N) h u" for h using y(2) D(2) by (simp add: R(3) paint_simps)
  moreover have "is_red N' (root_of u) = is_red N (root_of u)" using y(2) D(2) by (simp add: R(3) paint_simps)
  moreover have "is_red N' (above ?e') = is_red N (above ?e)" using y(1) above_in [of d] R(3) by (cases d rule: above.cases) auto
  moreover have "inorder (plug u ?e') = removeAll z (inorder (plug \<langle>l, z, r\<rangle> c))"
    using removeAll_path [of "lefts c @ inorder l" z "y # inorder u @ rights d @ rights c"] D(1) M
    by (simp add: P(1) inorder_plug M(1) del: removeAll_append)
  moreover have "is_red N' (root_of (plug u ?e')) = is_red N (root_of (plug \<langle>l, z, r\<rangle> c))"
  proof (cases "c = []")
    case True
    then have "root_of (plug u ?e') = y" "root_of (plug \<langle>l, z, r\<rangle> c) = z" unfolding P(1) by simp_all
    then show ?thesis by (simp add: R(3))
  next
    case False
    then have "root_of (plug u ?e') = root_of (plug \<langle>l, z, r\<rangle> c)" "root_of (plug \<langle>l, z, r\<rangle> c) \<noteq> y"
      using root_plug [OF False] y(1) unfolding P(1) by blast+
    then show ?thesis by (simp add: R(3))
  qed
  moreover have "victim \<langle>l, z, r\<rangle> = \<langle>\<langle>\<rangle>, y, u\<rangle>" using False M leftmost_plug [of d "\<langle>\<langle>\<rangle>, y, u\<rangle>"] by simp
  ultimately show ?thesis using R(1,2,4) P unfolding cut_done_def
    by (intro exI [of _ "\<langle>\<rangle>"] exI [of _ y] exI [of _ u] exI [of _ u] exI [of _ ?e] exI [of _ ?e'] exI [of _ rt'] exI [of _ N'])
       (simp add: one_child_def)
qed

subsection \<open>Colors after the cut\<close>

lemma rb_unique: "rb C h t \<Longrightarrow> rb C h' t \<Longrightarrow> h = h'"
proof (induction t arbitrary: h h')
  case (Node l x r)
  then show ?case
  proof (cases "C x")
    case False
    then have "h - 1 = h' - 1" "0 < h" "0 < h'" using Node by auto
    then show ?thesis by simp
  qed auto
qed simp

lemma rb_path_unique: "c \<noteq> [] \<Longrightarrow> rb_path C h c \<Longrightarrow> rb_path C h' c \<Longrightarrow> h = h'"
  using rb_unique by (cases c rule: above.cases) auto

lemma rb_one_child:
  assumes "rb C h \<langle>l, y, r\<rangle>" and "one_child l r u"
  shows "(C y \<longrightarrow> h = 0 \<and> l = \<langle>\<rangle> \<and> r = \<langle>\<rangle>) \<and> (\<not> C y \<longrightarrow> h = 1) \<and> rb C 0 u \<and> (u = \<langle>\<rangle> \<longleftrightarrow> l = \<langle>\<rangle> \<and> r = \<langle>\<rangle>)"
proof -
  have "t = \<langle>\<rangle>" if "rb C 0 t" "\<not> C (root_of t)" for t using that by (cases t) auto
  then show ?thesis using assms unfolding one_child_def by (cases "C y") auto
qed

lemma rb_zero: "rb C 0 u \<Longrightarrow> u \<noteq> \<langle>\<rangle> \<Longrightarrow> \<exists>x. u = \<langle>\<langle>\<rangle>, x, \<langle>\<rangle>\<rangle> \<and> C x"
proof -
  have "t = \<langle>\<rangle>" if "rb C 0 t" "\<not> C (root_of t)" for t using that by (cases t) auto
  then show "rb C 0 u \<Longrightarrow> u \<noteq> \<langle>\<rangle> \<Longrightarrow> \<exists>x. u = \<langle>\<langle>\<rangle>, x, \<langle>\<rangle>\<rangle> \<and> C x" by (cases u) (auto split: if_splits)
qed

lemma fixupDelete_red:
  assumes "linked_tree (rt, N) T" and "x \<in> set_tree T" and "is_red N x"
  shows "\<exists>N'. fixupDelete x (rt, N) = Some (rt, N') \<and> linked_tree (rt, N') T \<and> is_red N' = (is_red N)(x := False) \<and> kept (set_tree T) N N'"
proof -
  have "get_color x N = Some RED" "x \<noteq> 0" using assms(3) by (auto simp: is_red_def get_color_def)
  then have "fixupDeleteLoop x (rt, N) = Some (x, rt, N)" by (subst fixupDeleteLoop.simps) simp
  then show ?thesis using SetColor_ok [OF assms(1,2), of BLACK] \<open>x \<noteq> 0\<close> by (auto simp: fixupDelete_def)
qed

definition rb_black :: "uintptr \<times> entries \<Rightarrow> uintptr tree \<Rightarrow> bool" where
  "rb_black s T \<longleftrightarrow> (\<exists>h. rb (is_red (snd s)) h T) \<and> \<not> is_red (snd s) (root_of T)"

text \<open>The cut and the fix after it: the tree without \<open>z\<close>, red-black again unless it lost a black leaf.\<close>

definition delete_fixed :: "uintptr \<Rightarrow> uintptr \<times> entries \<Rightarrow> uintptr tree \<Rightarrow> step list \<Rightarrow> bool" where
  "delete_fixed z s T c \<longleftrightarrow> (\<exists>b x s1 s' T'. cutNode z s = Some (b, x, s1) \<and>
     (if b = BLACK then fixupDelete x s1 else Some s1) = Some s' \<and> linked_tree s' T' \<and>
     inorder T' = removeAll z (inorder (plug T c)) \<and> kept (insert z (set_tree T')) (snd s) (snd s') \<and>
     (rb_black s' T' \<longleftrightarrow> \<not> black_leaf (snd s) (victim T) \<or> T' = \<langle>\<rangle>))"

lemma delete_fixed_ok:
  assumes T: "linked_tree (rt, N) (plug \<langle>l, z, r\<rangle> c)" and B: "rb_black (rt, N) (plug \<langle>l, z, r\<rangle> c)"
  shows "delete_fixed z (rt, N) \<langle>l, z, r\<rangle> c"
proof -
  from cutNode_ok [OF T] obtain l1 y r1 u e e' rt1 N1 where V: "victim \<langle>l, z, r\<rangle> = \<langle>l1, y, r1\<rangle>" "one_child l1 r1 u"
    "plug \<langle>l1, y, r1\<rangle> e = plug \<langle>l, z, r\<rangle> c" and K: "cutNode z (rt, N) = Some (\<not> is_red N y, root_of u, rt1, N1)"
    "linked_tree (rt1, N1) (plug u e')" "inorder (plug u e') = removeAll z (inorder (plug \<langle>l, z, r\<rangle> c))"
    "kept (insert z (set_tree (plug u e'))) N N1" and C: "\<forall>h. rb_path (is_red N1) h e' = rb_path (is_red N) h e"
    "\<forall>h. rb (is_red N1) h u = rb (is_red N) h u" "e' = [] \<longleftrightarrow> e = []" "is_red N1 (root_of u) = is_red N (root_of u)"
    "is_red N1 (above e') = is_red N (above e)"
    "e \<noteq> [] \<longrightarrow> is_red N1 (root_of (plug u e')) = is_red N (root_of (plug \<langle>l, z, r\<rangle> c))"
    unfolding cut_done_def snd_conv by (elim exE conjE) (rule that)
  obtain k where k: "rb (is_red N) k (plug \<langle>l1, y, r1\<rangle> e)" "\<not> is_red N (root_of (plug \<langle>l1, y, r1\<rangle> e))"
    using B unfolding rb_black_def V(3) by auto
  from rb_unplug [OF k] obtain h where h: "rb (is_red N) h \<langle>l1, y, r1\<rangle>" "rb_path (is_red N) h e"
    "is_red N y \<longrightarrow> e \<noteq> [] \<and> \<not> is_red N (above e)" by auto
  note one = rb_one_child [OF h(1) V(2)]
  have black: "\<not> is_red N1 (root_of (plug u e'))" if "e \<noteq> []" using C(6) k(2) that unfolding V(3) by simp
  have leaf: "black_leaf N (victim \<langle>l, z, r\<rangle>) \<longleftrightarrow> u = \<langle>\<rangle> \<and> \<not> is_red N y" using one V(1) by auto
  consider (red) "is_red N y" | (leaf) "\<not> is_red N y" "u = \<langle>\<rangle>" | (child) "\<not> is_red N y" "u \<noteq> \<langle>\<rangle>" by blast
  then show ?thesis
  proof cases
    case red
    then have u: "h = 0" "u = \<langle>\<rangle>" using one by auto
    then have "rb (is_red N1) 0 u" "rb_path (is_red N1) 0 e'" "e \<noteq> []" using C(1) h(2,3) red by auto
    then have "rb_black (rt1, N1) (plug u e')" using rb_plug [of "is_red N1" 0 u e'] black u(2) by (auto simp: rb_black_def)
    then show ?thesis using K red leaf unfolding delete_fixed_def by auto
  next
    case leaf
    have "\<not> rb_black (rt1, N1) (plug u e')" if "e \<noteq> []"
    proof
      assume "rb_black (rt1, N1) (plug u e')"
      then obtain k' where "rb (is_red N1) k' (plug \<langle>\<rangle> e')" "\<not> is_red N1 (root_of (plug \<langle>\<rangle> e'))" using leaf(2) by (auto simp: rb_black_def)
      from rb_unplug [OF this] have "rb_path (is_red N) 0 e" using C(1) by auto
      then show False using rb_path_unique [OF that h(2)] one leaf(1) by auto
    qed
    moreover have "plug u e' = \<langle>\<rangle> \<longleftrightarrow> e = []" using C(3) leaf(2) above_in [of e'] set_plug [of u e'] by auto
    moreover have "rb_black s \<langle>\<rangle>" for s by (auto simp: rb_black_def)
    moreover have "fixupDelete (root_of u) (rt1, N1) = Some (rt1, N1)" using leaf(2) by (simp add: fixupDelete_def)
    ultimately show ?thesis using K \<open>black_leaf N _ \<longleftrightarrow> _\<close> leaf unfolding delete_fixed_def
      by (intro exI [of _ BLACK] exI [of _ "root_of u"] exI [of _ "(rt1, N1)"] exI [of _ "plug u e'"]) auto
  next
    case child
    obtain x where x: "u = \<langle>\<langle>\<rangle>, x, \<langle>\<rangle>\<rangle>" "is_red N x" using one child(2) rb_zero by blast
    then have "is_red N1 x" "x \<in> set_tree (plug u e')" using C(4) by (simp_all add: set_plug)
    from fixupDelete_red [OF K(2) this(2,1)] obtain N2 where F: "fixupDelete x (rt1, N1) = Some (rt1, N2)"
      "linked_tree (rt1, N2) (plug u e')" "is_red N2 = (is_red N1)(x := False)" "kept (set_tree (plug u e')) N1 N2" by blast
    have xe: "x \<notin> path_nodes e'" "x \<noteq> 0" using F(2) plug_disjoint [of e' u] by (auto simp: linked_plug x(1))
    then have "rb_path (is_red N2) 1 e' = rb_path (is_red N1) 1 e'"
      unfolding F(3) using set_lefts_rights [of e'] by (intro rb_path_upd) auto
    then have "rb_path (is_red N2) 1 e'" using C(1) h(2) one child(1) by simp
    moreover have "rb (is_red N2) 1 u" by (simp add: x(1) F(3))
    ultimately obtain k' where "rb (is_red N2) k' (plug u e')" using rb_plug [of "is_red N2" 1 u e'] F(3) x(1) by auto
    moreover have "\<not> is_red N2 (root_of (plug u e'))" using black C(3) F(3) x(1) by (cases "e = []") auto
    ultimately have "rb_black (rt1, N2) (plug u e')" by (auto simp: rb_black_def)
    moreover have "kept (insert z (set_tree (plug u e'))) N N2" using kept_trans [OF K(4) kept_mono [OF subset_insertI F(4)]] .
    ultimately show ?thesis using K(1,3) F(1,2) \<open>black_leaf N _ \<longleftrightarrow> _\<close> child x(1) unfolding delete_fixed_def
      by (intro exI [of _ BLACK] exI [of _ x] exI [of _ "(rt1, N1)"] exI [of _ "(rt1, N2)"] exI [of _ "plug u e'"]) simp
  qed
qed

end
