(* ===== verification/EntryTree.thy ===== *)
theory EntryTree
  imports EntryCut
begin

text \<open>
  The operations of entry.go as seen from outside: maps, sequences of insertions, the height, the
  visitors, and calls that panic or never return.
\<close>

subsection \<open>Deletion on the map\<close>

definition delete_done :: "uintptr \<Rightarrow> Tree \<Rightarrow> uintptr tree \<Rightarrow> uintptr tree \<Rightarrow> bool" where
  "delete_done z t T u \<longleftrightarrow> (\<exists>t' T'. Delete (key_of (nodes t) z) t = Some (z, t') \<and> tree_rep t' T' \<and> cmp t' = cmp t \<and>
     inorder T' = removeAll z (inorder T) \<and> tree_map t' T' = (tree_map t T)(key_of (nodes t) z := None) \<and>
     (\<forall>x. x \<notin> set_tree T \<longrightarrow> nodes t' x = nodes t x) \<and> (rb_rep t' T' \<longleftrightarrow> \<not> black_leaf (nodes t) u \<or> T' = \<langle>\<rangle>))"

lemma rb_rep_black: "rb_rep t T \<longleftrightarrow> tree_rep t T \<and> rb_black (root t, nodes t) T"
  using rep_root [of t T] by (auto simp: rb_rep_def rb_black_def)

lemma map_of_removeAll:
  assumes "distinct (map f xs)" and "z \<in> set xs"
  shows "map_of (map (\<lambda>a. (f a, g a)) (removeAll z xs)) = (map_of (map (\<lambda>a. (f a, g a)) xs))(f z := None)"
  using assms
proof (induction xs)
  case (Cons x xs)
  show ?case
  proof (cases "x = z")
    case True
    then have "z \<notin> set xs" "f z \<notin> f ` set xs" using Cons.prems(1) by auto
    then have "map_of (map (\<lambda>a. (f a, g a)) xs) (f z) = None" by (auto simp: map_of_eq_None_iff image_image)
    then show ?thesis using True \<open>z \<notin> set xs\<close> by (auto simp: fun_eq_iff)
  next
    case False
    then have "f x \<noteq> f z" using Cons.prems by auto
    then show ?thesis using False Cons by (auto simp: fun_upd_twist)
  qed
qed simp

context comparator
begin

lemma Delete_absent:
  assumes "tree_rep t T" and "cmp t = cp" and "tree_map t T k = None"
  shows "Delete k t = Some (0, t)"
  using Get_ok(2) [OF assms(1,2), of k] assms(3) by (simp add: Delete_def)

lemma getNode_key:
  assumes "tree_rep t T" and "cmp t = cp" and "z \<in> set_tree T"
  shows "getNode (Bytes (key_of (nodes t) z)) t = Some (True, z)"
proof -
  have "distinct (map (key_of (nodes t)) (inorder T))" using keys_distinct assms by (auto simp: tree_rep_def)
  then have "inj_on (key_of (nodes t)) (set_tree T)" by (simp add: distinct_map)
  then show ?thesis using getNode_ok [OF assms(1,2), of "key_of (nodes t) z"] assms(3) tree_map_None [of t T]
    by (auto dest: inj_onD)
qed

lemma Delete_ok:
  assumes t: "rb_rep t T" "cmp t = cp" and T: "T = plug \<langle>l, z, r\<rangle> c"
  shows "delete_done z t T (victim \<langle>l, z, r\<rangle>)"
proof -
  have R: "tree_rep t T" "linked_tree (root t, nodes t) (plug \<langle>l, z, r\<rangle> c)" "rb_black (root t, nodes t) (plug \<langle>l, z, r\<rangle> c)"
    using t(1) T unfolding rb_rep_black by (auto simp: tree_rep_def)
  have z: "z \<in> set_tree T" by (simp add: T set_plug)
  let ?k = "key_of (nodes t) z"
  have has: "Has (Bytes ?k) t = Some True" using Get_ok(2) [OF R(1) t(2)] tree_map_Some [OF R(1) t(2) z] by simp
  from delete_fixed_ok [OF R(2,3)] obtain b x s1 s' T' where F: "cutNode z (root t, nodes t) = Some (b, x, s1)"
    "(if b = BLACK then fixupDelete x s1 else Some s1) = Some s'" "linked_tree s' T'"
    "inorder T' = removeAll z (inorder T)" "kept (insert z (set_tree T')) (nodes t) (snd s')"
    "rb_black s' T' \<longleftrightarrow> \<not> black_leaf (nodes t) (victim \<langle>l, z, r\<rangle>) \<or> T' = \<langle>\<rangle>"
    unfolding delete_fixed_def T [symmetric] snd_conv by (elim exE conjE) (rule that)
  obtain rt' N' where "s' = (rt', N')" by (cases s')
  note D = F [unfolded this snd_conv]
  let ?t = "t\<lparr>root := rt', nodes := N'\<rparr>"
  have "Delete ?k t = Some (z, ?t)"
    using has getNode_key [OF R(1) t(2) z] D(1,2) by (simp add: Delete_def del: bind_Some_iff)
  moreover have K: "key_of N' = key_of (nodes t)" "val_of N' = val_of (nodes t)" using kept_keys [OF D(5)] by simp_all
  have "keys_sorted cp (nodes t) (inorder T)" using R(1) t(2) by (simp add: tree_rep_def)
  then have "keys_sorted cp N' (inorder T')" "distinct (map (key_of (nodes t)) (inorder T))"
    using keys_distinct unfolding D(4) by (auto simp: keys_sorted_def K sorted_wrt_filter removeAll_filter_not_eq)
  then have "tree_rep ?t T'" "tree_map ?t T' = (tree_map t T)(?k := None)"
    using D(3,4) t(2) z map_of_removeAll [of "key_of (nodes t)" "inorder T" z] by (simp_all add: tree_rep_def tree_map_def K)
  moreover have "nodes ?t x = nodes t x" if "x \<notin> set_tree T" for x
  proof -
    have "set_tree T' = set_tree T - {z}" using D(4) by (metis set_inorder set_removeAll)
    then show ?thesis using D(5) z that by (auto simp: kept_def)
  qed
  moreover have "rb_rep ?t T' \<longleftrightarrow> \<not> black_leaf (nodes t) (victim \<langle>l, z, r\<rangle>) \<or> T' = \<langle>\<rangle>"
    using D(6) \<open>tree_rep ?t T'\<close> by (simp add: rb_rep_black)
  ultimately show ?thesis unfolding delete_done_def using D(4) by (intro exI [of _ ?t] exI [of _ T']) simp
qed

end

subsection \<open>Sequences of insertions\<close>

primrec PutAll :: "uintptr list \<Rightarrow> Tree \<Rightarrow> Tree option" where
  "PutAll [] t = Some t"
| "PutAll (node # ns) t = Option.bind (Put node t) (\<lambda>(e, t). PutAll ns t)"

text \<open>Nodes ready to be put: allocated, with the zero color of a new node.\<close>

definition fresh_entry :: "entries \<Rightarrow> uintptr \<Rightarrow> bool" where
  "fresh_entry N a \<longleftrightarrow> a \<noteq> 0 \<and> (\<exists>n. N a = Some n \<and> color n = RED)"

context comparator
begin

lemma PutAll_ok:
  assumes "rb_rep t T" and "cmp t = cp" and "distinct ns" and "set ns \<inter> set_tree T = {}" and "\<forall>a \<in> set ns. fresh_entry (nodes t) a"
  shows "\<exists>t' T'. PutAll ns t = Some t' \<and> rb_rep t' T' \<and> cmp t' = cp \<and> set_tree T' \<subseteq> set_tree T \<union> set ns \<and>
    tree_map t' T' = tree_map t T ++ map_of (rev (map (\<lambda>a. (key_of (nodes t) a, val_of (nodes t) a)) ns))"
  using assms
proof (induction ns arbitrary: t T)
  case (Cons a ns)
  obtain n where n: "nodes t a = Some n" "a \<noteq> 0" "color n = RED" using Cons.prems(5) by (auto simp: fresh_entry_def)
  have "put_done a t T n" using Cons.prems(1,2,4) n by (intro Put_ok) auto
  then obtain t1 T1 where P: "Put a t = Some (Inr (), t1)" "rb_rep t1 T1" "cmp t1 = cmp t"
    "tree_map t1 T1 = (tree_map t T)(Key n \<mapsto> Value n)" "set_tree T1 \<subseteq> insert a (set_tree T)"
    "\<forall>z. z \<notin> insert a (set_tree T) \<longrightarrow> nodes t1 z = nodes t z" by (auto simp: put_done_def split: if_splits)
  have same: "nodes t1 x = nodes t x" if "x \<in> set ns" for x using P(6) Cons.prems(3,4) that by auto
  have kv: "key_of (nodes t1) x = key_of (nodes t) x" "val_of (nodes t1) x = val_of (nodes t) x" if "x \<in> set ns" for x
    using same [OF that] by (simp_all add: key_of_def val_of_def)
  have "\<forall>x \<in> set ns. fresh_entry (nodes t1) x" using same Cons.prems(5) by (simp add: fresh_entry_def)
  moreover have "set ns \<inter> set_tree T1 = {}" using P(5) Cons.prems(3,4) by auto
  ultimately obtain t' T' where R: "PutAll ns t1 = Some t'" "rb_rep t' T'" "cmp t' = cp" "set_tree T' \<subseteq> set_tree T1 \<union> set ns"
    "tree_map t' T' = tree_map t1 T1 ++ map_of (rev (map (\<lambda>a. (key_of (nodes t1) a, val_of (nodes t1) a)) ns))"
    using Cons.IH [OF P(2)] P(3) Cons.prems(2,3) by auto
  have m: "map (\<lambda>a. (key_of (nodes t1) a, val_of (nodes t1) a)) ns = map (\<lambda>a. (key_of (nodes t) a, val_of (nodes t) a)) ns"
    using kv by simp
  have "key_of (nodes t) a = Key n" "val_of (nodes t) a = Value n" using n(1) by (simp_all add: key_of_def val_of_def)
  then have "tree_map t' T' = tree_map t T ++ map_of (rev (map (\<lambda>a. (key_of (nodes t) a, val_of (nodes t) a)) (a # ns)))"
    by (simp add: R(5) P(4) m map_add_def fun_eq_iff split: option.splits)
  moreover have "set_tree T' \<subseteq> set_tree T \<union> set (a # ns)" using R(4) P(5) by auto
  ultimately show ?case using P(1) R(1-3) by (intro exI [of _ t'] exI [of _ T']) simp
qed (auto intro: exI)

end

lemma rb_rep_height:
  assumes "rb_rep t T"
  shows "2 ^ height T \<le> (size T + 1)\<^sup>2"
proof -
  obtain h where h: "rb (is_red (nodes t)) h T" "\<not> is_red (nodes t) (root t)" using assms by (auto simp: rb_rep_def)
  have "root t = root_of T" using assms rep_root by (auto simp: rb_rep_def)
  then have "height T \<le> 2 * h" using rb_height [OF h(1)] h(2) by simp
  then have "(2::nat) ^ height T \<le> 2 ^ (2 * h)" by (simp add: power_increasing)
  also have "\<dots> = (2 ^ h)\<^sup>2" by (simp add: power_mult power_even_eq mult.commute)
  also have "\<dots> \<le> (size T + 1)\<^sup>2" using rb_size [OF h(1)] by (intro power_mono) (simp_all add: size1_size)
  finally show ?thesis .
qed

subsection \<open>Visits\<close>

fun shape_string :: "entries \<Rightarrow> uintptr tree \<Rightarrow> uint8 list" where
  "shape_string N \<langle>\<rangle> = [46]"
| "shape_string N \<langle>l, x, r\<rangle> = [40] @ shape_string N l @ key_of N x @ shape_string N r @ [41]"

lemma countingVisit_ok: "tree_at N q a t \<Longrightarrow> countingVisit a N n = Some (n + of_nat (size t))"
proof (induction t arbitrary: q a n)
  case (Node l x r)
  then obtain e where e: "N x = Some e" "a = x" "x \<noteq> 0" "tree_at N x (lnk_left e) l" "tree_at N x (lnk_right e) r"
    by (auto split: option.splits)
  show ?case using Node.IH(1) [OF e(4)] Node.IH(2) [OF e(5)] e(1-3) by (subst countingVisit.simps) simp
qed (simp add: countingVisit.simps)

lemma inorderVisit_ok: "tree_at N q a t \<Longrightarrow> inorderVisit a N buf = Some (buf @ shape_string N t)"
proof (induction t arbitrary: q a buf)
  case (Node l x r)
  then obtain e where e: "N x = Some e" "a = x" "x \<noteq> 0" "tree_at N x (lnk_left e) l" "tree_at N x (lnk_right e) r"
    by (auto split: option.splits)
  show ?case using Node.IH(1) [OF e(4)] Node.IH(2) [OF e(5)] e(1-3) by (subst inorderVisit.simps) (simp add: key_of_def)
qed (simp add: inorderVisit.simps)

lemma hookVisit_ok:
  assumes "tree_at N q a t" and "\<And>x s. x \<in> set_tree t \<Longrightarrow> hook x (N, s) = Some (N, f x s)"
  shows "hookVisit hook a (N, s) = Some (N, fold f (preorder t) s)"
  using assms
proof (induction t arbitrary: q a s)
  case (Node l x r)
  then obtain e where e: "N x = Some e" "a = x" "x \<noteq> 0" "tree_at N x (lnk_left e) l" "tree_at N x (lnk_right e) r"
    by (auto split: option.splits)
  have "hookVisit hook (lnk_left e) (N, s) = Some (N, fold f (preorder l) s)" "hookVisit hook (lnk_right e) (N, s) = Some (N, fold f (preorder r) s)" for s
    using Node.IH e Node.prems(2) by auto
  then show ?case using e(1-3) Node.prems(2) by (subst hookVisit.simps) simp
qed (simp add: hookVisit.simps)

subsection \<open>Where the loop of the deletion stays\<close>

text \<open>A black node that is not the root, has a parent and no black or red sibling.\<close>

definition lonely :: "uintptr \<Rightarrow> uintptr \<times> entries \<Rightarrow> bool" where
  "lonely x s \<longleftrightarrow> x \<noteq> 0 \<and> x \<noteq> fst s \<and> get_color x (snd s) = Some BLACK \<and>
     (case Parent x (snd s) of None \<Rightarrow> False
      | Some p \<Rightarrow> (case snd s p of None \<Rightarrow> False
        | Some pn \<Rightarrow> (x = lnk_right pn \<and> lnk_left pn = 0) \<or> (x = lnk_left pn \<and> lnk_right pn = 0)))"

lemma lonely_round:
  assumes "lonely x s"
  obtains p pn where "get_color x (snd s) = Some BLACK" and "Parent x (snd s) = Some p" and "snd s p = Some pn" and "x \<noteq> fst s"
    and "(if x = lnk_right pn then delFixRight x s else if x = lnk_left pn then delFixLeft x s else Some (x, s)) = Some (x, s)"
proof -
  obtain p pn where p: "Parent x (snd s) = Some p" "snd s p = Some pn"
    "(x = lnk_right pn \<and> lnk_left pn = 0) \<or> (x = lnk_left pn \<and> lnk_right pn = 0)"
    using assms by (auto simp: lonely_def split: option.splits)
  have "x \<noteq> 0" "x \<noteq> fst s" "get_color x (snd s) = Some BLACK" using assms by (simp_all add: lonely_def)
  moreover have "delFixRight x s = Some (x, s)" if "lnk_left pn = 0"
    using that p by (cases s) (simp add: delFixRight_def Left_def isRed_def)
  moreover have "delFixLeft x s = Some (x, s)" if "lnk_right pn = 0"
    using that p by (cases s) (simp add: delFixLeft_def Right_def isRed_def)
  ultimately show thesis using that p by auto
qed

lemma fixupDeleteLoop_lonely:
  assumes "lonely x s"
  shows "fixupDeleteLoop x s = None"
proof -
  have "\<not> (x' = x \<and> s' = s)" if "fixupDeleteLoop x' s' = Some r" for x' s' r
  proof (rule fixupDeleteLoop.raw_induct [where P = "\<lambda>x' s' r. \<not> (x' = x \<and> s' = s)" and xa = "(x', s')" and y = r, unfolded prod.case, OF _ that])
    fix loop x' s' r
    assume IH: "\<And>x' s' r. loop x' s' = Some r \<Longrightarrow> \<not> (x' = x \<and> s' = s)"
      and body: "(if x' = fst s' then Some (x', s')
      else Option.bind (get_color x' (snd s')) (\<lambda>c.
        if c = RED then Some (x', s')
        else Option.bind (Parent x' (snd s')) (\<lambda>p.
          Option.bind (snd s' p) (\<lambda>pn.
            Option.bind
              (if x' = lnk_right pn then delFixRight x' s'
               else if x' = lnk_left pn then delFixLeft x' s'
               else Some (x', s'))
              (\<lambda>(x, rN). loop x rN))))) = Some r"
    show "\<not> (x' = x \<and> s' = s)"
    proof
      assume e: "x' = x \<and> s' = s"
      obtain p pn where P: "get_color x (snd s) = Some BLACK" "Parent x (snd s) = Some p" "snd s p = Some pn" "x \<noteq> fst s"
        "(if x = lnk_right pn then delFixRight x s else if x = lnk_left pn then delFixLeft x s else Some (x, s)) = Some (x, s)"
        using lonely_round [OF assms] .
      have "loop x s = Some r" using body unfolding e [THEN conjunct1] e [THEN conjunct2] P(1-3) Option.bind.bind_lunit P(5) split_conv
        using P(4) by simp
      then show False using IH by blast
    qed
  qed
  then show ?thesis by (metis option.exhaust)
qed

lemma fixupDelete_lonely: "lonely x s \<Longrightarrow> fixupDelete x s = None"
  using fixupDeleteLoop_lonely [of x s] by (simp add: fixupDelete_def lonely_def)

text \<open>A sequence of calls: \<open>Inl\<close> puts a node, \<open>Inr\<close> deletes a key.\<close>

primrec Calls :: "(uintptr + uint8 list) list \<Rightarrow> Tree \<Rightarrow> Tree option" where
  "Calls [] t = Some t"
| "Calls (c # cs) t = Option.bind (case c of Inl node \<Rightarrow> map_option snd (Put node t) | Inr key \<Rightarrow> map_option snd (Delete key t)) (Calls cs)"

definition one_byte_nodes :: entries where
  "one_byte_nodes = (\<lambda>a. if a \<in> {1, 2, 3, 4, 5, 6, 7} then Some \<lparr>lnk_left = 0, lnk_right = 0, lnk_parent = 0,
     Key = [ucast a], Value = [ucast a], Hash = 0, Next = 0, color = RED\<rparr> else None)"

definition hang_calls :: "(uintptr + uint8 list) list" where
  "hang_calls = [Inl 1, Inl 5, Inl 3, Inl 2, Inr [5], Inl 4, Inl 6, Inl 7, Inr [7], Inr [4]]"

lemma hang_calls_lonely:
  "(case Calls hang_calls (NewTreeWith BytesAscSort\<lparr>nodes := one_byte_nodes\<rparr>) of None \<Rightarrow> False
    | Some t \<Rightarrow> Has (Bytes [3]) t = Some True \<and> (case getNode (Bytes [3]) t of None \<Rightarrow> False
      | Some (found, z) \<Rightarrow> (case cutNode z (root t, nodes t) of None \<Rightarrow> False | Some (c, x, s) \<Rightarrow> c = BLACK \<and> lonely x s)))"
  by code_simp

lemma Delete_lonely:
  assumes "Has (Bytes k) t = Some True" and "getNode (Bytes k) t = Some (found, z)"
    and "cutNode z (root t, nodes t) = Some (BLACK, x, s)" and "lonely x s"
  shows "Delete k t = None"
  using assms fixupDelete_lonely by (simp add: Delete_def)

subsection \<open>Properties\<close>

text \<open>
  C25: the trees of the visitors: Size counts the nodes of a linked tree modulo 2 ^ 64, and the
  in-order visitor writes an opening bracket, the left subtree, the key, the right subtree and a
  closing bracket, with a dot for nil.
\<close>
theorem visitors_follow_shape:
  assumes "linked_tree (root t, nodes t) T"
  shows "Size t = Some (of_nat (size T)) \<and> inorderVisit (root t) (nodes t) buf = Some (buf @ shape_string (nodes t) T)"
  using assms countingVisit_ok [of "nodes t" 0 "root t" T 0] inorderVisit_ok [of "nodes t" 0 "root t" T buf]
  by (simp add: linked_tree_def Size_def Walk_def)

text \<open>
  C23: for every comparator that orders the keys, Get on a search tree returns the value of the
  node whose key is the given one, and Has whether there is one.
\<close>
theorem Get_refines:
  assumes "comparator (cmp t)" and "tree_rep t T"
  shows "Get k t = Some (case tree_map t T k of None \<Rightarrow> (False, []) | Some v \<Rightarrow> (True, v)) \<and>
    Has (Bytes k) t = Some (tree_map t T k \<noteq> None)"
  using comparator.Get_ok [OF assms refl] by blast

text \<open>
  C11: Put of a new red node in a red-black search tree returns, the result is again a red-black
  search tree, its map is updated at the key of the node, and only nodes of the tree and the new one
  change; the new node is in the tree iff its key was not.
\<close>
theorem Put_refines:
  assumes "comparator (cmp t)" and "rb_rep t T" and "nodes t node = Some n" and "node \<notin> set_tree T" and "node \<noteq> 0"
    and "color n = RED"
  shows "\<exists>t' T'. Put node t = Some (Inr (), t') \<and> rb_rep t' T' \<and> cmp t' = cmp t \<and>
     tree_map t' T' = (tree_map t T)(Key n \<mapsto> Value n) \<and>
     set_tree T' = (if tree_map t T (Key n) = None then insert node (set_tree T) else set_tree T) \<and>
     (\<forall>z. z \<notin> insert node (set_tree T) \<longrightarrow> nodes t' z = nodes t z)"
  using comparator.Put_ok [OF assms(1,2) refl assms(3-6)] unfolding put_done_def .

text \<open>
  C12: Delete of a key that a red-black search tree holds always returns: the node of the key
  leaves the tree, the map forgets the key and nothing else, and no node outside the tree changes.
  The result is red-black again exactly when the place that was cut was not that of a black leaf, or
  the tree is empty; Delete of any other key changes nothing.
\<close>
theorem Delete_refines:
  assumes "comparator (cmp t)" and "rb_rep t T" and "T = plug \<langle>l, z, r\<rangle> c"
  shows "(\<exists>t' T'. Delete (key_of (nodes t) z) t = Some (z, t') \<and> tree_rep t' T' \<and> cmp t' = cmp t \<and>
      inorder T' = removeAll z (inorder T) \<and> tree_map t' T' = (tree_map t T)(key_of (nodes t) z := None) \<and>
      (\<forall>x. x \<notin> set_tree T \<longrightarrow> nodes t' x = nodes t x) \<and>
      (rb_rep t' T' \<longleftrightarrow> \<not> black_leaf (nodes t) (victim \<langle>l, z, r\<rangle>) \<or> T' = \<langle>\<rangle>)) \<and>
    (\<forall>k. tree_map t T k = None \<longrightarrow> Delete k t = Some (0, t))"
  using comparator.Delete_ok [OF assms(1,2) refl assms(3)] comparator.Delete_absent [OF assms(1) _ refl] assms(2)
  unfolding delete_done_def rb_rep_def by blast

text \<open>
  C21: from the empty tree, any sequence of Puts of distinct new nodes succeeds; the tree stays
  red-black, its height is logarithmic in the number of nodes (two to the height is at most the
  square of the size plus one), and Get then returns for every key the value of the last node put with that key.
\<close>
theorem PutAll_get:
  assumes "comparator c" and "distinct ns" and "\<forall>a \<in> set ns. fresh_entry N a"
  shows "\<exists>t T. PutAll ns (NewTreeWith c\<lparr>nodes := N\<rparr>) = Some t \<and> rb_rep t T \<and> 2 ^ height T \<le> (size T + 1)\<^sup>2 \<and>
    (\<forall>k. Get k t = Some (case map_of (rev (map (\<lambda>a. (key_of N a, val_of N a)) ns)) k of None \<Rightarrow> (False, []) | Some v \<Rightarrow> (True, v)))"
proof -
  let ?t = "NewTreeWith c\<lparr>nodes := N\<rparr>"
  have "rb_rep ?t \<langle>\<rangle>" "tree_map ?t \<langle>\<rangle> = Map.empty" "cmp ?t = c"
    by (auto simp: NewTreeWith_def rb_rep_def tree_rep_def linked_tree_def keys_sorted_def tree_map_def)
  with comparator.PutAll_ok [OF assms(1), of ?t "\<langle>\<rangle>" ns] assms(2,3) obtain t T where P: "PutAll ns ?t = Some t" "rb_rep t T" "cmp t = c"
    "tree_map t T = map_of (rev (map (\<lambda>a. (key_of N a, val_of N a)) ns))" by auto
  then have "tree_rep t T" by (simp add: rb_rep_def)
  then show ?thesis using P rb_rep_height [OF P(2)] comparator.Get_ok(1) [OF assms(1)] by (intro exI [of _ t] exI [of _ T]) auto
qed

text \<open>
  C22: ten calls on a tree of the exported constructor with the exported byte comparator, seven
  insertions of new nodes and three deletions, lead to a tree that has the key 3 and where
  Delete of it never returns: fixupDelete finds a black node with a nil sibling and goes round.
\<close>
theorem Delete_may_hang:
  "\<exists>t. Calls hang_calls (NewTreeWith BytesAscSort\<lparr>nodes := one_byte_nodes\<rparr>) = Some t \<and>
    Has (Bytes [3]) t = Some True \<and> Delete [3] t = None"
  using hang_calls_lonely Delete_lonely by (fastforce split: option.splits prod.splits)

text \<open>
  C24: with the comparator NewTree installs, Get, Put and Delete on a tree that is not empty all
  panic, for every key: it takes integers, and the keys of a tree are byte slices.
\<close>
theorem NewTree_comparator_panics:
  assumes "cmp t = cmp NewTree" and "root t \<noteq> 0" and "nodes t (root t) = Some rn" and "nodes t node = Some n"
  shows "Get k t = None \<and> Delete k t = None \<and> Put node t = None"
  using assms
  by (simp add: NewTree_def Get_def Delete_def Put_def Has_def getNode_def GetParent_def mustBeValidKey_def upd_def
      internalLookup.simps [of IntComparator])

subsection \<open>Witnesses\<close>

text \<open>A tree of the keys 1, 2 and 3: the black root 2 and two red leaves; a second one with black leaves.\<close>

definition entry_at :: "uintptr \<Rightarrow> uintptr \<Rightarrow> uintptr \<Rightarrow> Color \<Rightarrow> uint8 \<Rightarrow> NodeEntry" where
  "entry_at l r p c k = \<lparr>lnk_left = l, lnk_right = r, lnk_parent = p, Key = [k], Value = [k], Hash = 0, Next = 0, color = c\<rparr>"

definition three_nodes :: "Color \<Rightarrow> Tree" where
  "three_nodes c = \<lparr>root = 2, nodes = [2 \<mapsto> entry_at 1 3 0 BLACK 2, 1 \<mapsto> entry_at 0 0 2 c 1, 3 \<mapsto> entry_at 0 0 2 c 3,
     4 \<mapsto> entry_at 0 0 0 RED 4], cmp = BytesAscSort\<rparr>"

abbreviation single :: "uintptr \<Rightarrow> uintptr tree" where
  "single a \<equiv> \<langle>\<langle>\<rangle>, a, \<langle>\<rangle>\<rangle>"

abbreviation three_shape :: "uintptr tree" where
  "three_shape \<equiv> \<langle>single 1, 2, single 3\<rangle>"

lemma three_nodes_rep: "rb_rep (three_nodes c) three_shape"
proof -
  have "tree_rep (three_nodes c) three_shape"
    by (simp add: three_nodes_def entry_at_def tree_rep_def linked_tree_def keys_sorted_def key_less_def key_of_def)
  moreover have "rb (is_red (nodes (three_nodes c))) (if c then 2 else 1) three_shape" "\<not> is_red (nodes (three_nodes c)) (root (three_nodes c))"
    by (cases c; simp add: three_nodes_def entry_at_def is_red_def)+
  ultimately show ?thesis unfolding rb_rep_def by blast
qed

lemma visitors_follow_shape_witness:
  "Size (three_nodes RED) = Some (of_nat (size three_shape)) \<and>
   inorderVisit (root (three_nodes RED)) (nodes (three_nodes RED)) [] = Some ([] @ shape_string (nodes (three_nodes RED)) three_shape)"
  by (rule visitors_follow_shape) (use three_nodes_rep [of RED] in \<open>simp add: rb_rep_def tree_rep_def\<close>)

lemma Get_refines_witness: "Get [3] (three_nodes RED) = Some (True, [3]) \<and> Has (Bytes [5]) (three_nodes RED) = Some False"
proof -
  have "comparator (cmp (three_nodes RED))" by (simp add: three_nodes_def asc.comparator_axioms)
  moreover have "tree_rep (three_nodes RED) three_shape" using three_nodes_rep by (simp add: rb_rep_def)
  moreover have "tree_map (three_nodes RED) three_shape [3] = Some [3]" "tree_map (three_nodes RED) three_shape [5] = None"
    by (simp_all add: tree_map_def three_nodes_def entry_at_def key_of_def val_of_def)
  ultimately show ?thesis using Get_refines [of "three_nodes RED" three_shape "[3]"] Get_refines [of "three_nodes RED" three_shape "[5]"] by simp
qed

lemma Put_refines_witness:
  "\<exists>t' T'. Put 4 (three_nodes RED) = Some (Inr (), t') \<and> rb_rep t' T' \<and> set_tree T' = {1, 2, 3, 4} \<and>
     tree_map t' T' = (tree_map (three_nodes RED) three_shape)([4] \<mapsto> [4])"
proof -
  have c: "comparator (cmp (three_nodes RED))" by (simp add: three_nodes_def asc.comparator_axioms)
  have n: "nodes (three_nodes RED) 4 = Some (entry_at 0 0 0 RED 4)" by (simp add: three_nodes_def)
  have e: "Key (entry_at 0 0 0 RED 4) = [4]" "Value (entry_at 0 0 0 RED 4) = [4]" "color (entry_at 0 0 0 RED 4) = RED" by (simp_all add: entry_at_def)
  have m: "tree_map (three_nodes RED) three_shape [4] = None" by (simp add: tree_map_def three_nodes_def entry_at_def key_of_def)
  have "4 \<notin> set_tree three_shape" "(4::uintptr) \<noteq> 0" by simp_all
  from Put_refines [OF c three_nodes_rep n this e(3)] show ?thesis unfolding e(1,2) m by (simp add: insert_commute) blast
qed

text \<open>The red leaf 3 goes and the tree stays red-black; of the tree with black leaves it does not.\<close>

lemma Delete_refines_witness:
  "(\<exists>t' T'. Delete [3] (three_nodes RED) = Some (3, t') \<and> inorder T' = [1, 2] \<and> rb_rep t' T') \<and>
   (\<exists>t' T'. Delete [3] (three_nodes BLACK) = Some (3, t') \<and> inorder T' = [1, 2] \<and> tree_rep t' T' \<and> \<not> rb_rep t' T')"
proof -
  have c: "comparator (cmp (three_nodes c))" for c by (simp add: three_nodes_def asc.comparator_axioms)
  have T: "three_shape = plug (single 3) [InRight (single 1) 2]" by simp
  have k: "key_of (nodes (three_nodes c)) 3 = [3]" "removeAll 3 (inorder three_shape) = [1, 2]"
    "black_leaf (nodes (three_nodes c)) (victim (single 3)) \<longleftrightarrow> c = BLACK" for c
    by (simp_all add: three_nodes_def entry_at_def key_of_def is_red_def)
  have D: "\<exists>t' T'. Delete [3] (three_nodes c) = Some (3, t') \<and> inorder T' = [1, 2] \<and> tree_rep t' T' \<and> (rb_rep t' T' \<longleftrightarrow> c \<noteq> BLACK)" for c
  proof -
    from Delete_refines [OF c [of c] three_nodes_rep T, THEN conjunct1] obtain t' T' where "Delete [3] (three_nodes c) = Some (3, t')"
      "inorder T' = [1, 2]" "tree_rep t' T'" "rb_rep t' T' \<longleftrightarrow> c \<noteq> BLACK \<or> T' = \<langle>\<rangle>" unfolding k by blast
    moreover from this(2) have "T' \<noteq> \<langle>\<rangle>" by auto
    ultimately show ?thesis by blast
  qed
  from D [of RED] D [of BLACK] show ?thesis by auto
qed

lemma PutAll_get_witness:
  "\<exists>t. PutAll [1, 2, 3] (NewTreeWith BytesAscSort\<lparr>nodes := one_byte_nodes\<rparr>) = Some t \<and> Get [2] t = Some (True, [2]) \<and> Get [9] t = Some (False, [])"
proof -
  have "\<forall>a \<in> set [1, 2, 3]. fresh_entry one_byte_nodes a" by (simp add: fresh_entry_def one_byte_nodes_def)
  moreover have "distinct [1, 2, 3 :: uintptr]" by simp
  ultimately obtain t where P: "PutAll [1, 2, 3] (NewTreeWith BytesAscSort\<lparr>nodes := one_byte_nodes\<rparr>) = Some t"
    and G: "\<forall>k. Get k t = Some (case map_of (rev (map (\<lambda>a. (key_of one_byte_nodes a, val_of one_byte_nodes a)) [1, 2, 3])) k of
      None \<Rightarrow> (False, []) | Some v \<Rightarrow> (True, v))"
    using PutAll_get [OF asc.comparator_axioms] by blast
  have "Get [2] t = Some (True, [2])" "Get [9] t = Some (False, [])"
    using G by (simp_all add: key_of_def val_of_def one_byte_nodes_def)
  then show ?thesis using P by blast
qed

lemma NewTree_comparator_panics_witness:
  "Get [7] (three_nodes RED\<lparr>cmp := IntComparator\<rparr>) = None \<and> Delete [7] (three_nodes RED\<lparr>cmp := IntComparator\<rparr>) = None \<and>
   Put 4 (three_nodes RED\<lparr>cmp := IntComparator\<rparr>) = None"
  by (rule NewTree_comparator_panics) (simp_all add: NewTree_def three_nodes_def)

end
