(* ===== verification/Spec2Isabelle.thy ===== *)
theory Spec2Isabelle
  imports LinkedList ClassLists EntryTree
begin

text \<open>
  xmm is a memory manager for Go programs that keep data outside the collected heap. This
  development models the package at the root of the repository and proves what its layers
  promise each other, and where a promise is broken.

  \<^bold>\<open>The program.\<close> From the operating system up:
    \<^item> the metadata pool (raw_memory.go) maps regions of 128 MB and hands out blocks of them by a
      bump index; the allocators of metadata_alloc.go and the bit maps of bit_map.go take their
      memory from it;
    \<^item> the linear address space (linear_alloc.go) reserves regions for the user's data and maps them
      as they are used;
    \<^item> the heap (heap.go) cuts the address space into runs of pages: free runs are chunks in a treap
      (trees.go, chunk.go), used runs are spans (span.go), and page tables lead from an address to
      its span;
    \<^item> a span holds objects of one size class (metadata.go), found by a search for set bits
      (common.go); the class (class_span.go) keeps the spans not in use in two lists (common.go);
    \<^item> the span pool (span_pool.go) serves requests from the spans in use, and grows them in the
      background; strings (string_alloc.go) and the interface (xmm.go) pass requests on to it;
    \<^item> apart from all this, entry.go is a red-black tree of key-value nodes that belong to the caller;
    \<^item> Free marks the object of an address; from time to time the sweep (heap.go) gives the marked
      objects of used-up spans back to their class.

  \<^bold>\<open>The model.\<close> Words of 64, 32 and 8 bits stand for the machine integers, so every wrap-around of
  the code is in the definitions. Memory is a partial map from addresses to bytes
  (\<^verbatim>\<open>Machine\<close>); structs that are reached by pointers live in stores, maps from their addresses to
  records with the source's fields, and 0 is nil. A function of the code is a definition with its
  name, with the state as its last argument; \<^verbatim>\<open>None\<close> is a panic or a call that does not return,
  \<^verbatim>\<open>Inl\<close> an error the code returns. The records of state extend each other as the layers do: the
  pool, the treap, the heap, the span pool. The operating system is a parameter \<^verbatim>\<open>os\<close>: what mmap
  answers is a function of the number of the call, and the theorems that need it assume that a
  mapping does not overlap an older one. Time and the draws of random priorities are arguments.
  Loops that may not end are \<^verbatim>\<open>partial_function (option)\<close>, so no fuel is used anywhere; loops over
  a count or a list are structural.

  \<^bold>\<open>The theories.\<close>
    \<^item> \<^verbatim>\<open>Prelude\<close>, \<^verbatim>\<open>Blocks\<close>: words, lists, blocks of addresses; a locale for a layer that hands out
      blocks, whose lemmas (no two blocks of a run overlap) serve the metadata pool, the linear
      address space, the heap, one span, and Alloc of the span pool, each by its own interpretation.
    \<^item> \<^verbatim>\<open>Common\<close>, \<^verbatim>\<open>SizeClass\<close>: the arithmetic of common.go, the tables of metadata.go, and the class of
      a request (span_pool.go). Ctz64 counts trailing zeroes; a request gets the smallest class that
      holds it; the multiply-and-shift division is division on the pages of a span.
    \<^item> \<^verbatim>\<open>Machine\<close>, \<^verbatim>\<open>RawMemory\<close>, \<^verbatim>\<open>MetaAlloc\<close>: memory and system calls, raw_memory.go, metadata_alloc.go.
      The invariant of the pool, the disjointness of its blocks, what happens at a failed growth, and
      the fixed allocator that runs over the end of its region.
    \<^item> \<^verbatim>\<open>BitMap\<close>, \<^verbatim>\<open>Span\<close>: bit_map.go and span.go. The view of a bit map as a set of objects; the cache
      invariant of the search for a free object; a span serves all its objects once; marks and
      their count.
    \<^item> \<^verbatim>\<open>SpanList\<close>: mSpanList of common.go as chains in the store; insert, moveHead, move.
    \<^item> \<^verbatim>\<open>LinearAlloc\<close>: linear_alloc.go, with its bounds and its wrap-arounds.
    \<^item> \<^verbatim>\<open>PtrTree\<close>, \<^verbatim>\<open>Treap\<close>, \<^verbatim>\<open>TreapSpec\<close>: trees with parent links in a store, trees.go, and its refinement
      of an ordered list of chunks: insertion, removal, best fit, iteration.
    \<^item> \<^verbatim>\<open>Heap\<close>, \<^verbatim>\<open>ClassSpan\<close>, \<^verbatim>\<open>Sweep\<close>: heap.go, raw_linear_memory.go, class_span.go and the functions of
      bit_map.go and span.go that need the heap. Definitions only.
    \<^item> \<^verbatim>\<open>SpanPool\<close>, \<^verbatim>\<open>Facade\<close>: span_pool.go, string_alloc.go, xmm.go. Definitions only.
    \<^item> \<^verbatim>\<open>PageTable\<close>, \<^verbatim>\<open>Chunks\<close>: setSpans and spanOf are inverse; the invariant of treap, chunks and page
      tables (\<^verbatim>\<open>pages_ok\<close>), kept by the cut of a chunk; the blocks of pages are disjoint.
    \<^item> \<^verbatim>\<open>Frames\<close>: which operations leave which part of the state alone, in particular that every
      operation of the library keeps a collector that is off switched off.
    \<^item> \<^verbatim>\<open>Collector\<close>: marking, recycling, the step relation \<^verbatim>\<open>mm_step\<close> of all calls and background steps,
      with the collector that stops for good; Free of an address that is no object.
    \<^item> \<^verbatim>\<open>Objects\<close>: what Alloc, AllocSlice and FromInAddr leave in memory.
    \<^item> \<^verbatim>\<open>Serving\<close>, \<^verbatim>\<open>SpanOpen\<close>, \<^verbatim>\<open>AllocRun\<close>: the invariant \<^verbatim>\<open>serving\<close> over all layers (free chunks, page tables,
      the spans in use with their bit maps, and their objects, all apart from each other), kept when an
      object is taken, when a full span leaves its list and when a new span is opened; \<^verbatim>\<open>room k\<close>, that
      the metadata pool and the free chunks hold enough for k more spans, so that k requests are served
      without a system call; Alloc of small sizes as the last interpretation of the locale of \<^verbatim>\<open>Blocks\<close>.
    \<^item> \<^verbatim>\<open>Release\<close>: Free of an object that was handed out; any mixture of Alloc, Free and writes by a user as a
      step relation (\<^verbatim>\<open>user_run\<close>), with the collector off.
    \<^item> \<^verbatim>\<open>Client\<close>: the interface XMemory as a record, what a user may rely on as two locales, interpreted on
      the model; words and bytes in the memory of a user.
    \<^item> \<^verbatim>\<open>LinkedList\<close>: the list of example/xmm-test02.go on that interface, its nodes in byte memory.
    \<^item> \<^verbatim>\<open>Growth\<close>: growth without memory, and the state CreateMemory returns.
    \<^item> \<^verbatim>\<open>ClassLists\<close>: the lists of the classes hold spans of their class.
    \<^item> \<^verbatim>\<open>Entry\<close>: entry.go, definitions only. \<^verbatim>\<open>EntryShape\<close>, \<^verbatim>\<open>EntryPut\<close>, \<^verbatim>\<open>EntryMap\<close>, \<^verbatim>\<open>EntryCut\<close>: rotations
      and red-black shapes, the rounds of fixupPut, lookup and insertion as operations on a map (inside
      the locale of a comparator), the cut of a node and its colors. \<^verbatim>\<open>EntryTree\<close>: deletion as an
      operation on the map, sequences of insertions, the height, and the calls that panic or hang.

  Concrete states (\<^verbatim>\<open>demo_...\<close>) show that the hypotheses of the theorems can hold: a treap of two
  chunks, a heap of one region, a pool with one open span, a process before it was set up.

  \<^bold>\<open>Concurrency.\<close> Each operation runs as one step: the locks of heap, pool and span are held as the
  code holds them, and a compare-and-swap loop is the run nobody disturbs. A goroutine the code
  starts is an entry of \<^verbatim>\<open>pending\<close> that may run between any two operations (\<^verbatim>\<open>runPending\<close>).

  \<^bold>\<open>Not modelled.\<close> Logging, \<^verbatim>\<open>PrintStatus\<close> and the \<^verbatim>\<open>show\<close> functions only print. The lists of allocated chunks
  is a log without a reader, kept as a list. The programs under benchmark and the
  tests only call the package. Data races are outside the model.
\<close>

end
